theory Spec2Isabelle
  imports Main "HOL-Library.Monad_Syntax"
begin

section \<open>TreeMultimap of data-structure-typed: the data model\<close>

text \<open>
  The source is \<^verbatim>\<open>src/data-structures/binary-tree/tree-multimap.ts\<close>. Node objects are
  mutable and linked by references (\<^verbatim>\<open>left\<close>, \<^verbatim>\<open>right\<close>, \<^verbatim>\<open>parent\<close>), so the
  model keeps an explicit store: a reference is an address, the store maps addresses to
  node records, and \<^verbatim>\<open>new TreeMultimapNode(...)\<close> takes the next unused address.
  Keys are numbers compared by the default numeric comparator; they and the counts are
  modelled as unbounded integers. A function that walks links may not return on a cyclic
  store; such functions return \<open>option\<close>, and \<open>None\<close> means "does not return normally".
\<close>

type_synonym addr = nat

type_synonym BTNKey = int

record 'v TreeMultimapNode =
  key :: BTNKey
  val :: "'v option"
  count :: int
  height :: int
  left :: "addr option"
  right :: "addr option"
  parent :: "addr option"

type_synonym 'v store = "addr \<Rightarrow> 'v TreeMultimapNode"

record 'v TreeMultimap =
  root :: "addr option"
  tsize :: int
  tcount :: int
  heap :: "'v store"
  fresh :: addr

datatype IterationType = ITERATIVE | RECURSIVE

datatype FamilyPosition = ROOT | LEFT | RIGHT | ROOT_LEFT | ROOT_RIGHT | ISOLATED | MAL_NODE

datatype DFSOrderPattern = Pre | In | Post

text \<open>
  \<^verbatim>\<open>BTNodeExemplar<V, N>\<close>: what \<^verbatim>\<open>add\<close> accepts. An entry is a pair whose key may
  itself be null or undefined (\<open>None\<close>). The last \<^verbatim>\<open>else\<close> of \<^verbatim>\<open>add\<close> (a value that is
  none of these) has no inhabitant in the declared type.
\<close>

datatype 'v BTNodeExemplar =
    Undefined
  | Null
  | NodeRef addr
  | KeyOnly BTNKey
  | Entry "BTNKey option" "'v option"

section \<open>Node construction and link assignment\<close>

text \<open>\<^verbatim>\<open>new TreeMultimapNode(key, value, count)\<close> (lines 35-38; the AVL node starts with
  height 0 and no links).\<close>

definition new_node :: "BTNKey \<Rightarrow> 'v option \<Rightarrow> int \<Rightarrow> 'v TreeMultimapNode" where
  "new_node k v c =
     \<lparr>key = k, val = v, count = c, height = 0, left = None, right = None, parent = None\<rparr>"

text \<open>\<^verbatim>\<open>createNode\<close> (lines 78-80).\<close>

definition createNode ::
  "'v TreeMultimap \<Rightarrow> BTNKey \<Rightarrow> 'v option \<Rightarrow> int \<Rightarrow> 'v TreeMultimap \<times> addr" where
  "createNode s k v c =
     (s\<lparr>heap := (heap s)(fresh s := new_node k v c), fresh := Suc (fresh s)\<rparr>, fresh s)"

text \<open>Modelled from the spec: the node class's \<^verbatim>\<open>left\<close>/\<^verbatim>\<open>right\<close> accessors are not
  under src. Section 3, invariant 5 (link consistency) asks that a child's \<^verbatim>\<open>parent\<close>
  is the node that holds it, and \<^verbatim>\<open>delete\<close> never assigns \<^verbatim>\<open>parent\<close> itself, so an
  assignment \<^verbatim>\<open>x.left = v\<close> also sets \<^verbatim>\<open>v.parent = x\<close> when \<^verbatim>\<open>v\<close> is a node.\<close>

definition set_left :: "'v store \<Rightarrow> addr \<Rightarrow> addr option \<Rightarrow> 'v store" where
  "set_left h x v =
     (let h1 = (case v of None \<Rightarrow> h | Some c \<Rightarrow> h(c := (h c)\<lparr>parent := Some x\<rparr>))
      in h1(x := (h1 x)\<lparr>left := v\<rparr>))"

definition set_right :: "'v store \<Rightarrow> addr \<Rightarrow> addr option \<Rightarrow> 'v store" where
  "set_right h x v =
     (let h1 = (case v of None \<Rightarrow> h | Some c \<Rightarrow> h(c := (h c)\<lparr>parent := Some x\<rparr>))
      in h1(x := (h1 x)\<lparr>right := v\<rparr>))"

text \<open>Modelled from the spec: \<^verbatim>\<open>_setRoot\<close> is not under src. The root has no parent
  (section 4.3: the promoted child becomes "the new root").\<close>

definition setRoot :: "'v TreeMultimap \<Rightarrow> addr option \<Rightarrow> 'v TreeMultimap" where
  "setRoot s v =
     (let h = heap s;
          h1 = (case v of None \<Rightarrow> h | Some c \<Rightarrow> h(c := (h c)\<lparr>parent := None\<rparr>))
      in s\<lparr>heap := h1, root := v\<rparr>)"

text \<open>Modelled from the spec: the \<^verbatim>\<open>familyPosition\<close> accessor is not under src; the
  enumeration's names say on which side of its parent a node hangs, with the \<^verbatim>\<open>ROOT_\<close>
  forms for a node that has children of its own.\<close>

definition familyPosition :: "'v store \<Rightarrow> addr \<Rightarrow> FamilyPosition" where
  "familyPosition h a =
     (let inner = (left (h a) \<noteq> None \<or> right (h a) \<noteq> None) in
      case parent (h a) of
        None \<Rightarrow> (if inner then ROOT else ISOLATED)
      | Some p \<Rightarrow>
          if left (h p) = Some a then (if inner then ROOT_LEFT else LEFT)
          else if right (h p) = Some a then (if inner then ROOT_RIGHT else RIGHT)
          else MAL_NODE)"

section \<open>Traversals\<close>

text \<open>Modelled from the spec: \<^verbatim>\<open>dfs\<close> is not under src. Section 4.1: a depth-first
  walk in pre-, in- or post-order; here it returns the visited nodes.\<close>

partial_function (option) dfs ::
  "DFSOrderPattern \<Rightarrow> 'v store \<Rightarrow> addr option \<Rightarrow> addr list option" where
  "dfs pattern h p =
     (case p of
        None \<Rightarrow> Some []
      | Some a \<Rightarrow>
          do {
            l \<leftarrow> dfs pattern h (left (h a));
            r \<leftarrow> dfs pattern h (right (h a));
            Some (case pattern of
                    Pre \<Rightarrow> a # l @ r
                  | In \<Rightarrow> l @ a # r
                  | Post \<Rightarrow> l @ r @ [a])
          })"

text \<open>Modelled from the spec: \<^verbatim>\<open>getNode\<close> is not under src. Section 4.3: "locate the
  target node using callback to map a node to a comparable identifier (a predicate
  search, not necessarily a keyed descent)": the first node, in pre-order, that the
  callback maps to the identifier.\<close>

definition getNode ::
  "'v TreeMultimap \<Rightarrow> 'c \<Rightarrow> ('v TreeMultimapNode \<Rightarrow> 'c) \<Rightarrow> addr option option" where
  "getNode s identifier callback =
     do {
       ns \<leftarrow> dfs Pre (heap s) (root s);
       Some (find (\<lambda>a. callback (heap s a) = identifier) ns)
     }"

text \<open>\<^verbatim>\<open>_defaultOneParamCallback\<close>: a node's key.\<close>

definition defaultOneParamCallback :: "'v TreeMultimapNode \<Rightarrow> BTNKey" where
  "defaultOneParamCallback n = key n"

text \<open>Modelled from the spec: \<^verbatim>\<open>getRightMost\<close> is not under src. Section 4.1: the
  "extreme-value walk from a given node".\<close>

partial_function (option) getRightMost :: "'v store \<Rightarrow> addr \<Rightarrow> addr option" where
  "getRightMost h a =
     (case right (h a) of None \<Rightarrow> Some a | Some r \<Rightarrow> getRightMost h r)"

text \<open>The public \<^verbatim>\<open>count\<close> property (lines 63-67) sums \<^verbatim>\<open>node.count\<close> over
  \<^verbatim>\<open>subTreeTraverse\<close>, which is not under src. Modelled from the spec: section 4.1,
  a "full subtree traversal" from the root.\<close>

definition get_count :: "'v TreeMultimap \<Rightarrow> int option" where
  "get_count s =
     do {
       ns \<leftarrow> dfs In (heap s) (root s);
       Some (sum_list (map (\<lambda>a. count (heap s a)) ns))
     }"

section \<open>The AVL layer\<close>

text \<open>Modelled from the spec: the AVL and BST base classes are not under src. Section 3,
  invariant 2: \<open>height(node) = 1 + max(height(left), height(right))\<close> with an empty
  subtree's height \<open>-1\<close>; glossary: the balance factor is
  \<open>height(left subtree) - height(right subtree)\<close>.\<close>

definition hgt :: "'v store \<Rightarrow> addr option \<Rightarrow> int" where
  "hgt h p = (case p of None \<Rightarrow> - 1 | Some a \<Rightarrow> height (h a))"

definition updateHeight :: "'v store \<Rightarrow> addr \<Rightarrow> 'v store" where
  "updateHeight h a =
     h(a := (h a)\<lparr>height := 1 + max (hgt h (left (h a))) (hgt h (right (h a)))\<rparr>)"

definition balanceFactor :: "'v store \<Rightarrow> addr \<Rightarrow> int" where
  "balanceFactor h a = hgt h (left (h a)) - hgt h (right (h a))"

text \<open>Modelled from the spec: section 4.2 names the rotations (single left/right, double
  left-right/right-left) without giving them. \<open>relink\<close> puts node \<open>b\<close> into the slot
  that \<open>a\<close> had under \<open>a\<close>'s former parent \<open>P\<close> (or makes it the root).\<close>

definition relink :: "'v TreeMultimap \<Rightarrow> addr option \<Rightarrow> addr \<Rightarrow> addr \<Rightarrow> 'v TreeMultimap" where
  "relink s P a b =
     (case P of
        None \<Rightarrow> setRoot s (Some b)
      | Some p \<Rightarrow>
          if left (heap s p) = Some a then s\<lparr>heap := set_left (heap s) p (Some b)\<rparr>
          else s\<lparr>heap := set_right (heap s) p (Some b)\<rparr>)"

definition rotateRight :: "'v TreeMultimap \<Rightarrow> addr \<Rightarrow> 'v TreeMultimap" where
  "rotateRight s a =
     (case left (heap s a) of
        None \<Rightarrow> s
      | Some b \<Rightarrow>
          let P = parent (heap s a);
              h1 = set_left (heap s) a (right (heap s b));
              h2 = set_right h1 b (Some a);
              s3 = relink (s\<lparr>heap := h2\<rparr>) P a b
          in s3\<lparr>heap := updateHeight (updateHeight (heap s3) a) b\<rparr>)"

definition rotateLeft :: "'v TreeMultimap \<Rightarrow> addr \<Rightarrow> 'v TreeMultimap" where
  "rotateLeft s a =
     (case right (heap s a) of
        None \<Rightarrow> s
      | Some b \<Rightarrow>
          let P = parent (heap s a);
              h1 = set_right (heap s) a (left (heap s b));
              h2 = set_left h1 b (Some a);
              s3 = relink (s\<lparr>heap := h2\<rparr>) P a b
          in s3\<lparr>heap := updateHeight (updateHeight (heap s3) a) b\<rparr>)"

text \<open>Modelled from the spec: section 4.2, one step of the walk: recompute the height
  of the node; "if a node's balance factor exceeds \<open>\<plusminus>1\<close>, apply the appropriate rotation
  (single left/right, or double left-right/right-left) to restore balance at that node".\<close>

definition balanceNode :: "'v TreeMultimap \<Rightarrow> addr \<Rightarrow> 'v TreeMultimap" where
  "balanceNode s a =
     (let s1 = s\<lparr>heap := updateHeight (heap s) a\<rparr>;
          bf = balanceFactor (heap s1) a
      in if bf > 1 then
           (case left (heap s1 a) of
              None \<Rightarrow> s1
            | Some b \<Rightarrow>
                if balanceFactor (heap s1) b \<ge> 0 then rotateRight s1 a
                else rotateRight (rotateLeft s1 b) a)
         else if bf < - 1 then
           (case right (heap s1 a) of
              None \<Rightarrow> s1
            | Some b \<Rightarrow>
                if balanceFactor (heap s1) b \<le> 0 then rotateLeft s1 a
                else rotateLeft (rotateRight s1 b) a)
         else s1)"

text \<open>Modelled from the spec: \<^verbatim>\<open>getPathToRoot\<close> and \<^verbatim>\<open>_balancePath\<close> are not under
  src. Section 4.2: "walk from the point of change up to the root, recomputing height
  at each ancestor", rebalancing each in turn.\<close>

partial_function (option) getPathToRoot :: "'v store \<Rightarrow> addr \<Rightarrow> addr list option" where
  "getPathToRoot h a =
     (case parent (h a) of
        None \<Rightarrow> Some [a]
      | Some p \<Rightarrow> do { ps \<leftarrow> getPathToRoot h p; Some (a # ps) })"

definition balancePath :: "'v TreeMultimap \<Rightarrow> addr \<Rightarrow> 'v TreeMultimap option" where
  "balancePath s a =
     do {
       path \<leftarrow> getPathToRoot (heap s) a;
       Some (fold (\<lambda>x t. balanceNode t x) path s)
     }"

text \<open>Modelled from the spec: \<^verbatim>\<open>isAVLBalanced\<close> is not under src. Section 4.2: "a
  diagnostic full-tree scan, independent of the maintenance path, confirming invariant
  2 holds everywhere": the scan computes each subtree's height from the links and
  checks that the two subtrees of every node differ by at most 1.\<close>

partial_function (option) avl_scan :: "'v store \<Rightarrow> addr option \<Rightarrow> (int \<times> bool) option" where
  "avl_scan h p =
     (case p of
        None \<Rightarrow> Some (- 1, True)
      | Some a \<Rightarrow>
          do {
            l \<leftarrow> avl_scan h (left (h a));
            r \<leftarrow> avl_scan h (right (h a));
            Some (1 + max (fst l) (fst r),
                  snd l \<and> snd r \<and> \<bar>fst l - fst r\<bar> \<le> 1)
          })"

definition isAVLBalanced :: "'v TreeMultimap \<Rightarrow> bool option" where
  "isAVLBalanced s = map_option snd (avl_scan (heap s) (root s))"

section \<open>add\<close>

text \<open>\<^verbatim>\<open>_replaceNode\<close> (lines 377-380): the new node takes the sum of the counts, then
  the base class puts it in the old node's place. Modelled from the spec: the base
  \<^verbatim>\<open>_replaceNode\<close> is not under src; section 4.3 says that re-adding a key makes "no
  structural change", so the new node takes over the old node's links and height.\<close>

definition super_replaceNode ::
  "'v TreeMultimap \<Rightarrow> addr \<Rightarrow> addr \<Rightarrow> 'v TreeMultimap \<times> addr" where
  "super_replaceNode s oldNode newNode =
     (let h = heap s;
          P = parent (h oldNode);
          h1 = (case P of
                  None \<Rightarrow> h
                | Some p \<Rightarrow>
                    if left (h p) = Some oldNode then h(p := (h p)\<lparr>left := Some newNode\<rparr>)
                    else if right (h p) = Some oldNode then h(p := (h p)\<lparr>right := Some newNode\<rparr>)
                    else h);
          h2 = set_left h1 newNode (left (h1 oldNode));
          h3 = set_right h2 newNode (right (h2 oldNode));
          h4 = h3(newNode := (h3 newNode)\<lparr>parent := P, height := height (h3 oldNode)\<rparr>)
      in (s\<lparr>heap := h4, root := (if root s = Some oldNode then Some newNode else root s)\<rparr>,
          newNode))"

definition replaceNode ::
  "'v TreeMultimap \<Rightarrow> addr \<Rightarrow> addr \<Rightarrow> 'v TreeMultimap \<times> addr" where
  "replaceNode s oldNode newNode =
     (let h = heap s;
          s1 = s\<lparr>heap := h(newNode := (h newNode)\<lparr>count := count (h oldNode) + count (h newNode)\<rparr>)\<rparr>
      in super_replaceNode s1 oldNode newNode)"

text \<open>Modelled from the spec: the base classes' \<^verbatim>\<open>add\<close> is not under src. Section 4.1:
  "descend using the comparator to find the correct leaf position; create and link a
  new node there"; section 4.3: for a key that exists there is "no structural change,
  no rebalancing", which the source does through \<^verbatim>\<open>_replaceNode\<close>; a linked node
  increases \<^verbatim>\<open>size\<close> by 1. The flag of the result says whether a node was linked.\<close>

partial_function (option) bst_insert ::
  "'v TreeMultimap \<Rightarrow> addr \<Rightarrow> addr \<Rightarrow> ('v TreeMultimap \<times> bool) option" where
  "bst_insert s current newNode =
     (let h = heap s in
      if key (h newNode) = key (h current) then
        Some (fst (replaceNode s current newNode), False)
      else if key (h newNode) < key (h current) then
        (case left (h current) of
           None \<Rightarrow> Some (s\<lparr>heap := set_left h current (Some newNode), tsize := tsize s + 1\<rparr>, True)
         | Some l \<Rightarrow> bst_insert s l newNode)
      else
        (case right (h current) of
           None \<Rightarrow> Some (s\<lparr>heap := set_right h current (Some newNode), tsize := tsize s + 1\<rparr>, True)
         | Some r \<Rightarrow> bst_insert s r newNode))"

definition super_add ::
  "'v TreeMultimap \<Rightarrow> addr \<Rightarrow> ('v TreeMultimap \<times> addr option) option" where
  "super_add s newNode =
     do {
       (s1, linked) \<leftarrow>
         (case root s of
            None \<Rightarrow> Some ((setRoot s (Some newNode))\<lparr>tsize := tsize s + 1\<rparr>, True)
          | Some r \<Rightarrow> bst_insert s r newNode);
       s2 \<leftarrow> (if linked then balancePath s1 newNode else Some s1);
       Some (s2, Some newNode)
     }"

text \<open>Lines 121-126 of \<^verbatim>\<open>add\<close>, once \<open>newNode\<close> is known. For an integer count,
  \<^verbatim>\<open>newNode?.count || 0\<close> is the count.\<close>

definition add_node ::
  "'v TreeMultimap \<Rightarrow> addr \<Rightarrow> ('v TreeMultimap \<times> addr option) option" where
  "add_node s newNode =
     (let orgNodeCount = count (heap s newNode) in
      do {
        (s1, inserted) \<leftarrow> super_add s newNode;
        Some (if inserted \<noteq> None then s1\<lparr>tcount := tcount s1 + orgNodeCount\<rparr> else s1, inserted)
      })"

text \<open>\<^verbatim>\<open>add\<close> (lines 103-127). The source's default for \<open>count\<close> is 1.\<close>

definition add ::
  "'v TreeMultimap \<Rightarrow> 'v BTNodeExemplar \<Rightarrow> int \<Rightarrow> ('v TreeMultimap \<times> addr option) option" where
  "add s keyOrNodeOrEntry cnt =
     (case keyOrNodeOrEntry of
        Undefined \<Rightarrow> Some (s, None)
      | Null \<Rightarrow> Some (s, None)
      | NodeRef n \<Rightarrow> add_node s n
      | KeyOnly k \<Rightarrow> (let (s1, n) = createNode s k None cnt in add_node s1 n)
      | Entry ko v \<Rightarrow>
          (case ko of
             None \<Rightarrow> Some (s, None)
           | Some k \<Rightarrow> (let (s1, n) = createNode s k v cnt in add_node s1 n)))"

text \<open>\<^verbatim>\<open>addMany\<close> (lines 147-149) delegates to the base class. Modelled from the spec:
  the base \<^verbatim>\<open>addMany\<close> is not under src; section 6: the results are "order-aligned
  with input", each element added in turn with the default count.\<close>

fun addMany ::
  "'v TreeMultimap \<Rightarrow> 'v BTNodeExemplar list \<Rightarrow> ('v TreeMultimap \<times> addr option list) option" where
  "addMany s [] = Some (s, [])"
| "addMany s (x # xs) =
     do {
       (s1, r) \<leftarrow> add s x 1;
       (s2, rs) \<leftarrow> addMany s1 xs;
       Some (s2, r # rs)
     }"

section \<open>clear, delete, perfectlyBalance\<close>

text \<open>\<^verbatim>\<open>clear\<close> (lines 297-300). Modelled from the spec: the base \<^verbatim>\<open>clear\<close> is not
  under src; section 3: it "discards the whole tree and resets size/total to zero".\<close>

definition super_clear :: "'v TreeMultimap \<Rightarrow> 'v TreeMultimap" where
  "super_clear s = s\<lparr>root := None, tsize := 0\<rparr>"

definition clear :: "'v TreeMultimap \<Rightarrow> 'v TreeMultimap" where
  "clear s = (super_clear s)\<lparr>tcount := 0\<rparr>"

text \<open>\<^verbatim>\<open>_swapProperties\<close> (lines 352-375) for two nodes: the payload (key, value, count,
  height) of the two nodes is exchanged through a temporary copy of \<open>destNode\<close>'s; the
  result is \<open>destNode\<close>.\<close>

definition swapProperties :: "'v store \<Rightarrow> addr \<Rightarrow> addr \<Rightarrow> 'v store \<times> addr option" where
  "swapProperties h srcNode destNode =
     (let tempNode = (new_node (key (h destNode)) (val (h destNode)) (count (h destNode)))
                       \<lparr>height := height (h destNode)\<rparr>;
          h1 = h(destNode := (h destNode)
                 \<lparr>key := key (h srcNode), val := val (h srcNode),
                  count := count (h srcNode), height := height (h srcNode)\<rparr>);
          h2 = h1(srcNode := (h1 srcNode)
                 \<lparr>key := key tempNode, val := val tempNode,
                  count := count tempNode, height := height tempNode\<rparr>)
      in (h2, Some destNode))"

text \<open>The structural branch of \<^verbatim>\<open>delete\<close> (lines 248-274): the result is the state,
  \<open>orgCurrent\<close> and \<open>needBalanced\<close>.\<close>

definition delete_unlink ::
  "'v TreeMultimap \<Rightarrow> addr \<Rightarrow> ('v TreeMultimap \<times> addr option \<times> addr option) option" where
  "delete_unlink s cur =
     (let h = heap s; par = parent (h cur) in
      if left (h cur) = None then
        (case par of
           None \<Rightarrow>
             Some (if right (h cur) \<noteq> None then setRoot s (right (h cur)) else s,
                   Some cur, None)
         | Some p \<Rightarrow>
             (let fp = familyPosition h cur in
              Some (if fp = LEFT \<or> fp = ROOT_LEFT then s\<lparr>heap := set_left h p (right (h cur))\<rparr>
                    else if fp = RIGHT \<or> fp = ROOT_RIGHT then s\<lparr>heap := set_right h p (right (h cur))\<rparr>
                    else s,
                    Some cur, Some p)))
      else
        do {
          leftSubTreeRightMost \<leftarrow> getRightMost h (the (left (h cur)));
          let parentOfLeftSubTreeMax = parent (h leftSubTreeRightMost);
          let (h1, orgCurrent) = swapProperties h cur leftSubTreeRightMost;
          Some (case parentOfLeftSubTreeMax of
                  None \<Rightarrow> (s\<lparr>heap := h1\<rparr>, orgCurrent, None)
                | Some pm \<Rightarrow>
                    (if right (h1 pm) = Some leftSubTreeRightMost
                     then s\<lparr>heap := set_right h1 pm (left (h1 leftSubTreeRightMost))\<rparr>
                     else s\<lparr>heap := set_left h1 pm (left (h1 leftSubTreeRightMost))\<rparr>,
                     orgCurrent, Some pm))
        })"

text \<open>\<^verbatim>\<open>delete\<close> (lines 229-287). The result sequence holds the pair
  \<open>(deleted, needBalanced)\<close>.\<close>

definition delete ::
  "'v TreeMultimap \<Rightarrow> 'c \<Rightarrow> ('v TreeMultimapNode \<Rightarrow> 'c) \<Rightarrow> bool \<Rightarrow>
     ('v TreeMultimap \<times> (addr option \<times> addr option) list) option" where
  "delete s identifier callback ignoreCount =
     (if root s = None then Some (s, [])
      else
        do {
          found \<leftarrow> getNode s identifier callback;
          (case found of
             None \<Rightarrow> Some (s, [])
           | Some cur \<Rightarrow>
               do {
                 (s3, orgCurrent, needBalanced) \<leftarrow>
                   (if count (heap s cur) > 1 \<and> \<not> ignoreCount then
                      Some (s\<lparr>heap := (heap s)(cur := (heap s cur)\<lparr>count := count (heap s cur) - 1\<rparr>),
                              tcount := tcount s - 1\<rparr>,
                            Some cur, None)
                    else
                      do {
                        (s1, orgCurrent, needBalanced) \<leftarrow> delete_unlink s cur;
                        let s2 = s1\<lparr>tsize := tsize s1 - 1\<rparr>;
                        Some (case orgCurrent of
                                None \<Rightarrow> s2
                              | Some oc \<Rightarrow> s2\<lparr>tcount := tcount s2 - count (heap s2 oc)\<rparr>,
                              orgCurrent, needBalanced)
                      });
                 s4 \<leftarrow> (case needBalanced of
                         None \<Rightarrow> Some s3
                       | Some nb \<Rightarrow> balancePath s3 nb);
                 Some (s4, [(orgCurrent, needBalanced)])
               })
        })"

text \<open>\<^verbatim>\<open>perfectlyBalance\<close> (lines 167-203). \<open>sorted\<close> holds the nodes of the in-order
  walk; each \<^verbatim>\<open>add\<close> reads the key, value and count of \<^verbatim>\<open>sorted[m]\<close> at the time of
  the call. Reading \<^verbatim>\<open>sorted[m]\<close> outside the array gives \<^verbatim>\<open>undefined\<close>, whose
  \<^verbatim>\<open>key\<close> cannot be read: the call throws (\<open>None\<close>).\<close>

definition add_mid ::
  "'v TreeMultimap \<Rightarrow> addr list \<Rightarrow> int \<Rightarrow> 'v TreeMultimap option" where
  "add_mid s sortedNodes m =
     (if 0 \<le> m \<and> m < int (length sortedNodes) then
        (let midNode = heap s (sortedNodes ! nat m) in
         map_option fst (add s (Entry (Some (key midNode)) (val midNode)) (count midNode)))
      else None)"

declare Option.bind_cong [fundef_cong]

function buildBalanceBST ::
  "addr list \<Rightarrow> int \<Rightarrow> int \<Rightarrow> 'v TreeMultimap \<Rightarrow> 'v TreeMultimap option" where
  "buildBalanceBST sortedNodes l r s =
     (if l > r then Some s
      else
        (let m = l + (r - l) div 2 in
         do {
           s1 \<leftarrow> add_mid s sortedNodes m;
           s2 \<leftarrow> buildBalanceBST sortedNodes l (m - 1) s1;
           buildBalanceBST sortedNodes (m + 1) r s2
         }))"
  by pat_completeness auto
termination
  by (relation "measure (\<lambda>(sortedNodes, l, r, s). nat (r - l + 1))") auto

text \<open>The explicit stack of the iterative variant, its top at the head of the list.\<close>

function balance_loop ::
  "addr list \<Rightarrow> (int \<times> int) list \<Rightarrow> 'v TreeMultimap \<Rightarrow> 'v TreeMultimap option" where
  "balance_loop sortedNodes [] s = Some s"
| "balance_loop sortedNodes ((l, r) # stack) s =
     (if l \<le> r then
        (let m = l + (r - l) div 2 in
         do {
           s1 \<leftarrow> add_mid s sortedNodes m;
           balance_loop sortedNodes ((l, m - 1) # (m + 1, r) # stack) s1
         })
      else balance_loop sortedNodes stack s)"
  by pat_completeness auto
termination
  by (relation "measure (\<lambda>(sortedNodes, stack, s). (\<Sum>(l, r)\<leftarrow>stack. 2 * nat (r - l + 1) + 1))") auto

definition perfectlyBalance ::
  "'v TreeMultimap \<Rightarrow> IterationType \<Rightarrow> ('v TreeMultimap \<times> bool) option" where
  "perfectlyBalance s iterationType =
     do {
       sortedNodes \<leftarrow> dfs In (heap s) (root s);
       let n = int (length sortedNodes);
       if length sortedNodes < 1 then Some (s, False)
       else
         (let s0 = clear s in
          if iterationType = RECURSIVE then
            do { s1 \<leftarrow> buildBalanceBST sortedNodes 0 (n - 1) s0; Some (s1, True) }
          else
            do { s1 \<leftarrow> balance_loop sortedNodes [(0, n - 1)] s0; Some (s1, True) })
     }"

text \<open>The empty tree: no root, size and count 0.\<close>

definition empty_tree :: "'v TreeMultimap" where
  "empty_tree =
     \<lparr>root = None, tsize = 0, tcount = 0, heap = (\<lambda>_. new_node 0 None 0), fresh = 0\<rparr>"

section \<open>Observations and reference definitions\<close>

text \<open>What an in-order walk shows of a tree: the \<open>(key, count)\<close> pairs, and the keys.\<close>

definition inorder_content :: "'v TreeMultimap \<Rightarrow> (BTNKey \<times> int) list option" where
  "inorder_content s =
     map_option (map (\<lambda>a. (key (heap s a), count (heap s a)))) (dfs In (heap s) (root s))"

definition inorder_keys :: "'v TreeMultimap \<Rightarrow> BTNKey list option" where
  "inorder_keys s = map_option (map (\<lambda>a. key (heap s a))) (dfs In (heap s) (root s))"

text \<open>The order of insertion as the claim about the two rebuild variants words it: the
  median of an index range first, then the left half, then the right half (a pre-order
  walk of the recursion tree). \<open>run_adds\<close> issues the \<^verbatim>\<open>add\<close> calls of a given index
  sequence one after the other.\<close>

function mid_order :: "int \<Rightarrow> int \<Rightarrow> int list" where
  "mid_order l r =
     (if l > r then []
      else (let m = l + (r - l) div 2 in m # mid_order l (m - 1) @ mid_order (m + 1) r))"
  by pat_completeness auto
termination
  by (relation "measure (\<lambda>(l, r). nat (r - l + 1))") auto

fun run_adds :: "addr list \<Rightarrow> int list \<Rightarrow> 'v TreeMultimap \<Rightarrow> 'v TreeMultimap option" where
  "run_adds sortedNodes [] s = Some s"
| "run_adds sortedNodes (m # ms) s =
     do { s1 \<leftarrow> add_mid s sortedNodes m; run_adds sortedNodes ms s1 }"

declare mid_order.simps [simp del] buildBalanceBST.simps [simp del] balance_loop.simps [simp del]

declare dfs.simps [code] getPathToRoot.simps [code] getRightMost.simps [code]
  bst_insert.simps [code] avl_scan.simps [code]

section \<open>Concrete trees\<close>

text \<open>The tree after \<^verbatim>\<open>add(5)\<close> on an empty tree, the tree after a second \<^verbatim>\<open>add(5)\<close>
  (the node made by the second call has replaced the first), and the tree after
  \<^verbatim>\<open>add(2); add(1); add(3)\<close>.\<close>

definition tree_5 :: "unit TreeMultimap" where
  "tree_5 =
     \<lparr>root = Some 0, tsize = 1, tcount = 1,
      heap = (\<lambda>_. new_node 0 None 0)(0 := new_node 5 None 1), fresh = 1\<rparr>"

definition tree_55 :: "unit TreeMultimap" where
  "tree_55 =
     \<lparr>root = Some 1, tsize = 1, tcount = 2,
      heap = (\<lambda>_. new_node 0 None 0)(0 := new_node 5 None 1, 1 := new_node 5 None 2),
      fresh = 2\<rparr>"

definition tree_213 :: "unit TreeMultimap" where
  "tree_213 =
     \<lparr>root = Some 0, tsize = 3, tcount = 3,
      heap = (\<lambda>_. new_node 0 None 0)
        (0 := (new_node 2 None 1)\<lparr>height := 1, left := Some 1, right := Some 2\<rparr>,
         1 := (new_node 1 None 1)\<lparr>parent := Some 0\<rparr>,
         2 := (new_node 3 None 1)\<lparr>parent := Some 0\<rparr>),
      fresh = 3\<rparr>"

section \<open>Shapes: linked trees in the store\<close>

text \<open>The shape of a tree in the store: which node stands where. The proofs relate the
  pointer structure that the operations build to a shape.\<close>

datatype shape = Tip | Nd shape addr shape

text \<open>The nodes of a shape in in-order, pre-order and post-order.\<close>

fun ino :: "shape \<Rightarrow> addr list" where
  "ino Tip = []"
| "ino (Nd l a r) = ino l @ a # ino r"

fun pre_list :: "shape \<Rightarrow> addr list" where
  "pre_list Tip = []"
| "pre_list (Nd l a r) = a # pre_list l @ pre_list r"

fun post_list :: "shape \<Rightarrow> addr list" where
  "post_list Tip = []"
| "post_list (Nd l a r) = post_list l @ post_list r @ [a]"

text \<open>The node at the top of a shape, as a child pointer.\<close>

fun top_of :: "shape \<Rightarrow> addr option" where
  "top_of Tip = None"
| "top_of (Nd l a r) = Some a"

text \<open>The store \<open>h\<close> holds the shape \<open>t\<close> below the parent \<open>q\<close>: the \<^verbatim>\<open>left\<close>, \<^verbatim>\<open>right\<close>
  and \<^verbatim>\<open>parent\<close> fields of the nodes of \<open>t\<close> are those of the shape.\<close>

fun linked :: "'v store \<Rightarrow> addr option \<Rightarrow> shape \<Rightarrow> bool" where
  "linked h q Tip = True"
| "linked h q (Nd l a r) =
     (parent (h a) = q \<and> left (h a) = top_of l \<and> right (h a) = top_of r
      \<and> linked h (Some a) l \<and> linked h (Some a) r)"

definition links :: "'v TreeMultimapNode \<Rightarrow> addr option \<times> addr option \<times> addr option" where
  "links n = (left n, right n, parent n)"

text \<open>The subtree \<open>t\<close> hangs below \<open>q\<close> on the given side (\<open>True\<close> is left), or is the
  whole tree when there is no \<open>q\<close>.\<close>

definition attached :: "'v TreeMultimap \<Rightarrow> addr option \<Rightarrow> bool \<Rightarrow> shape \<Rightarrow> bool" where
  "attached s q side t \<longleftrightarrow>
     (case q of
        None \<Rightarrow> root s = top_of t
      | Some qa \<Rightarrow>
          qa \<notin> set (ino t)
          \<and> (if side
             then left (heap s qa) = top_of t \<and> set_option (right (heap s qa)) \<inter> set (ino t) = {}
             else right (heap s qa) = top_of t \<and> set_option (left (heap s qa)) \<inter> set (ino t) = {}))"

text \<open>A local step: the subtree \<open>u\<close> below \<open>q\<close> has become \<open>u'\<close>, the child pointer of
  \<open>q\<close> (or the root) has followed, and no node outside the two shapes has changed.\<close>

definition step_ok ::
  "'v TreeMultimap \<Rightarrow> 'v TreeMultimap \<Rightarrow> addr option \<Rightarrow> bool \<Rightarrow> shape \<Rightarrow> shape \<Rightarrow> bool" where
  "step_ok s s' q side u u' \<longleftrightarrow>
     linked (heap s') q u'
   \<and> (\<forall>b. b \<notin> set (ino u) \<longrightarrow> b \<notin> set (ino u') \<longrightarrow> Some b \<noteq> q \<longrightarrow> heap s' b = heap s b)
   \<and> (\<forall>qa. q = Some qa \<longrightarrow>
          heap s' qa = (if side then (heap s qa)\<lparr>left := top_of u'\<rparr>
                        else (heap s qa)\<lparr>right := top_of u'\<rparr>))
   \<and> root s' = (if q = None then top_of u' else root s)
   \<and> fresh s' = fresh s"

text \<open>The shape after one balancing step at the top of a subtree.\<close>

fun rot_right :: "shape \<Rightarrow> shape" where
  "rot_right (Nd (Nd ll b lr) a r) = Nd ll b (Nd lr a r)"
| "rot_right t = t"

fun rot_left :: "shape \<Rightarrow> shape" where
  "rot_left (Nd l a (Nd rl b rr)) = Nd (Nd l a rl) b rr"
| "rot_left t = t"

fun rot_left_child :: "shape \<Rightarrow> shape" where
  "rot_left_child (Nd l a r) = Nd (rot_left l) a r"
| "rot_left_child t = t"

fun rot_right_child :: "shape \<Rightarrow> shape" where
  "rot_right_child (Nd l a r) = Nd l a (rot_right r)"
| "rot_right_child t = t"

text \<open>The shape that one balancing step at the top of \<open>u\<close> gives; \<open>h1\<close> is the store
  after the height of the top node has been recomputed.\<close>

definition bal_shape :: "'v store \<Rightarrow> addr \<Rightarrow> shape \<Rightarrow> shape" where
  "bal_shape h1 a u =
     (if balanceFactor h1 a > 1 then
        (case left (h1 a) of
           None \<Rightarrow> u
         | Some b \<Rightarrow> if balanceFactor h1 b \<ge> 0 then rot_right u else rot_right (rot_left_child u))
      else if balanceFactor h1 a < - 1 then
        (case right (h1 a) of
           None \<Rightarrow> u
         | Some b \<Rightarrow> if balanceFactor h1 b \<le> 0 then rot_left u else rot_left (rot_right_child u))
      else u)"

text \<open>Apply a change of shape at the subtree whose top is the node \<open>x\<close>.\<close>

fun at_node :: "addr \<Rightarrow> (shape \<Rightarrow> shape) \<Rightarrow> shape \<Rightarrow> shape" where
  "at_node x f Tip = Tip"
| "at_node x f (Nd l a r) =
     (if a = x then f (Nd l a r)
      else if x \<in> set (ino l) then Nd (at_node x f l) a r
      else Nd l a (at_node x f r))"

text \<open>Whole trees.\<close>

definition wf_tree :: "'v TreeMultimap \<Rightarrow> shape \<Rightarrow> bool" where
  "wf_tree s t \<longleftrightarrow> linked (heap s) None t \<and> root s = top_of t \<and> distinct (ino t)"

definition payload :: "'v TreeMultimapNode \<Rightarrow> BTNKey \<times> 'v option \<times> int" where
  "payload n = (key n, val n, count n)"

text \<open>The search and the insertion of the base \<^verbatim>\<open>add\<close> on shapes; \<open>\<kappa>\<close> gives the key
  of a node.\<close>

fun bst_find :: "(addr \<Rightarrow> BTNKey) \<Rightarrow> BTNKey \<Rightarrow> shape \<Rightarrow> addr option" where
  "bst_find \<kappa> k Tip = None"
| "bst_find \<kappa> k (Nd l a r) =
     (if k = \<kappa> a then Some a else if k < \<kappa> a then bst_find \<kappa> k l else bst_find \<kappa> k r)"

fun bst_ins :: "(addr \<Rightarrow> BTNKey) \<Rightarrow> addr \<Rightarrow> shape \<Rightarrow> shape" where
  "bst_ins \<kappa> n Tip = Nd Tip n Tip"
| "bst_ins \<kappa> n (Nd l a r) =
     (if \<kappa> n = \<kappa> a then Nd l n r
      else if \<kappa> n < \<kappa> a then Nd (bst_ins \<kappa> n l) a r
      else Nd l a (bst_ins \<kappa> n r))"

text \<open>Renaming the nodes of a shape.\<close>

fun shape_map :: "(addr \<Rightarrow> addr) \<Rightarrow> shape \<Rightarrow> shape" where
  "shape_map f Tip = Tip"
| "shape_map f (Nd l a r) = Nd (shape_map f l) (f a) (shape_map f r)"

text \<open>A tree at rest: the links form the shape \<open>t\<close> from the root, the keys are strictly
  increasing in in-order, and every node of the tree was made by the allocator.\<close>

definition bst_inv :: "'v TreeMultimap \<Rightarrow> shape \<Rightarrow> bool" where
  "bst_inv s t \<longleftrightarrow>
     wf_tree s t \<and> sorted_wrt (<) (map (\<lambda>a. key (heap s a)) (ino t))
     \<and> (\<forall>a\<in>set (ino t). a < fresh s)"

text \<open>Removing the top node of a shape that has at most one child.\<close>

fun splice :: "shape \<Rightarrow> shape" where
  "splice Tip = Tip"
| "splice (Nd l x r) = (if l = Tip then r else l)"

text \<open>A node is in the tree when the in-order walk from the root meets it.\<close>

definition in_tree :: "'v TreeMultimap \<Rightarrow> addr \<Rightarrow> bool" where
  "in_tree s n = (case dfs In (heap s) (root s) of None \<Rightarrow> False | Some ns \<Rightarrow> n \<in> set ns)"

text \<open>A node object handed to \<^verbatim>\<open>add\<close> exists (the allocator has made it) and, at the
  time of the call, is in the tree or has no children; keys and entries are not
  restricted. For \<^verbatim>\<open>addMany\<close> this is asked of each element at the time of its own
  \<^verbatim>\<open>add\<close> call.\<close>

definition ex_ok :: "'v TreeMultimap \<Rightarrow> 'v BTNodeExemplar \<Rightarrow> bool" where
  "ex_ok s e =
     (case e of
        NodeRef n \<Rightarrow>
          n < fresh s \<and> (in_tree s n \<or> (left (heap s n) = None \<and> right (heap s n) = None))
      | _ \<Rightarrow> True)"

fun exs_ok :: "'v TreeMultimap \<Rightarrow> 'v BTNodeExemplar list \<Rightarrow> bool" where
  "exs_ok s [] = True"
| "exs_ok s (e # es) =
     (ex_ok s e \<and> (case add s e 1 of None \<Rightarrow> True | Some (s1, r) \<Rightarrow> exs_ok s1 es))"

text \<open>The public operations that change a tree.\<close>

datatype ('v, 'c) operation =
    OpAdd "'v BTNodeExemplar" int
  | OpAddMany "'v BTNodeExemplar list"
  | OpDelete 'c "'v TreeMultimapNode \<Rightarrow> 'c" bool
  | OpPerfectlyBalance IterationType
  | OpClear

fun apply_op :: "'v TreeMultimap \<Rightarrow> ('v, 'c) operation \<Rightarrow> 'v TreeMultimap option" where
  "apply_op s (OpAdd e c) = map_option fst (add s e c)"
| "apply_op s (OpAddMany es) = map_option fst (addMany s es)"
| "apply_op s (OpDelete i cb ig) = map_option fst (delete s i cb ig)"
| "apply_op s (OpPerfectlyBalance it) = map_option fst (perfectlyBalance s it)"
| "apply_op s OpClear = Some (clear s)"

fun op_ok :: "'v TreeMultimap \<Rightarrow> ('v, 'c) operation \<Rightarrow> bool" where
  "op_ok s (OpAdd e c) = ex_ok s e"
| "op_ok s (OpAddMany es) = exs_ok s es"
| "op_ok s _ = True"

text \<open>The height of a shape (an empty subtree has height \<open>-1\<close>), the stored heights
  being those of the shape, and the balance of a shape.\<close>

fun ht :: "shape \<Rightarrow> int" where
  "ht Tip = - 1"
| "ht (Nd l a r) = 1 + max (ht l) (ht r)"

fun hts :: "'v store \<Rightarrow> shape \<Rightarrow> bool" where
  "hts h Tip = True"
| "hts h (Nd l a r) = (height (h a) = 1 + max (ht l) (ht r) \<and> hts h l \<and> hts h r)"

fun avl :: "shape \<Rightarrow> bool" where
  "avl Tip = True"
| "avl (Nd l a r) = (\<bar>ht l - ht r\<bar> \<le> 1 \<and> avl l \<and> avl r)"

text \<open>One balancing step on shapes: the rotation that the balance factors of the top
  node and of its taller child ask for.\<close>

fun rebal :: "shape \<Rightarrow> shape" where
  "rebal Tip = Tip"
| "rebal (Nd l a r) =
     (if ht l - ht r > 1 then
        (case l of
           Tip \<Rightarrow> Nd l a r
         | Nd ll b lr \<Rightarrow>
             if ht ll - ht lr \<ge> 0 then rot_right (Nd l a r) else rot_right (rot_left_child (Nd l a r)))
      else if ht l - ht r < - 1 then
        (case r of
           Tip \<Rightarrow> Nd l a r
         | Nd rl b rr \<Rightarrow>
             if ht rl - ht rr \<le> 0 then rot_left (Nd l a r) else rot_left (rot_right_child (Nd l a r)))
      else Nd l a r)"

text \<open>The path from a node of a shape up to its top, the node first.\<close>

fun path_to :: "addr \<Rightarrow> shape \<Rightarrow> addr list" where
  "path_to x Tip = []"
| "path_to x (Nd l a r) =
     (if x = a then [a]
      else if x \<in> set (ino l) then path_to x l @ [a]
      else path_to x r @ [a])"

text \<open>A tree at rest whose stored heights are those of its shape and whose subtrees
  differ in height by at most 1 at every node.\<close>

definition avl_inv :: "'v TreeMultimap \<Rightarrow> shape \<Rightarrow> bool" where
  "avl_inv s t \<longleftrightarrow> bst_inv s t \<and> hts (heap s) t \<and> avl t"

text \<open>The tree after \<^verbatim>\<open>add(5); add(3); add(8); add(2)\<close> on an empty tree.\<close>

definition tree_5382 :: "unit TreeMultimap" where
  "tree_5382 =
     \<lparr>root = Some 0, tsize = 4, tcount = 4,
      heap = (\<lambda>_. new_node 0 None 0)
        (0 := (new_node 5 None 1)\<lparr>height := 2, left := Some 1, right := Some 2\<rparr>,
         1 := (new_node 3 None 1)\<lparr>height := 1, left := Some 3, parent := Some 0\<rparr>,
         2 := (new_node 8 None 1)\<lparr>parent := Some 0\<rparr>,
         3 := (new_node 2 None 1)\<lparr>parent := Some 1\<rparr>),
      fresh = 4\<rparr>"

section \<open>Evaluation of the concrete trees\<close>

lemmas eval_defs = add_def createNode_def empty_tree_def add_node_def super_add_def setRoot_def
  balancePath_def getPathToRoot.simps new_node_def balanceNode_def updateHeight_def hgt_def
  balanceFactor_def bst_insert.simps replaceNode_def super_replaceNode_def set_left_def
  set_right_def

lemma tree_5_built: "add empty_tree (KeyOnly 5) 1 = Some (tree_5, Some 0)"
  by (simp add: eval_defs tree_5_def)

lemma tree_55_built: "add tree_5 (KeyOnly 5) 1 = Some (tree_55, Some 1)"
  by (simp add: eval_defs tree_5_def tree_55_def)

lemma tree_213_built:
  "addMany empty_tree [KeyOnly 2, KeyOnly 1, KeyOnly 3] =
     Some (tree_213, [Some 0, Some 1, Some 2])"
  apply (simp add: eval_defs tree_213_def)
  apply (rule ext)
  apply simp
  done

section \<open>Basic facts\<close>

lemma dfs_None [simp]: "dfs pattern h None = Some []"
  by (subst dfs.simps) simp

lemma getNode_found_root:
  "getNode s identifier callback = Some (Some cur) \<Longrightarrow> root s \<noteq> None"
  by (cases "root s") (auto simp: getNode_def)

section \<open>add with an absent key\<close>

text \<open>C8: \<^verbatim>\<open>add\<close> with an undefined or null key, given directly or as the key of an
  entry pair, returns an absent result (\<open>None\<close> as the node) and leaves the whole state
  as it was: no node is created, size and total are unchanged.\<close>

theorem add_absent_key_noop:
  "add s Undefined cnt = Some (s, None) \<and> add s Null cnt = Some (s, None)
   \<and> add s (Entry None v) cnt = Some (s, None)"
  by (simp add: add_def)

theorem add_absent_key_noop_witness:
  "add tree_5 Undefined 1 = Some (tree_5, None) \<and> add tree_5 Null 1 = Some (tree_5, None)
   \<and> add tree_5 (Entry None (Some ())) 1 = Some (tree_5, None)"
  using add_absent_key_noop [of tree_5 1 "Some ()"] by simp

section \<open>delete\<close>

text \<open>C6: when the callback maps no node of the tree to the identifier, \<^verbatim>\<open>delete\<close>
  returns the empty sequence and the state it was given: size, total and every link are
  as before.\<close>

theorem delete_no_match_noop:
  assumes "dfs Pre (heap s) (root s) = Some ns"
    and "\<forall>a\<in>set ns. callback (heap s a) \<noteq> identifier"
  shows "delete s identifier callback ignoreCount = Some (s, [])"
proof -
  have "find (\<lambda>a. callback (heap s a) = identifier) ns = None"
    using assms(2) by (simp add: find_None_iff)
  then have "getNode s identifier callback = Some None"
    using assms(1) by (simp add: getNode_def)
  then show ?thesis by (simp add: delete_def)
qed

theorem delete_no_match_noop_witness:
  "delete tree_213 999 defaultOneParamCallback False = Some (tree_213, [])"
proof -
  have h1: "dfs Pre (heap tree_213) (root tree_213) = Some [0, 1, 2]" by code_simp
  have h2: "\<forall>a\<in>set [0, 1, 2 :: nat]. defaultOneParamCallback (heap tree_213 a) \<noteq> 999"
    by code_simp
  show ?thesis using delete_no_match_noop [OF h1 h2] .
qed

text \<open>C3: when \<^verbatim>\<open>delete\<close> finds a node whose count is greater than 1 and
  \<open>ignoreCount\<close> is false, the resulting state is the given one with that node's count
  and the total each lowered by 1; the size, the root, every link and every other node
  are the same, and the result names the node with no node to rebalance.\<close>

theorem delete_decrements_count:
  assumes "getNode s identifier callback = Some (Some cur)"
    and "count (heap s cur) > 1"
  shows "delete s identifier callback False =
           Some (s\<lparr>heap := (heap s)(cur := (heap s cur)\<lparr>count := count (heap s cur) - 1\<rparr>),
                   tcount := tcount s - 1\<rparr>,
                 [(Some cur, None)])"
  using assms getNode_found_root [OF assms(1)] by (simp add: delete_def)

theorem delete_decrements_count_witness:
  "delete tree_55 5 defaultOneParamCallback False =
     Some (tree_55\<lparr>heap := (heap tree_55)(1 := (heap tree_55 1)\<lparr>count := 1\<rparr>), tcount := 1\<rparr>,
           [(Some 1, None)])"
proof -
  have h1: "getNode tree_55 5 defaultOneParamCallback = Some (Some 1)" by code_simp
  have h2: "count (heap tree_55 1) > 1" by code_simp
  have h3: "count (heap tree_55 1) - 1 = 1" "tcount tree_55 - 1 = 1" by code_simp+
  show ?thesis using delete_decrements_count [OF h1 h2] unfolding h3 .
qed

text \<open>C1: \<^verbatim>\<open>delete(5)\<close> on the tree that holds only key 5 with count 1. The node has
  no left child, no parent and no right child, so lines 249-250 leave the root as it is:
  afterwards the root is still that node, an in-order walk still yields key 5 and a
  search still finds it, while the size and the stored total have gone to 0 and the
  public count still reads 1.\<close>

theorem delete_only_node_keeps_root:
  "map_option
     (\<lambda>(s, r). (root s, inorder_keys s, getNode s 5 defaultOneParamCallback,
                tsize s, tcount s, get_count s))
     (delete tree_5 5 defaultOneParamCallback False)
   = Some (Some 0, Some [5], Some (Some 0), 0, 0, Some 1)"
  by code_simp

text \<open>C2: after the same call the size is 0 but one node is reachable from the root.\<close>

theorem delete_only_node_size_mismatch:
  "map_option (\<lambda>(s, r). (tsize s, map_option length (dfs In (heap s) (root s))))
     (delete tree_5 5 defaultOneParamCallback False)
   = Some (0, Some 1)"
  by code_simp

section \<open>perfectlyBalance: the two variants\<close>

lemma run_adds_append:
  "run_adds sn (xs @ ys) s = run_adds sn xs s \<bind> run_adds sn ys"
  by (induction xs arbitrary: s) (auto split: Option.bind_split)

lemma buildBalanceBST_run:
  "buildBalanceBST sn l r s = run_adds sn (mid_order l r) s"
proof (induction sn l r s rule: buildBalanceBST.induct)
  case (1 sn l r s)
  show ?case
  proof (cases "l > r")
    case True
    then show ?thesis by (simp add: mid_order.simps buildBalanceBST.simps)
  next
    case False
    define m where "m = l + (r - l) div 2"
    have mo: "mid_order l r = m # mid_order l (m - 1) @ mid_order (m + 1) r"
      using False by (subst mid_order.simps) (simp add: m_def Let_def)
    have bb: "buildBalanceBST sn l r s =
        add_mid s sn m \<bind> (\<lambda>s1. buildBalanceBST sn l (m - 1) s1 \<bind> buildBalanceBST sn (m + 1) r)"
      using False by (subst buildBalanceBST.simps) (simp add: m_def Let_def)
    show ?thesis
    proof (cases "add_mid s sn m")
      case None
      then show ?thesis by (simp add: mo bb)
    next
      case (Some s1)
      have ih1: "buildBalanceBST sn l (m - 1) s1 = run_adds sn (mid_order l (m - 1)) s1"
        using "1.IH"(1)[OF False m_def Some] .
      show ?thesis
      proof (cases "buildBalanceBST sn l (m - 1) s1")
        case None
        then show ?thesis using Some ih1 by (simp add: mo bb run_adds_append)
      next
        case (Some s2)
        have ih2: "buildBalanceBST sn (m + 1) r s2 = run_adds sn (mid_order (m + 1) r) s2"
          using "1.IH"(2)[OF False m_def \<open>add_mid s sn m = Some s1\<close> Some] .
        show ?thesis using Some ih1 ih2 \<open>add_mid s sn m = Some s1\<close>
          by (simp add: mo bb run_adds_append)
      qed
    qed
  qed
qed

lemma balance_loop_run:
  "balance_loop sn stack s = run_adds sn (concat (map (\<lambda>(l, r). mid_order l r) stack)) s"
proof (induction sn stack s rule: balance_loop.induct)
  case (1 sn s)
  then show ?case by (simp add: balance_loop.simps)
next
  case (2 sn l r stack s)
  show ?case
  proof (cases "l \<le> r")
    case False
    then show ?thesis using "2.IH"(2) by (simp add: balance_loop.simps mid_order.simps)
  next
    case True
    define m where "m = l + (r - l) div 2"
    have mo: "mid_order l r = m # mid_order l (m - 1) @ mid_order (m + 1) r"
      using True by (subst mid_order.simps) (simp add: m_def Let_def)
    have bl: "balance_loop sn ((l, r) # stack) s =
        add_mid s sn m \<bind> balance_loop sn ((l, m - 1) # (m + 1, r) # stack)"
      using True by (subst balance_loop.simps) (simp add: m_def Let_def)
    show ?thesis
    proof (cases "add_mid s sn m")
      case None
      then show ?thesis by (simp add: mo bl)
    next
      case (Some s1)
      then show ?thesis using "2.IH"(1)[OF True m_def Some]
        by (simp add: mo bl)
    qed
  qed
qed

lemma perfectlyBalance_variants_eq:
  "perfectlyBalance s RECURSIVE = perfectlyBalance s ITERATIVE"
proof (cases "dfs In (heap s) (root s)")
  case None
  then show ?thesis by (simp add: perfectlyBalance_def)
next
  case (Some sn)
  then show ?thesis
    by (simp add: perfectlyBalance_def buildBalanceBST_run balance_loop_run Let_def)
qed

text \<open>C10: from equal states, the recursive helper and the iterative loop of
  \<^verbatim>\<open>perfectlyBalance\<close> both issue the \<^verbatim>\<open>add\<close> calls of \<open>mid_order 0 (n - 1)\<close>, in that
  order (the median of a range, then its left half, then its right half), so the two
  variants of \<^verbatim>\<open>perfectlyBalance\<close> end in the same state and return the same value.\<close>

theorem perfectlyBalance_same_add_sequence:
  "buildBalanceBST sn 0 (n - 1) s0 = run_adds sn (mid_order 0 (n - 1)) s0
   \<and> balance_loop sn [(0, n - 1)] s0 = run_adds sn (mid_order 0 (n - 1)) s0
   \<and> perfectlyBalance s RECURSIVE = perfectlyBalance s ITERATIVE"
  by (simp add: buildBalanceBST_run balance_loop_run perfectlyBalance_variants_eq)

theorem perfectlyBalance_same_add_sequence_witness:
  "buildBalanceBST [1] 0 (1 - 1) (clear tree_55)
     = run_adds [1] (mid_order 0 (1 - 1)) (clear tree_55)
   \<and> balance_loop [1] [(0, 1 - 1)] (clear tree_55)
     = run_adds [1] (mid_order 0 (1 - 1)) (clear tree_55)
   \<and> perfectlyBalance tree_55 RECURSIVE = perfectlyBalance tree_55 ITERATIVE
   \<and> mid_order 0 (1 - 1) = [0]
   \<and> map_option (\<lambda>(s, b). (dfs Pre (heap s) (root s), inorder_content s, b))
        (perfectlyBalance tree_55 ITERATIVE)
      = Some (Some [2], Some [(5, 2)], True)"
proof -
  have "mid_order 0 (1 - 1) = [0]" by code_simp
  moreover have "map_option (\<lambda>(s, b). (dfs Pre (heap s) (root s), inorder_content s, b))
        (perfectlyBalance tree_55 ITERATIVE)
      = Some (Some [2], Some [(5, 2)], True)"
    by code_simp
  ultimately show ?thesis
    using perfectlyBalance_same_add_sequence [of "[1]" 1 "clear tree_55" tree_55]
    by simp
qed

text \<open>C9: from equal states, the two variants of \<^verbatim>\<open>perfectlyBalance\<close> give final trees
  with the same in-order sequence of keys, the same count for each key, the same stored
  total and the same public count (and they return the same value).\<close>

theorem perfectlyBalance_variants_same_content:
  "map_option (\<lambda>(s', b). (inorder_keys s', inorder_content s', tcount s', get_count s', b))
     (perfectlyBalance s RECURSIVE)
   = map_option (\<lambda>(s', b). (inorder_keys s', inorder_content s', tcount s', get_count s', b))
       (perfectlyBalance s ITERATIVE)"
  by (simp add: perfectlyBalance_variants_eq)

theorem perfectlyBalance_variants_same_content_witness:
  "map_option (\<lambda>(s', b). (inorder_keys s', inorder_content s', tcount s', get_count s', b))
     (perfectlyBalance tree_55 RECURSIVE)
   = map_option (\<lambda>(s', b). (inorder_keys s', inorder_content s', tcount s', get_count s', b))
       (perfectlyBalance tree_55 ITERATIVE)
   \<and> map_option (\<lambda>(s', b). (inorder_keys s', inorder_content s', tcount s', get_count s', b))
       (perfectlyBalance tree_55 ITERATIVE)
     = Some (Some [5], Some [(5, 2)], 2, Some 2, True)"
proof -
  have "map_option (\<lambda>(s', b). (inorder_keys s', inorder_content s', tcount s', get_count s', b))
       (perfectlyBalance tree_55 ITERATIVE)
     = Some (Some [5], Some [(5, 2)], 2, Some 2, True)"
    by code_simp
  then show ?thesis
    using perfectlyBalance_variants_same_content [of tree_55] by simp
qed

section \<open>Linked trees: frame, rotations, insertion, deletion\<close>

subsection \<open>Linked shapes and traversals\<close>

lemma set_pre_list [simp]: "set (pre_list t) = set (ino t)"
  by (induction t) auto

lemma set_post_list [simp]: "set (post_list t) = set (ino t)"
  by (induction t) auto

lemma top_in: "top_of t = Some a \<Longrightarrow> a \<in> set (ino t)"
  by (cases t) auto

lemma top_None [simp]: "top_of t = None \<longleftrightarrow> t = Tip"
  by (cases t) auto

lemma linked_frame:
  "linked h q t \<Longrightarrow> (\<And>a. a \<in> set (ino t) \<Longrightarrow> links (h' a) = links (h a)) \<Longrightarrow> linked h' q t"
  by (induction t arbitrary: q) (auto simp: links_def)

lemma linked_reparent:
  "linked h q t \<Longrightarrow> (\<And>a. a \<in> set (ino t) \<Longrightarrow> top_of t \<noteq> Some a \<Longrightarrow> links (h' a) = links (h a))
   \<Longrightarrow> (\<And>a. top_of t = Some a \<Longrightarrow> left (h' a) = left (h a) \<and> right (h' a) = right (h a) \<and> parent (h' a) = q')
   \<Longrightarrow> distinct (ino t)
   \<Longrightarrow> linked h' q' t"
proof (cases t)
  case Tip
  then show ?thesis by simp
next
  case (Nd l a r)
  assume a1: "linked h q t" and fr: "\<And>a. a \<in> set (ino t) \<Longrightarrow> top_of t \<noteq> Some a \<Longrightarrow> links (h' a) = links (h a)"
    and tp: "\<And>a. top_of t = Some a \<Longrightarrow> left (h' a) = left (h a) \<and> right (h' a) = right (h a) \<and> parent (h' a) = q'"
    and d: "distinct (ino t)"
  have "linked h' (Some a) l" using a1 Nd d by (intro linked_frame[of h "Some a" l h']) (auto intro!: fr)
  moreover have "linked h' (Some a) r" using a1 Nd d by (intro linked_frame[of h "Some a" r h']) (auto intro!: fr)
  ultimately show ?thesis using a1 Nd tp[of a] by simp
qed

lemma dfs_linked:
  "linked h q t \<Longrightarrow>
     dfs pattern h (top_of t) = Some (case pattern of Pre \<Rightarrow> pre_list t | In \<Rightarrow> ino t | Post \<Rightarrow> post_list t)"
proof (induction t arbitrary: q)
  case Tip
  then show ?case by (simp split: DFSOrderPattern.splits)
next
  case (Nd l a r)
  from Nd.prems have "linked h (Some a) l" "linked h (Some a) r" by simp_all
  from Nd.IH(1)[OF this(1)] Nd.IH(2)[OF this(2)] Nd.prems show ?case
    by (subst dfs.simps) (simp split: DFSOrderPattern.splits)
qed

subsection \<open>Local steps; the right rotation\<close>

lemma linked_notin_upd [simp]:
  "a \<notin> set (ino t) \<Longrightarrow> linked (h(a := n)) q t = linked h q t"
  by (induction t arbitrary: q) auto

lemma set_left_other: "c \<noteq> x \<Longrightarrow> v \<noteq> Some c \<Longrightarrow> set_left h x v c = h c"
  by (simp add: set_left_def split: option.splits)

lemma set_left_at: "v \<noteq> Some x \<Longrightarrow> set_left h x v x = (h x)\<lparr>left := v\<rparr>"
  by (simp add: set_left_def split: option.splits)

lemma set_left_child: "c \<noteq> x \<Longrightarrow> set_left h x (Some c) c = (h c)\<lparr>parent := Some x\<rparr>"
  by (simp add: set_left_def)

lemma set_right_other: "c \<noteq> x \<Longrightarrow> v \<noteq> Some c \<Longrightarrow> set_right h x v c = h c"
  by (simp add: set_right_def split: option.splits)

lemma set_right_at: "v \<noteq> Some x \<Longrightarrow> set_right h x v x = (h x)\<lparr>right := v\<rparr>"
  by (simp add: set_right_def split: option.splits)

lemma set_right_child: "c \<noteq> x \<Longrightarrow> set_right h x (Some c) c = (h c)\<lparr>parent := Some x\<rparr>"
  by (simp add: set_right_def)

lemma updateHeight_links [simp]:
  "left (updateHeight h a c) = left (h c)" "right (updateHeight h a c) = right (h c)"
  "parent (updateHeight h a c) = parent (h c)"
  "key (updateHeight h a c) = key (h c)" "val (updateHeight h a c) = val (h c)"
  "count (updateHeight h a c) = count (h c)"
  by (simp_all add: updateHeight_def)

lemma updateHeight_other: "c \<noteq> a \<Longrightarrow> updateHeight h a c = h c"
  by (simp add: updateHeight_def)

lemma linked_updateHeight [simp]: "linked (updateHeight h a) q t = linked h q t"
  by (induction t arbitrary: q) auto

text \<open>the heap of a right rotation, node by node\<close>

lemma linked_child_parent:
  "linked h q t \<Longrightarrow> top_of t = Some c \<Longrightarrow> parent (h c) = q"
  by (cases t) auto

lemma linked_set_parent:
  "linked h q t \<Longrightarrow> distinct (ino t) \<Longrightarrow> top_of t = Some c \<Longrightarrow>
   linked (h(c := (h c)\<lparr>parent := q'\<rparr>)) q' t"
  by (cases t) auto

lemma linked_set_left:
  "linked h q t \<Longrightarrow> distinct (ino t) \<Longrightarrow> x \<notin> set (ino t) \<Longrightarrow> linked (set_left h x (top_of t)) (Some x) t"
  by (cases t) (auto simp: set_left_def)

lemma linked_set_right:
  "linked h q t \<Longrightarrow> distinct (ino t) \<Longrightarrow> x \<notin> set (ino t) \<Longrightarrow> linked (set_right h x (top_of t)) (Some x) t"
  by (cases t) (auto simp: set_right_def)

lemma set_option_top_of: "set_option (top_of t) \<subseteq> set (ino t)"
  by (cases t) auto

lemma linked_set_left_other:
  "x \<notin> set (ino t) \<Longrightarrow> set_option v \<inter> set (ino t) = {} \<Longrightarrow> linked (set_left h x v) q t = linked h q t"
  by (cases v) (auto simp: set_left_def)

lemma linked_set_right_other:
  "x \<notin> set (ino t) \<Longrightarrow> set_option v \<inter> set (ino t) = {} \<Longrightarrow> linked (set_right h x v) q t = linked h q t"
  by (cases v) (auto simp: set_right_def)

lemma set_left_fields [simp]:
  "left (set_left h x v c) = (if c = x then v else left (h c))"
  "right (set_left h x v c) = right (h c)"
  "parent (set_left h x v c) = (if v = Some c then Some x else parent (h c))"
  "key (set_left h x v c) = key (h c)" "val (set_left h x v c) = val (h c)"
  "count (set_left h x v c) = count (h c)" "height (set_left h x v c) = height (h c)"
  by (auto simp: set_left_def split: option.splits)

lemma set_right_fields [simp]:
  "right (set_right h x v c) = (if c = x then v else right (h c))"
  "left (set_right h x v c) = left (h c)"
  "parent (set_right h x v c) = (if v = Some c then Some x else parent (h c))"
  "key (set_right h x v c) = key (h c)" "val (set_right h x v c) = val (h c)"
  "count (set_right h x v c) = count (h c)" "height (set_right h x v c) = height (h c)"
  by (auto simp: set_right_def split: option.splits)

lemma relink_heap_fields:
  "left (heap (relink s P a b) c) =
     (case P of None \<Rightarrow> left (heap s c)
      | Some p \<Rightarrow> if c = p \<and> left (heap s p) = Some a then Some b else left (heap s c))"
  "right (heap (relink s P a b) c) =
     (case P of None \<Rightarrow> right (heap s c)
      | Some p \<Rightarrow> if c = p \<and> left (heap s p) \<noteq> Some a then Some b else right (heap s c))"
  "parent (heap (relink s P a b) c) = (if c = b then P else parent (heap s c))"
  by (auto simp: relink_def setRoot_def Let_def split: option.splits)

lemma relink_other:
  "c \<noteq> b \<Longrightarrow> Some c \<noteq> P \<Longrightarrow> heap (relink s P a b) c = heap s c"
  by (auto simp: relink_def setRoot_def Let_def set_left_other set_right_other split: option.splits)

lemma relink_root: "root (relink s P a b) = (if P = None then Some b else root s)"
  by (auto simp: relink_def setRoot_def Let_def split: option.splits)

lemma relink_fresh [simp]: "fresh (relink s P a b) = fresh s"
  by (auto simp: relink_def setRoot_def Let_def split: option.splits)

lemma relink_parent_node:
  "qa \<noteq> b \<Longrightarrow>
   heap (relink s (Some qa) a b) qa =
     (if left (heap s qa) = Some a then (heap s qa)\<lparr>left := Some b\<rparr>
      else (heap s qa)\<lparr>right := Some b\<rparr>)"
  by (auto simp: relink_def set_left_at set_right_at)

lemma linked_relink:
  "b \<notin> set (ino t) \<Longrightarrow> set_option P \<inter> set (ino t) = {} \<Longrightarrow>
   linked (heap (relink s P a b)) q t = linked (heap s) q t"
  by (cases P) (auto simp: relink_def setRoot_def Let_def linked_set_left_other linked_set_right_other)

lemma attached_side:
  "attached s (Some qa) side t \<Longrightarrow> top_of t = Some a \<Longrightarrow> (left (heap s qa) = Some a) = side"
  by (cases t) (auto simp: attached_def split: if_splits)

lemma attached_notin: "attached s (Some qa) side t \<Longrightarrow> qa \<notin> set (ino t)"
  by (simp add: attached_def)

lemma rotateRight_local:
  assumes L: "linked (heap s) q (Nd (Nd ll b lr) a r)"
    and D: "distinct (ino (Nd (Nd ll b lr) a r))"
    and A: "attached s q side (Nd (Nd ll b lr) a r)"
  shows "step_ok s (rotateRight s a) q side (Nd (Nd ll b lr) a r) (Nd ll b (Nd lr a r))"
proof -
  define h where "h = heap s"
  define h1 where "h1 = set_left h a (top_of lr)"
  define h2 where "h2 = set_right h1 b (Some a)"
  define s3 where "s3 = relink (s\<lparr>heap := h2\<rparr>) q a b"
  define s' where "s' = s3\<lparr>heap := updateHeight (updateHeight (heap s3) a) b\<rparr>"
  have la: "left (h a) = Some b" "parent (h a) = q" "right (h a) = top_of r"
    and lb: "right (h b) = top_of lr" "left (h b) = top_of ll" "parent (h b) = Some a"
    using L by (simp_all add: h_def)
  have rr: "rotateRight s a = s'"
    using la lb by (simp add: rotateRight_def Let_def s'_def s3_def h2_def h1_def h_def)
  have ab: "a \<noteq> b" using D by auto
  have Lll: "linked h (Some b) ll" and Llr: "linked h (Some b) lr" and Lr: "linked h (Some a) r"
    using L by (simp_all add: h_def)
  have nin: "a \<notin> set (ino ll)" "a \<notin> set (ino lr)" "a \<notin> set (ino r)"
    "b \<notin> set (ino ll)" "b \<notin> set (ino lr)" "b \<notin> set (ino r)"
    "set (ino ll) \<inter> set (ino lr) = {}" "set (ino ll) \<inter> set (ino r) = {}" "set (ino lr) \<inter> set (ino r) = {}"
    "distinct (ino ll)" "distinct (ino lr)" "distinct (ino r)"
    using D by auto
  have qn: "\<And>qa. q = Some qa \<Longrightarrow> qa \<noteq> a \<and> qa \<noteq> b \<and> qa \<notin> set (ino ll) \<and> qa \<notin> set (ino lr) \<and> qa \<notin> set (ino r)"
    using A by (auto simp: attached_def)
  have tl: "\<And>c. top_of lr = Some c \<Longrightarrow> c \<in> set (ino lr)" by (rule top_in)
  have tls: "set_option (top_of lr) \<inter> set (ino ll) = {}" "set_option (top_of lr) \<inter> set (ino r) = {}"
    using set_option_top_of[of lr] nin by auto
  have qs: "set_option q \<inter> set (ino ll) = {}" "set_option q \<inter> set (ino lr) = {}" "set_option q \<inter> set (ino r) = {}"
    using qn by (cases q; auto)+
  have 1: "linked h1 (Some a) lr"
    unfolding h1_def using Llr nin by (intro linked_set_left) auto
  have 2: "linked h2 (Some a) lr"
    unfolding h2_def using 1 nin by (simp add: linked_set_right_other)
  have 3: "linked (heap s3) (Some a) lr"
    unfolding s3_def using 2 nin qs by (simp add: linked_relink)
  have 4: "linked h2 (Some b) ll"
    unfolding h2_def h1_def using Lll nin tls
    by (simp add: linked_set_right_other linked_set_left_other)
  have 5: "linked (heap s3) (Some b) ll"
    unfolding s3_def using 4 nin qs by (simp add: linked_relink)
  have 6: "linked h2 (Some a) r"
    unfolding h2_def h1_def using Lr nin tls
    by (simp add: linked_set_right_other linked_set_left_other)
  have 7: "linked (heap s3) (Some a) r"
    unfolding s3_def using 6 nin qs by (simp add: linked_relink)
  have tlr: "top_of lr \<noteq> Some a" "top_of lr \<noteq> Some b" using tl nin by auto
  have fa: "left (heap s3 a) = top_of lr" "right (heap s3 a) = top_of r" "parent (heap s3 a) = Some b"
    using ab la qn tlr
    by (auto simp: s3_def relink_heap_fields h2_def h1_def split: option.splits)
  have fb: "left (heap s3 b) = top_of ll" "right (heap s3 b) = Some a" "parent (heap s3 b) = q"
    using ab lb qn tlr
    by (auto simp: s3_def relink_heap_fields h2_def h1_def split: option.splits)
  have lk: "linked (heap s') q (Nd ll b (Nd lr a r))"
    using 3 5 7 fa fb by (simp add: s'_def)
  have fr: "\<And>c. c \<notin> set (ino (Nd (Nd ll b lr) a r)) \<Longrightarrow> Some c \<noteq> q \<Longrightarrow> heap s' c = heap s c"
  proof -
    fix c assume c: "c \<notin> set (ino (Nd (Nd ll b lr) a r))" "Some c \<noteq> q"
    then have "c \<noteq> a" "c \<noteq> b" "top_of lr \<noteq> Some c" using tl by auto
    then show "heap s' c = heap s c" using c(2)
      by (simp add: s'_def updateHeight_other s3_def relink_other h2_def h1_def set_right_other set_left_other h_def)
  qed
  have fq: "\<And>qa. q = Some qa \<Longrightarrow>
      heap s' qa = (if side then (heap s qa)\<lparr>left := Some b\<rparr> else (heap s qa)\<lparr>right := Some b\<rparr>)"
  proof -
    fix qa assume qa: "q = Some qa"
    have n: "qa \<noteq> a" "qa \<noteq> b" "top_of lr \<noteq> Some qa" using qn[OF qa] tl by auto
    have e: "h2 qa = h qa" using n by (simp add: h2_def h1_def set_right_other set_left_other)
    have sd: "(left (h qa) = Some a) = side"
      using attached_side[of s qa side _ a] A qa by (simp add: h_def)
    show "heap s' qa = (if side then (heap s qa)\<lparr>left := Some b\<rparr> else (heap s qa)\<lparr>right := Some b\<rparr>)"
      using n e sd by (auto simp add: s'_def updateHeight_other s3_def qa relink_parent_node h_def)
  qed
  have rt: "root s' = (if q = None then Some b else root s)"
    by (simp add: s'_def s3_def relink_root)
  have fs: "fresh s' = fresh s" by (simp add: s'_def s3_def)
  show ?thesis unfolding rr step_ok_def using lk fr fq rt fs by simp
qed

subsection \<open>The left rotation; composing and lifting steps\<close>

lemma rotateLeft_local:
  assumes L: "linked (heap s) q (Nd l a (Nd rl b rr))"
    and D: "distinct (ino (Nd l a (Nd rl b rr)))"
    and A: "attached s q side (Nd l a (Nd rl b rr))"
  shows "step_ok s (rotateLeft s a) q side (Nd l a (Nd rl b rr)) (Nd (Nd l a rl) b rr)"
proof -
  define h where "h = heap s"
  define h1 where "h1 = set_right h a (top_of rl)"
  define h2 where "h2 = set_left h1 b (Some a)"
  define s3 where "s3 = relink (s\<lparr>heap := h2\<rparr>) q a b"
  define s' where "s' = s3\<lparr>heap := updateHeight (updateHeight (heap s3) a) b\<rparr>"
  have la: "right (h a) = Some b" "parent (h a) = q" "left (h a) = top_of l"
    and lb: "left (h b) = top_of rl" "right (h b) = top_of rr" "parent (h b) = Some a"
    using L by (simp_all add: h_def)
  have rr: "rotateLeft s a = s'"
    using la lb by (simp add: rotateLeft_def Let_def s'_def s3_def h2_def h1_def h_def)
  have ab: "a \<noteq> b" using D by auto
  have Lrr: "linked h (Some b) rr" and Lrl: "linked h (Some b) rl" and Ll: "linked h (Some a) l"
    using L by (simp_all add: h_def)
  have nin: "a \<notin> set (ino rr)" "a \<notin> set (ino rl)" "a \<notin> set (ino l)"
    "b \<notin> set (ino rr)" "b \<notin> set (ino rl)" "b \<notin> set (ino l)"
    "set (ino rr) \<inter> set (ino rl) = {}" "set (ino rr) \<inter> set (ino l) = {}" "set (ino rl) \<inter> set (ino l) = {}"
    "distinct (ino rr)" "distinct (ino rl)" "distinct (ino l)"
    using D by auto
  have qn: "\<And>qa. q = Some qa \<Longrightarrow> qa \<noteq> a \<and> qa \<noteq> b \<and> qa \<notin> set (ino rr) \<and> qa \<notin> set (ino rl) \<and> qa \<notin> set (ino l)"
    using A by (auto simp: attached_def)
  have tl: "\<And>c. top_of rl = Some c \<Longrightarrow> c \<in> set (ino rl)" by (rule top_in)
  have tls: "set_option (top_of rl) \<inter> set (ino rr) = {}" "set_option (top_of rl) \<inter> set (ino l) = {}"
    using set_option_top_of[of rl] nin by auto
  have qs: "set_option q \<inter> set (ino rr) = {}" "set_option q \<inter> set (ino rl) = {}" "set_option q \<inter> set (ino l) = {}"
    using qn by (cases q; auto)+
  have 1: "linked h1 (Some a) rl"
    unfolding h1_def using Lrl nin by (intro linked_set_right) auto
  have 2: "linked h2 (Some a) rl"
    unfolding h2_def using 1 nin by (simp add: linked_set_left_other)
  have 3: "linked (heap s3) (Some a) rl"
    unfolding s3_def using 2 nin qs by (simp add: linked_relink)
  have 4: "linked h2 (Some b) rr"
    unfolding h2_def h1_def using Lrr nin tls
    by (simp add: linked_set_right_other linked_set_left_other)
  have 5: "linked (heap s3) (Some b) rr"
    unfolding s3_def using 4 nin qs by (simp add: linked_relink)
  have 6: "linked h2 (Some a) l"
    unfolding h2_def h1_def using Ll nin tls
    by (simp add: linked_set_right_other linked_set_left_other)
  have 7: "linked (heap s3) (Some a) l"
    unfolding s3_def using 6 nin qs by (simp add: linked_relink)
  have tlr: "top_of rl \<noteq> Some a" "top_of rl \<noteq> Some b" using tl nin by auto
  have fa: "right (heap s3 a) = top_of rl" "left (heap s3 a) = top_of l" "parent (heap s3 a) = Some b"
    using ab la qn tlr
    by (auto simp: s3_def relink_heap_fields h2_def h1_def split: option.splits)
  have fb: "right (heap s3 b) = top_of rr" "left (heap s3 b) = Some a" "parent (heap s3 b) = q"
    using ab lb qn tlr
    by (auto simp: s3_def relink_heap_fields h2_def h1_def split: option.splits)
  have lk: "linked (heap s') q (Nd (Nd l a rl) b rr)"
    using 3 5 7 fa fb by (simp add: s'_def)
  have fr: "\<And>c. c \<notin> set (ino (Nd l a (Nd rl b rr))) \<Longrightarrow> Some c \<noteq> q \<Longrightarrow> heap s' c = heap s c"
  proof -
    fix c assume c: "c \<notin> set (ino (Nd l a (Nd rl b rr)))" "Some c \<noteq> q"
    then have "c \<noteq> a" "c \<noteq> b" "top_of rl \<noteq> Some c" using tl by auto
    then show "heap s' c = heap s c" using c(2)
      by (simp add: s'_def updateHeight_other s3_def relink_other h2_def h1_def set_right_other set_left_other h_def)
  qed
  have fq: "\<And>qa. q = Some qa \<Longrightarrow>
      heap s' qa = (if side then (heap s qa)\<lparr>left := Some b\<rparr> else (heap s qa)\<lparr>right := Some b\<rparr>)"
  proof -
    fix qa assume qa: "q = Some qa"
    have n: "qa \<noteq> a" "qa \<noteq> b" "top_of rl \<noteq> Some qa" using qn[OF qa] tl by auto
    have e: "h2 qa = h qa" using n by (simp add: h2_def h1_def set_right_other set_left_other)
    have sd: "(left (h qa) = Some a) = side"
      using attached_side[of s qa side _ a] A qa by (simp add: h_def)
    show "heap s' qa = (if side then (heap s qa)\<lparr>left := Some b\<rparr> else (heap s qa)\<lparr>right := Some b\<rparr>)"
      using n e sd by (auto simp add: s'_def updateHeight_other s3_def qa relink_parent_node h_def)
  qed
  have rt: "root s' = (if q = None then Some b else root s)"
    by (simp add: s'_def s3_def relink_root)
  have fs: "fresh s' = fresh s" by (simp add: s'_def s3_def)
  show ?thesis unfolding rr step_ok_def using lk fr fq rt fs by simp
qed

lemma record_upd_same [simp]:
  "n\<lparr>left := left n\<rparr> = n" "n\<lparr>right := right n\<rparr> = n"
  by simp_all

lemma step_ok_refl_heights:
  assumes "linked (heap s) q u" and "attached s q side u"
    and "\<And>b. b \<notin> set (ino u) \<Longrightarrow> h' b = heap s b"
    and "\<And>b. links (h' b) = links (heap s b)"
  shows "step_ok s (s\<lparr>heap := h'\<rparr>) q side u u"
  using assms
  by (cases q) (auto simp: step_ok_def attached_def intro: linked_frame split: if_splits)

lemma updateHeight_step:
  assumes "linked (heap s) q u" and "attached s q side u" and "a \<in> set (ino u)"
  shows "step_ok s (s\<lparr>heap := updateHeight (heap s) a\<rparr>) q side u u"
proof (rule step_ok_refl_heights)
  fix b assume "b \<notin> set (ino u)"
  then have "b \<noteq> a" using assms(3) by auto
  then show "updateHeight (heap s) a b = heap s b" by (simp add: updateHeight_other)
qed (use assms in \<open>auto simp: links_def\<close>)

lemma step_ok_trans:
  assumes "step_ok s s1 q side u u1" and "step_ok s1 s2 q side u1 u2"
    and "set (ino u1) \<subseteq> set (ino u) \<union> set (ino u2)"
  shows "step_ok s s2 q side u u2"
proof -
  have fr: "\<And>b. b \<notin> set (ino u) \<Longrightarrow> b \<notin> set (ino u2) \<Longrightarrow> Some b \<noteq> q \<Longrightarrow> heap s2 b = heap s b"
  proof -
    fix b assume b: "b \<notin> set (ino u)" "b \<notin> set (ino u2)" "Some b \<noteq> q"
    then have b1: "b \<notin> set (ino u1)" using assms(3) by auto
    have "heap s2 b = heap s1 b" using assms(2) b b1 by (simp add: step_ok_def)
    also have "\<dots> = heap s b" using assms(1) b b1 by (simp add: step_ok_def)
    finally show "heap s2 b = heap s b" .
  qed
  have rest: "linked (heap s2) q u2"
    "\<And>qa. q = Some qa \<Longrightarrow>
          heap s2 qa = (if side then (heap s qa)\<lparr>left := top_of u2\<rparr>
                        else (heap s qa)\<lparr>right := top_of u2\<rparr>)"
    "root s2 = (if q = None then top_of u2 else root s)" "fresh s2 = fresh s"
    using assms(1,2) by (auto simp: step_ok_def)
  show ?thesis unfolding step_ok_def using fr rest by simp
qed

lemma step_ok_attached:
  assumes "step_ok s s' q side u u'" and "attached s q side u"
    and "set_option q \<inter> set (ino u') = {}"
    and "\<And>qa. q = Some qa \<Longrightarrow> set_option (if side then right (heap s qa) else left (heap s qa)) \<inter> set (ino u') = {}"
  shows "attached s' q side u'"
  using assms
  by (cases q) (auto simp: step_ok_def attached_def split: if_splits)

text \<open>lifting a step on a child to the parent\<close>

lemma step_lift_left:
  assumes L: "linked (heap s) q (Nd l a r)"
    and D: "distinct (ino (Nd l a r))"
    and A: "attached s q side (Nd l a r)"
    and S: "step_ok s s' (Some a) True l l'"
    and N: "set (ino l') \<inter> (insert a (set (ino r))) = {}" "set_option q \<inter> set (ino l') = {}"
  shows "step_ok s s' q side (Nd l a r) (Nd l' a r)"
proof -
  have ha: "heap s' a = (heap s a)\<lparr>left := top_of l'\<rparr>"
    using S by (simp add: step_ok_def)
  have fr: "\<And>b. b \<notin> set (ino l) \<Longrightarrow> b \<notin> set (ino l') \<Longrightarrow> b \<noteq> a \<Longrightarrow> heap s' b = heap s b"
    using S by (simp add: step_ok_def)
  have "linked (heap s') (Some a) r"
  proof (rule linked_frame[of "heap s"])
    show "linked (heap s) (Some a) r" using L by simp
    fix b assume "b \<in> set (ino r)"
    then have "heap s' b = heap s b" using D N by (intro fr) auto
    then show "links (heap s' b) = links (heap s b)" by simp
  qed
  moreover have "linked (heap s') (Some a) l'" using S by (simp add: step_ok_def)
  ultimately have lk: "linked (heap s') q (Nd l' a r)"
    using L ha by simp
  have f2: "\<And>b. b \<notin> set (ino (Nd l a r)) \<Longrightarrow> b \<notin> set (ino (Nd l' a r)) \<Longrightarrow> Some b \<noteq> q \<Longrightarrow> heap s' b = heap s b"
    by (intro fr) auto
  have fq: "\<And>qa. q = Some qa \<Longrightarrow>
      heap s' qa = (if side then (heap s qa)\<lparr>left := Some a\<rparr> else (heap s qa)\<lparr>right := Some a\<rparr>)"
  proof -
    fix qa assume qa: "q = Some qa"
    have "qa \<notin> set (ino l)" "qa \<noteq> a" "qa \<notin> set (ino l')"
      using A N qa by (auto simp: attached_def)
    then have "heap s' qa = heap s qa" by (intro fr)
    then show "heap s' qa = (if side then (heap s qa)\<lparr>left := Some a\<rparr> else (heap s qa)\<lparr>right := Some a\<rparr>)"
      using A qa by (auto simp: attached_def split: if_splits)
  qed
  have rt: "root s' = (if q = None then Some a else root s)"
    using S A by (cases q) (auto simp: step_ok_def attached_def)
  have fs: "fresh s' = fresh s" using S by (simp add: step_ok_def)
  show ?thesis
    unfolding step_ok_def using lk f2 fq rt fs by simp
qed

lemma step_lift_right:
  assumes L: "linked (heap s) q (Nd l a r)"
    and D: "distinct (ino (Nd l a r))"
    and A: "attached s q side (Nd l a r)"
    and S: "step_ok s s' (Some a) False r r'"
    and N: "set (ino r') \<inter> (insert a (set (ino l))) = {}" "set_option q \<inter> set (ino r') = {}"
  shows "step_ok s s' q side (Nd l a r) (Nd l a r')"
proof -
  have ha: "heap s' a = (heap s a)\<lparr>right := top_of r'\<rparr>"
    using S by (simp add: step_ok_def)
  have fr: "\<And>b. b \<notin> set (ino r) \<Longrightarrow> b \<notin> set (ino r') \<Longrightarrow> b \<noteq> a \<Longrightarrow> heap s' b = heap s b"
    using S by (simp add: step_ok_def)
  have "linked (heap s') (Some a) l"
  proof (rule linked_frame[of "heap s"])
    show "linked (heap s) (Some a) l" using L by simp
    fix b assume "b \<in> set (ino l)"
    then have "heap s' b = heap s b" using D N by (intro fr) auto
    then show "links (heap s' b) = links (heap s b)" by simp
  qed
  moreover have "linked (heap s') (Some a) r'" using S by (simp add: step_ok_def)
  ultimately have lk: "linked (heap s') q (Nd l a r')"
    using L ha by simp
  have f2: "\<And>b. b \<notin> set (ino (Nd l a r)) \<Longrightarrow> b \<notin> set (ino (Nd l a r')) \<Longrightarrow> Some b \<noteq> q \<Longrightarrow> heap s' b = heap s b"
    by (intro fr) auto
  have fq: "\<And>qa. q = Some qa \<Longrightarrow>
      heap s' qa = (if side then (heap s qa)\<lparr>left := Some a\<rparr> else (heap s qa)\<lparr>right := Some a\<rparr>)"
  proof -
    fix qa assume qa: "q = Some qa"
    have "qa \<notin> set (ino r)" "qa \<noteq> a" "qa \<notin> set (ino r')"
      using A N qa by (auto simp: attached_def)
    then have "heap s' qa = heap s qa" by (intro fr)
    then show "heap s' qa = (if side then (heap s qa)\<lparr>left := Some a\<rparr> else (heap s qa)\<lparr>right := Some a\<rparr>)"
      using A qa by (auto simp: attached_def split: if_splits)
  qed
  have rt: "root s' = (if q = None then Some a else root s)"
    using S A by (cases q) (auto simp: step_ok_def attached_def)
  have fs: "fresh s' = fresh s" using S by (simp add: step_ok_def)
  show ?thesis
    unfolding step_ok_def using lk f2 fq rt fs by simp
qed

lemma attached_left:
  "linked (heap s) q (Nd l a r) \<Longrightarrow> distinct (ino (Nd l a r)) \<Longrightarrow> attached s (Some a) True l"
  using set_option_top_of[of r] by (auto simp: attached_def)

lemma attached_right:
  "linked (heap s) q (Nd l a r) \<Longrightarrow> distinct (ino (Nd l a r)) \<Longrightarrow> attached s (Some a) False r"
  using set_option_top_of[of l] by (auto simp: attached_def)

subsection \<open>Double rotations\<close>

lemma rotateLR_local:
  assumes L: "linked (heap s) q (Nd (Nd ll b (Nd cl c cr)) a r)"
    and D: "distinct (ino (Nd (Nd ll b (Nd cl c cr)) a r))"
    and A: "attached s q side (Nd (Nd ll b (Nd cl c cr)) a r)"
  shows "step_ok s (rotateRight (rotateLeft s b) a) q side
           (Nd (Nd ll b (Nd cl c cr)) a r) (Nd (Nd ll b cl) c (Nd cr a r))"
proof -
  let ?u = "Nd (Nd ll b (Nd cl c cr)) a r"
  let ?l = "Nd ll b (Nd cl c cr)"
  let ?l' = "Nd (Nd ll b cl) c cr"
  let ?u1 = "Nd ?l' a r"
  let ?s1 = "rotateLeft s b"
  have Ll: "linked (heap s) (Some a) ?l" using L by simp
  have Dl: "distinct (ino ?l)" using D by auto
  have Al: "attached s (Some a) True ?l" using attached_left[OF L D] .
  have 1: "step_ok s ?s1 (Some a) True ?l ?l'"
    by (rule rotateLeft_local[OF Ll Dl Al])
  have 2: "step_ok s ?s1 q side ?u ?u1"
  proof (rule step_lift_left[OF L D A 1])
    show "set (ino ?l') \<inter> insert a (set (ino r)) = {}" using D by auto
    show "set_option q \<inter> set (ino ?l') = {}" using A by (cases q) (auto simp: attached_def)
  qed
  have L1: "linked (heap ?s1) q ?u1" using 2 by (simp add: step_ok_def)
  have D1: "distinct (ino ?u1)" using D by auto
  have A1: "attached ?s1 q side ?u1"
  proof (rule step_ok_attached[OF 2 A])
    show "set_option q \<inter> set (ino ?u1) = {}" using A by (cases q) (auto simp: attached_def)
    fix qa assume "q = Some qa"
    then show "set_option (if side then right (heap s qa) else left (heap s qa)) \<inter> set (ino ?u1) = {}"
      using A by (auto simp: attached_def split: if_splits)
  qed
  have 3: "step_ok ?s1 (rotateRight ?s1 a) q side ?u1 (Nd (Nd ll b cl) c (Nd cr a r))"
    by (rule rotateRight_local[OF L1 D1 A1])
  show ?thesis
    by (rule step_ok_trans[OF 2 3]) auto
qed

lemma rotateRL_local:
  assumes L: "linked (heap s) q (Nd l a (Nd (Nd cl c cr) b rr))"
    and D: "distinct (ino (Nd l a (Nd (Nd cl c cr) b rr)))"
    and A: "attached s q side (Nd l a (Nd (Nd cl c cr) b rr))"
  shows "step_ok s (rotateLeft (rotateRight s b) a) q side
           (Nd l a (Nd (Nd cl c cr) b rr)) (Nd (Nd l a cl) c (Nd cr b rr))"
proof -
  let ?u = "Nd l a (Nd (Nd cl c cr) b rr)"
  let ?r = "Nd (Nd cl c cr) b rr"
  let ?r' = "Nd cl c (Nd cr b rr)"
  let ?u1 = "Nd l a ?r'"
  let ?s1 = "rotateRight s b"
  have Lr: "linked (heap s) (Some a) ?r" using L by simp
  have Dr: "distinct (ino ?r)" using D by auto
  have Ar: "attached s (Some a) False ?r" using attached_right[OF L D] .
  have 1: "step_ok s ?s1 (Some a) False ?r ?r'"
    by (rule rotateRight_local[OF Lr Dr Ar])
  have 2: "step_ok s ?s1 q side ?u ?u1"
  proof (rule step_lift_right[OF L D A 1])
    show "set (ino ?r') \<inter> insert a (set (ino l)) = {}" using D by auto
    show "set_option q \<inter> set (ino ?r') = {}" using A by (cases q) (auto simp: attached_def)
  qed
  have L1: "linked (heap ?s1) q ?u1" using 2 by (simp add: step_ok_def)
  have D1: "distinct (ino ?u1)" using D by auto
  have A1: "attached ?s1 q side ?u1"
  proof (rule step_ok_attached[OF 2 A])
    show "set_option q \<inter> set (ino ?u1) = {}" using A by (cases q) (auto simp: attached_def)
    fix qa assume "q = Some qa"
    then show "set_option (if side then right (heap s qa) else left (heap s qa)) \<inter> set (ino ?u1) = {}"
      using A by (auto simp: attached_def split: if_splits)
  qed
  have 3: "step_ok ?s1 (rotateLeft ?s1 a) q side ?u1 (Nd (Nd l a cl) c (Nd cr b rr))"
    by (rule rotateLeft_local[OF L1 D1 A1])
  show ?thesis
    by (rule step_ok_trans[OF 2 3]) auto
qed

lemma rotateLeft_noop: "right (heap s b) = None \<Longrightarrow> rotateLeft s b = s"
  by (simp add: rotateLeft_def)

lemma rotateRight_noop: "left (heap s b) = None \<Longrightarrow> rotateRight s b = s"
  by (simp add: rotateRight_def)

lemma step_ok_refl:
  "linked (heap s) q u \<Longrightarrow> attached s q side u \<Longrightarrow> step_ok s s q side u u"
  by (cases q) (auto simp: step_ok_def attached_def split: if_splits)

lemma ino_rot_right [simp]: "ino (rot_right t) = ino t"
  by (induction t rule: rot_right.induct) simp_all

lemma ino_rot_left [simp]: "ino (rot_left t) = ino t"
  by (induction t rule: rot_left.induct) simp_all

lemma ino_rot_child [simp]: "ino (rot_left_child t) = ino t" "ino (rot_right_child t) = ino t"
  by (cases t; simp)+

lemma rotateRight_step:
  assumes "linked (heap s) q u" "distinct (ino u)" "attached s q side u" "top_of u = Some a"
  shows "step_ok s (rotateRight s a) q side u (rot_right u)"
proof (cases u)
  case Tip
  then show ?thesis using assms by simp
next
  case (Nd l a' r)
  then have [simp]: "a' = a" using assms by simp
  show ?thesis
  proof (cases l)
    case Tip
    then have "left (heap s a) = None" using assms Nd by simp
    then show ?thesis using assms Nd Tip by (simp add: rotateRight_noop step_ok_refl)
  next
    case (Nd ll b lr)
    then show ?thesis using assms \<open>u = Nd l a' r\<close> rotateRight_local[of s q ll b lr a r side] by simp
  qed
qed

lemma rotateLeft_step:
  assumes "linked (heap s) q u" "distinct (ino u)" "attached s q side u" "top_of u = Some a"
  shows "step_ok s (rotateLeft s a) q side u (rot_left u)"
proof (cases u)
  case Tip
  then show ?thesis using assms by simp
next
  case (Nd l a' r)
  then have [simp]: "a' = a" using assms by simp
  show ?thesis
  proof (cases r)
    case Tip
    then have "right (heap s a) = None" using assms Nd by simp
    then show ?thesis using assms Nd Tip by (simp add: rotateLeft_noop step_ok_refl)
  next
    case (Nd rl b rr)
    then show ?thesis using assms \<open>u = Nd l a' r\<close> rotateLeft_local[of s q l a rl b rr side] by simp
  qed
qed

subsection \<open>One balancing step\<close>

lemma attached_set_option: "attached s q side u \<Longrightarrow> set_option q \<inter> set (ino u) = {}"
  by (cases q) (auto simp: attached_def)

lemma step_ok_attached_same:
  assumes "step_ok s s' q side u u'" and "attached s q side u" and "set (ino u') = set (ino u)"
  shows "attached s' q side u'"
proof (rule step_ok_attached[OF assms(1,2)])
  show "set_option q \<inter> set (ino u') = {}" using attached_set_option[OF assms(2)] assms(3) by simp
  fix qa assume "q = Some qa"
  then show "set_option (if side then right (heap s qa) else left (heap s qa)) \<inter> set (ino u') = {}"
    using assms(2,3) by (auto simp: attached_def split: if_splits)
qed

lemma rotateLeft_child_step:
  assumes L: "linked (heap s) q (Nd l a r)" and D: "distinct (ino (Nd l a r))"
    and A: "attached s q side (Nd l a r)" and T: "top_of l = Some b"
  shows "step_ok s (rotateLeft s b) q side (Nd l a r) (Nd (rot_left l) a r)"
proof (rule step_lift_left[OF L D A])
  show "step_ok s (rotateLeft s b) (Some a) True l (rot_left l)"
    using L D T by (intro rotateLeft_step attached_left[OF L D]) auto
  have "set (ino (rot_left l)) = set (ino l)" by simp
  then show "set (ino (rot_left l)) \<inter> insert a (set (ino r)) = {}" using D by auto
  show "set_option q \<inter> set (ino (rot_left l)) = {}" using attached_set_option[OF A] by auto
qed

lemma rotateRight_child_step:
  assumes L: "linked (heap s) q (Nd l a r)" and D: "distinct (ino (Nd l a r))"
    and A: "attached s q side (Nd l a r)" and T: "top_of r = Some b"
  shows "step_ok s (rotateRight s b) q side (Nd l a r) (Nd l a (rot_right r))"
proof (rule step_lift_right[OF L D A])
  show "step_ok s (rotateRight s b) (Some a) False r (rot_right r)"
    using L D T by (intro rotateRight_step attached_right[OF L D]) auto
  have "set (ino (rot_right r)) = set (ino r)" by simp
  then show "set (ino (rot_right r)) \<inter> insert a (set (ino l)) = {}" using D by auto
  show "set_option q \<inter> set (ino (rot_right r)) = {}" using attached_set_option[OF A] by auto
qed

lemma ino_bal_shape [simp]: "ino (bal_shape h1 a u) = ino u"
  by (simp add: bal_shape_def split: option.splits)

lemma balanceNode_step:
  assumes L: "linked (heap s) q u" and D: "distinct (ino u)"
    and A: "attached s q side u" and T: "top_of u = Some a"
  shows "step_ok s (balanceNode s a) q side u (bal_shape (updateHeight (heap s) a) a u)"
proof -
  obtain l r where u: "u = Nd l a r" using T by (cases u) auto
  define s1 where "s1 = s\<lparr>heap := updateHeight (heap s) a\<rparr>"
  have 0: "step_ok s s1 q side u u"
    unfolding s1_def using L A T by (intro updateHeight_step) (auto simp: top_in)
  have L1: "linked (heap s1) q u" using 0 by (simp add: step_ok_def)
  have A1: "attached s1 q side u" using step_ok_attached_same[OF 0 A] by simp
  have h1: "heap s1 = updateHeight (heap s) a" by (simp add: s1_def)
  have la: "left (heap s1 a) = top_of l" "right (heap s1 a) = top_of r"
    using L1 u by simp_all
  have RR: "step_ok s1 (rotateRight s1 a) q side u (rot_right u)"
    by (rule rotateRight_step[OF L1 D A1 T])
  have RL: "step_ok s1 (rotateLeft s1 a) q side u (rot_left u)"
    by (rule rotateLeft_step[OF L1 D A1 T])
  have LR: "\<And>b. top_of l = Some b \<Longrightarrow>
      step_ok s1 (rotateRight (rotateLeft s1 b) a) q side u (rot_right (rot_left_child u))"
  proof -
    fix b assume b: "top_of l = Some b"
    have 1: "step_ok s1 (rotateLeft s1 b) q side u (rot_left_child u)"
      using rotateLeft_child_step[of s1 q l a r side b] L1 D A1 b u by simp
    have 2: "step_ok (rotateLeft s1 b) (rotateRight (rotateLeft s1 b) a) q side
               (rot_left_child u) (rot_right (rot_left_child u))"
    proof (rule rotateRight_step)
      show "linked (heap (rotateLeft s1 b)) q (rot_left_child u)" using 1 by (simp add: step_ok_def)
      show "distinct (ino (rot_left_child u))" using D by simp
      show "attached (rotateLeft s1 b) q side (rot_left_child u)"
        using step_ok_attached_same[OF 1 A1] by simp
      show "top_of (rot_left_child u) = Some a" using u by simp
    qed
    show "step_ok s1 (rotateRight (rotateLeft s1 b) a) q side u (rot_right (rot_left_child u))"
      by (rule step_ok_trans[OF 1 2]) simp
  qed
  have RLc: "\<And>b. top_of r = Some b \<Longrightarrow>
      step_ok s1 (rotateLeft (rotateRight s1 b) a) q side u (rot_left (rot_right_child u))"
  proof -
    fix b assume b: "top_of r = Some b"
    have 1: "step_ok s1 (rotateRight s1 b) q side u (rot_right_child u)"
      using rotateRight_child_step[of s1 q l a r side b] L1 D A1 b u by simp
    have 2: "step_ok (rotateRight s1 b) (rotateLeft (rotateRight s1 b) a) q side
               (rot_right_child u) (rot_left (rot_right_child u))"
    proof (rule rotateLeft_step)
      show "linked (heap (rotateRight s1 b)) q (rot_right_child u)" using 1 by (simp add: step_ok_def)
      show "distinct (ino (rot_right_child u))" using D by simp
      show "attached (rotateRight s1 b) q side (rot_right_child u)"
        using step_ok_attached_same[OF 1 A1] by simp
      show "top_of (rot_right_child u) = Some a" using u by simp
    qed
    show "step_ok s1 (rotateLeft (rotateRight s1 b) a) q side u (rot_left (rot_right_child u))"
      by (rule step_ok_trans[OF 1 2]) simp
  qed
  have R0: "step_ok s1 s1 q side u u" by (rule step_ok_refl[OF L1 A1])
  have main: "step_ok s1 (balanceNode s a) q side u (bal_shape (heap s1) a u)"
    unfolding balanceNode_def bal_shape_def Let_def s1_def[symmetric]
    using RR RL LR RLc R0 la
    by (auto split: option.splits)
  show ?thesis
    using step_ok_trans[OF 0 main] by (simp add: h1)
qed

subsection \<open>Steps inside a whole tree; the rebalancing walk\<close>

lemma set_at_node:
  assumes "\<And>u. top_of u = Some x \<Longrightarrow> set (ino u) \<subseteq> N \<Longrightarrow> set (ino (f u)) \<subseteq> set (ino u) \<union> F"
    and "set (ino t) \<subseteq> N"
  shows "set (ino (at_node x f t)) \<subseteq> set (ino t) \<union> F"
  using assms(2)
proof (induction t)
  case Tip
  then show ?case by simp
next
  case (Nd l a r)
  show ?case
  proof (cases "a = x")
    case True
    then show ?thesis using assms(1)[of "Nd l a r"] Nd.prems by simp
  next
    case False
    then show ?thesis using Nd by auto
  qed
qed

lemma ino_at_node:
  assumes "\<And>u. top_of u = Some x \<Longrightarrow> ino (f u) = ino u"
  shows "ino (at_node x f t) = ino t"
  by (induction t) (auto simp: assms)

lemma step_lift:
  assumes loc: "\<And>q side u. top_of u = Some x \<Longrightarrow> linked (heap s) q u \<Longrightarrow> distinct (ino u)
       \<Longrightarrow> attached s q side u \<Longrightarrow> set (ino u) \<subseteq> N \<Longrightarrow> parent (heap s x) = q
       \<Longrightarrow> step_ok s s' q side u (f u)"
    and fs: "\<And>u. top_of u = Some x \<Longrightarrow> set (ino u) \<subseteq> N \<Longrightarrow> set (ino (f u)) \<subseteq> set (ino u) \<union> F"
    and FN: "F \<inter> N = {}"
  shows "linked (heap s) q0 t \<Longrightarrow> distinct (ino t) \<Longrightarrow> attached s q0 side0 t \<Longrightarrow> x \<in> set (ino t)
     \<Longrightarrow> set (ino t) \<subseteq> N \<Longrightarrow> set_option q0 \<inter> F = {}
     \<Longrightarrow> step_ok s s' q0 side0 t (at_node x f t)"
proof (induction t arbitrary: q0 side0)
  case Tip
  then show ?case by simp
next
  case (Nd l a r)
  note L = Nd.prems(1) and D = Nd.prems(2) and A = Nd.prems(3) and X = Nd.prems(4)
    and S = Nd.prems(5) and Q = Nd.prems(6)
  show ?case
  proof (cases "a = x")
    case True
    then show ?thesis using loc[of "Nd l a r" q0 side0] L D A S by simp
  next
    case False
    have aF: "a \<notin> F" using S FN by auto
    show ?thesis
    proof (cases "x \<in> set (ino l)")
      case True
      have 1: "step_ok s s' (Some a) True l (at_node x f l)"
        using L D S aF True by (intro Nd.IH(1) attached_left[OF L D]) auto
      have sub: "set (ino (at_node x f l)) \<subseteq> set (ino l) \<union> F"
        using S by (intro set_at_node[where N = N] fs) auto
      have "step_ok s s' q0 side0 (Nd l a r) (Nd (at_node x f l) a r)"
      proof (rule step_lift_left[OF L D A 1])
        have "set (ino l) \<inter> set (ino r) = {}" "a \<notin> set (ino l)" "set (ino r) \<subseteq> N"
          using D S by auto
        then show "set (ino (at_node x f l)) \<inter> insert a (set (ino r)) = {}"
          using sub FN aF by blast
        have "set_option q0 \<inter> set (ino l) = {}" using attached_set_option[OF A] by auto
        then show "set_option q0 \<inter> set (ino (at_node x f l)) = {}"
          using sub Q by blast
      qed
      then show ?thesis using False True by simp
    next
      case xl: False
      then have xr: "x \<in> set (ino r)" using X False by auto
      have 1: "step_ok s s' (Some a) False r (at_node x f r)"
        using L D S aF xr by (intro Nd.IH(2) attached_right[OF L D]) auto
      have sub: "set (ino (at_node x f r)) \<subseteq> set (ino r) \<union> F"
        using S by (intro set_at_node[where N = N] fs) auto
      have "step_ok s s' q0 side0 (Nd l a r) (Nd l a (at_node x f r))"
      proof (rule step_lift_right[OF L D A 1])
        have "set (ino l) \<inter> set (ino r) = {}" "a \<notin> set (ino r)" "set (ino l) \<subseteq> N"
          using D S by auto
        then show "set (ino (at_node x f r)) \<inter> insert a (set (ino l)) = {}"
          using sub FN aF by blast
        have "set_option q0 \<inter> set (ino r) = {}" using attached_set_option[OF A] by auto
        then show "set_option q0 \<inter> set (ino (at_node x f r)) = {}"
          using sub Q by blast
      qed
      then show ?thesis using False xl by simp
    qed
  qed
qed

lemma payload_simps [simp]:
  "payload (n\<lparr>left := x\<rparr>) = payload n" "payload (n\<lparr>right := x\<rparr>) = payload n"
  "payload (n\<lparr>parent := x\<rparr>) = payload n" "payload (n\<lparr>height := y\<rparr>) = payload n"
  by (simp_all add: payload_def)

lemma payload_set_left [simp]: "payload (set_left h x v c) = payload (h c)"
  by (simp add: payload_def)

lemma payload_set_right [simp]: "payload (set_right h x v c) = payload (h c)"
  by (simp add: payload_def)

lemma payload_updateHeight [simp]: "payload (updateHeight h a c) = payload (h c)"
  by (simp add: payload_def)

lemma payload_relink [simp]: "payload (heap (relink s P a b) c) = payload (heap s c)"
  by (auto simp: relink_def setRoot_def Let_def split: option.splits)

lemma relink_sizes [simp]: "tsize (relink s P a b) = tsize s" "tcount (relink s P a b) = tcount s"
  by (auto simp: relink_def setRoot_def Let_def split: option.splits)

lemma payload_rotateRight [simp]: "payload (heap (rotateRight s a) c) = payload (heap s c)"
  by (simp add: rotateRight_def Let_def split: option.splits)

lemma payload_rotateLeft [simp]: "payload (heap (rotateLeft s a) c) = payload (heap s c)"
  by (simp add: rotateLeft_def Let_def split: option.splits)

lemma sizes_rotate [simp]:
  "tsize (rotateRight s a) = tsize s" "tcount (rotateRight s a) = tcount s"
  "tsize (rotateLeft s a) = tsize s" "tcount (rotateLeft s a) = tcount s"
  by (simp_all add: rotateRight_def rotateLeft_def Let_def split: option.splits)

lemma payload_balanceNode [simp]: "payload (heap (balanceNode s a) c) = payload (heap s c)"
  by (simp add: balanceNode_def Let_def split: option.splits)

lemma sizes_balanceNode [simp]:
  "tsize (balanceNode s a) = tsize s" "tcount (balanceNode s a) = tcount s"
  by (simp_all add: balanceNode_def Let_def split: option.splits)

lemma balanceNode_whole:
  assumes W: "wf_tree s t" and X: "x \<in> set (ino t)"
  shows "\<exists>t'. wf_tree (balanceNode s x) t' \<and> ino t' = ino t
       \<and> (\<forall>b. b \<notin> set (ino t) \<longrightarrow> heap (balanceNode s x) b = heap s b)
       \<and> fresh (balanceNode s x) = fresh s"
proof -
  let ?f = "bal_shape (updateHeight (heap s) x) x"
  have S: "step_ok s (balanceNode s x) None True t (at_node x ?f t)"
  proof (rule step_lift[where N = "set (ino t)" and F = "{}"])
    show "linked (heap s) None t" "distinct (ino t)" "attached s None True t"
      using W by (simp_all add: wf_tree_def attached_def)
    show "x \<in> set (ino t)" by (rule X)
  qed (auto intro: balanceNode_step)
  have I: "ino (at_node x ?f t) = ino t" by (rule ino_at_node) simp
  show ?thesis
    using S I W by (intro exI[of _ "at_node x ?f t"]) (auto simp: step_ok_def wf_tree_def)
qed

lemma balance_fold_whole:
  "wf_tree s t \<Longrightarrow> set ps \<subseteq> set (ino t) \<Longrightarrow>
   \<exists>t'. wf_tree (fold (\<lambda>x t. balanceNode t x) ps s) t' \<and> ino t' = ino t
       \<and> (\<forall>b. b \<notin> set (ino t) \<longrightarrow> heap (fold (\<lambda>x t. balanceNode t x) ps s) b = heap s b)
       \<and> fresh (fold (\<lambda>x t. balanceNode t x) ps s) = fresh s"
proof (induction ps arbitrary: s t)
  case Nil
  then show ?case by auto
next
  case (Cons x ps)
  from balanceNode_whole[OF Cons.prems(1), of x] Cons.prems(2)
  obtain t1 where t1: "wf_tree (balanceNode s x) t1" "ino t1 = ino t"
    "\<forall>b. b \<notin> set (ino t) \<longrightarrow> heap (balanceNode s x) b = heap s b"
    "fresh (balanceNode s x) = fresh s" by auto
  from Cons.IH[OF t1(1), unfolded t1(2)] Cons.prems(2)
  obtain t' where t': "wf_tree (fold (\<lambda>x t. balanceNode t x) ps (balanceNode s x)) t'" "ino t' = ino t"
    "\<forall>b. b \<notin> set (ino t) \<longrightarrow> heap (fold (\<lambda>x t. balanceNode t x) ps (balanceNode s x)) b = heap (balanceNode s x) b"
    "fresh (fold (\<lambda>x t. balanceNode t x) ps (balanceNode s x)) = fresh (balanceNode s x)" by auto
  show ?case using t1 t' by (intro exI[of _ t']) simp
qed

lemma payload_fold [simp]:
  "payload (heap (fold (\<lambda>x t. balanceNode t x) ps s) c) = payload (heap s c)"
  by (induction ps arbitrary: s) simp_all

lemma sizes_fold [simp]:
  "tsize (fold (\<lambda>x t. balanceNode t x) ps s) = tsize s"
  "tcount (fold (\<lambda>x t. balanceNode t x) ps s) = tcount s"
  by (induction ps arbitrary: s) simp_all

lemma getPathToRoot_linked:
  "linked h q t \<Longrightarrow> x \<in> set (ino t) \<Longrightarrow>
   \<exists>ps. set ps \<subseteq> set (ino t) \<and>
     getPathToRoot h x = (case q of None \<Rightarrow> Some ps
                          | Some qa \<Rightarrow> map_option ((@) ps) (getPathToRoot h qa))"
proof (induction t arbitrary: q)
  case Tip
  then show ?case by simp
next
  case (Nd l a r)
  have pa: "getPathToRoot h a = (case q of None \<Rightarrow> Some [a]
                          | Some qa \<Rightarrow> map_option ((@) [a]) (getPathToRoot h qa))"
    using Nd.prems(1) by (subst getPathToRoot.simps) (auto split: option.splits simp: map_option_case)
  consider "x = a" | "x \<in> set (ino l)" | "x \<in> set (ino r)" using Nd.prems(2) by auto
  then show ?case
  proof cases
    case 1
    then show ?thesis using pa by (intro exI[of _ "[a]"]) simp
  next
    case 2
    from Nd.IH(1)[OF _ 2, of "Some a"] Nd.prems(1)
    obtain ps where ps: "set ps \<subseteq> set (ino l)" "getPathToRoot h x = map_option ((@) ps) (getPathToRoot h a)"
      by auto
    show ?thesis using ps pa
      by (intro exI[of _ "ps @ [a]"]) (auto split: option.splits simp: option.map_comp comp_def)
  next
    case 3
    from Nd.IH(2)[OF _ 3, of "Some a"] Nd.prems(1)
    obtain ps where ps: "set ps \<subseteq> set (ino r)" "getPathToRoot h x = map_option ((@) ps) (getPathToRoot h a)"
      by auto
    show ?thesis using ps pa
      by (intro exI[of _ "ps @ [a]"]) (auto split: option.splits simp: option.map_comp comp_def)
  qed
qed

lemma balancePath_whole:
  assumes W: "wf_tree s t" and X: "x \<in> set (ino t)"
  shows "\<exists>s' t'. balancePath s x = Some s' \<and> wf_tree s' t' \<and> ino t' = ino t
       \<and> (\<forall>b. b \<notin> set (ino t) \<longrightarrow> heap s' b = heap s b)
       \<and> (\<forall>b. payload (heap s' b) = payload (heap s b))
       \<and> fresh s' = fresh s \<and> tsize s' = tsize s \<and> tcount s' = tcount s"
proof -
  from getPathToRoot_linked[of "heap s" None t x] W X
  obtain ps where ps: "set ps \<subseteq> set (ino t)" "getPathToRoot (heap s) x = Some ps"
    by (auto simp: wf_tree_def)
  from balance_fold_whole[OF W ps(1)] obtain t' where
    "wf_tree (fold (\<lambda>x t. balanceNode t x) ps s) t'" "ino t' = ino t"
    "\<forall>b. b \<notin> set (ino t) \<longrightarrow> heap (fold (\<lambda>x t. balanceNode t x) ps s) b = heap s b"
    "fresh (fold (\<lambda>x t. balanceNode t x) ps s) = fresh s" by auto
  then show ?thesis using ps(2)
    by (intro exI[of _ "fold (\<lambda>x t. balanceNode t x) ps s"] exI[of _ t']) (simp add: balancePath_def)
qed

subsection \<open>Linking a leaf; replacing a node\<close>

lemma set_bst_ins: "set (ino (bst_ins \<kappa> n t)) \<subseteq> insert n (set (ino t))"
  by (induction t) auto

lemma top_bst_ins:
  "top_of t = Some a \<Longrightarrow> top_of (bst_ins \<kappa> n t) = (if \<kappa> n = \<kappa> a then Some n else Some a)"
  by (cases t) auto

text \<open>linking a new leaf\<close>

lemma link_left_step:
  assumes L: "linked (heap s) q (Nd Tip a r)" and D: "distinct (ino (Nd Tip a r))"
    and A: "attached s q side (Nd Tip a r)"
    and N: "n \<notin> set (ino (Nd Tip a r))" "Some n \<noteq> q"
      "left (heap s n) = None" "right (heap s n) = None"
  shows "step_ok s (s\<lparr>heap := set_left (heap s) a (Some n), tsize := tsize s + 1\<rparr>) q side
           (Nd Tip a r) (Nd (Nd Tip n Tip) a r)"
proof -
  let ?h' = "set_left (heap s) a (Some n)"
  have na: "n \<noteq> a" "n \<notin> set (ino r)" using N by auto
  have "linked ?h' (Some a) r"
    using L na D by (subst linked_set_left_other) auto
  then have lk: "linked ?h' q (Nd (Nd Tip n Tip) a r)"
    using L N na by simp
  have fr: "\<And>b. b \<noteq> a \<Longrightarrow> b \<noteq> n \<Longrightarrow> ?h' b = heap s b"
    by (simp add: set_left_other)
  have fq: "\<And>qa. q = Some qa \<Longrightarrow> ?h' qa = (if side then (heap s qa)\<lparr>left := Some a\<rparr> else (heap s qa)\<lparr>right := Some a\<rparr>)"
  proof -
    fix qa assume qa: "q = Some qa"
    then have "qa \<noteq> a" "qa \<noteq> n" using A N by (auto simp: attached_def)
    then have "?h' qa = heap s qa" by (rule fr)
    then show "?h' qa = (if side then (heap s qa)\<lparr>left := Some a\<rparr> else (heap s qa)\<lparr>right := Some a\<rparr>)"
      using A qa by (auto simp: attached_def split: if_splits)
  qed
  have rt: "root s = (if q = None then Some a else root s)"
    using A by (cases q) (auto simp: attached_def)
  show ?thesis unfolding step_ok_def using lk fr fq rt by auto
qed

lemma link_right_step:
  assumes L: "linked (heap s) q (Nd l a Tip)" and D: "distinct (ino (Nd l a Tip))"
    and A: "attached s q side (Nd l a Tip)"
    and N: "n \<notin> set (ino (Nd l a Tip))" "Some n \<noteq> q"
      "left (heap s n) = None" "right (heap s n) = None"
  shows "step_ok s (s\<lparr>heap := set_right (heap s) a (Some n), tsize := tsize s + 1\<rparr>) q side
           (Nd l a Tip) (Nd l a (Nd Tip n Tip))"
proof -
  let ?h' = "set_right (heap s) a (Some n)"
  have na: "n \<noteq> a" "n \<notin> set (ino l)" using N by auto
  have "linked ?h' (Some a) l"
    using L na D by (subst linked_set_right_other) auto
  then have lk: "linked ?h' q (Nd l a (Nd Tip n Tip))"
    using L N na by simp
  have fr: "\<And>b. b \<noteq> a \<Longrightarrow> b \<noteq> n \<Longrightarrow> ?h' b = heap s b"
    by (simp add: set_right_other)
  have fq: "\<And>qa. q = Some qa \<Longrightarrow> ?h' qa = (if side then (heap s qa)\<lparr>left := Some a\<rparr> else (heap s qa)\<lparr>right := Some a\<rparr>)"
  proof -
    fix qa assume qa: "q = Some qa"
    then have "qa \<noteq> a" "qa \<noteq> n" using A N by (auto simp: attached_def)
    then have "?h' qa = heap s qa" by (rule fr)
    then show "?h' qa = (if side then (heap s qa)\<lparr>left := Some a\<rparr> else (heap s qa)\<lparr>right := Some a\<rparr>)"
      using A qa by (auto simp: attached_def split: if_splits)
  qed
  have rt: "root s = (if q = None then Some a else root s)"
    using A by (cases q) (auto simp: attached_def)
  show ?thesis unfolding step_ok_def using lk fr fq rt by auto
qed

text \<open>replacing a node by a new one\<close>

lemma replaceNode_step:
  assumes L: "linked (heap s) q (Nd l a r)" and D: "distinct (ino (Nd l a r))"
    and A: "attached s q side (Nd l a r)"
    and N: "n \<notin> set (ino (Nd l a r))" "Some n \<noteq> q"
    and R: "q \<noteq> None \<longrightarrow> root s \<noteq> Some a"
  shows "step_ok s (fst (replaceNode s a n)) q side (Nd l a r) (Nd l n r)"
proof -
  define h0 where "h0 = (heap s)(n := (heap s n)\<lparr>count := count (heap s a) + count (heap s n)\<rparr>)"
  define h1 where "h1 = (case parent (h0 a) of None \<Rightarrow> h0
                | Some p \<Rightarrow> if left (h0 p) = Some a then h0(p := (h0 p)\<lparr>left := Some n\<rparr>)
                    else if right (h0 p) = Some a then h0(p := (h0 p)\<lparr>right := Some n\<rparr>) else h0)"
  define h2 where "h2 = set_left h1 n (left (h1 a))"
  define h3 where "h3 = set_right h2 n (right (h2 a))"
  define h4 where "h4 = h3(n := (h3 n)\<lparr>parent := parent (h0 a), height := height (h3 a)\<rparr>)"
  have na: "n \<noteq> a" "n \<notin> set (ino l)" "n \<notin> set (ino r)" "a \<notin> set (ino l)" "a \<notin> set (ino r)"
    "set (ino l) \<inter> set (ino r) = {}" "distinct (ino l)" "distinct (ino r)"
    using N D by auto
  have qn: "\<And>qa. q = Some qa \<Longrightarrow> qa \<noteq> a \<and> qa \<noteq> n \<and> qa \<notin> set (ino l) \<and> qa \<notin> set (ino r)"
    using A N by (auto simp: attached_def)
  have pa: "parent (heap s a) = q" "left (heap s a) = top_of l" "right (heap s a) = top_of r"
    using L by simp_all
  have pa0: "parent (h0 a) = q" using pa na by (simp add: h0_def)
  have rn: "fst (replaceNode s a n) =
      s\<lparr>heap := h4, root := (if root s = Some a then Some n else root s)\<rparr>"
    by (simp add: replaceNode_def super_replaceNode_def Let_def h0_def h1_def h2_def h3_def h4_def
        cong: option.case_cong if_cong)
  have h1_def': "h1 = (case q of None \<Rightarrow> h0
                | Some p \<Rightarrow> if left (h0 p) = Some a then h0(p := (h0 p)\<lparr>left := Some n\<rparr>)
                    else if right (h0 p) = Some a then h0(p := (h0 p)\<lparr>right := Some n\<rparr>) else h0)"
    by (simp add: h1_def pa0)
  have h4_def': "h4 = h3(n := (h3 n)\<lparr>parent := q, height := height (h3 a)\<rparr>)"
    by (simp add: h4_def pa0)
  have tl: "set_option (top_of l) \<subseteq> set (ino l)" "set_option (top_of r) \<subseteq> set (ino r)"
    by (rule set_option_top_of)+
  have h1a: "h1 a = heap s a"
    using na qn by (auto simp: h1_def' h0_def split: option.splits)
  have h1_other: "\<And>b. b \<noteq> n \<Longrightarrow> Some b \<noteq> q \<Longrightarrow> h1 b = heap s b"
    by (auto simp: h1_def' h0_def split: option.splits)
  have h1_links: "\<And>b. Some b \<noteq> q \<Longrightarrow> links (h1 b) = links (heap s b)"
    by (auto simp: h1_def' h0_def links_def split: option.splits)
  have Ll1: "linked h1 (Some a) l" and Lr1: "linked h1 (Some a) r"
    using L qn by (auto intro!: linked_frame[of "heap s" _ _ h1] h1_links)
  have l2: "left (h1 a) = top_of l" "right (h1 a) = top_of r" using h1a pa by simp_all
  have Ll2: "linked h2 (Some n) l"
    unfolding h2_def l2 using Ll1 na by (intro linked_set_left) auto
  have Lr2: "linked h2 (Some a) r"
    unfolding h2_def l2 using Lr1 na tl by (subst linked_set_left_other) auto
  have r2: "right (h2 a) = top_of r" using l2 by (simp add: h2_def)
  have Lr3: "linked h3 (Some n) r"
    unfolding h3_def r2 using Lr2 na by (intro linked_set_right) auto
  have Ll3: "linked h3 (Some n) l"
    unfolding h3_def r2 using Ll2 na tl by (subst linked_set_right_other) auto
  have tn: "top_of l \<noteq> Some n" "top_of r \<noteq> Some n" using tl na by auto
  have f3: "left (h3 n) = top_of l" "right (h3 n) = top_of r"
    using tn by (simp_all add: h3_def h2_def r2 l2)
  have lk: "linked h4 q (Nd l n r)"
    using Ll3 Lr3 f3 na by (simp add: h4_def')
  have fr: "\<And>b. b \<notin> set (ino (Nd l a r)) \<Longrightarrow> b \<notin> set (ino (Nd l n r)) \<Longrightarrow> Some b \<noteq> q \<Longrightarrow> h4 b = heap s b"
  proof -
    fix b assume b: "b \<notin> set (ino (Nd l a r))" "b \<notin> set (ino (Nd l n r))" "Some b \<noteq> q"
    then have "b \<noteq> n" "top_of l \<noteq> Some b" "top_of r \<noteq> Some b" using tl by auto
    then show "h4 b = heap s b" using b(3)
      by (simp add: h4_def' h3_def h2_def r2 l2 set_left_other set_right_other h1_other)
  qed
  have fq: "\<And>qa. q = Some qa \<Longrightarrow> h4 qa = (if side then (heap s qa)\<lparr>left := Some n\<rparr> else (heap s qa)\<lparr>right := Some n\<rparr>)"
  proof -
    fix qa assume qa: "q = Some qa"
    have n: "qa \<noteq> a" "qa \<noteq> n" "top_of l \<noteq> Some qa" "top_of r \<noteq> Some qa" using qn[OF qa] tl by auto
    have sd: "(left (heap s qa) = Some a) = side"
      using attached_side[of s qa side _ a] A qa by simp
    have rs: "\<not> side \<Longrightarrow> right (heap s qa) = Some a" using A qa by (simp add: attached_def)
    have "h1 qa = (if side then (heap s qa)\<lparr>left := Some n\<rparr> else (heap s qa)\<lparr>right := Some n\<rparr>)"
      using n sd rs by (auto simp: h1_def' qa h0_def)
    then show "h4 qa = (if side then (heap s qa)\<lparr>left := Some n\<rparr> else (heap s qa)\<lparr>right := Some n\<rparr>)"
      using n by (simp add: h4_def' h3_def h2_def r2 l2 set_left_other set_right_other)
  qed
  have rt: "(if root s = Some a then Some n else root s) = (if q = None then Some n else root s)"
    using A R by (cases q) (auto simp: attached_def)
  show ?thesis unfolding rn step_ok_def using lk fr fq rt by simp
qed

subsection \<open>The descent of the base add\<close>

lemma replaceNode_sizes [simp]:
  "tsize (fst (replaceNode s a n)) = tsize s" "tcount (fst (replaceNode s a n)) = tcount s"
  "fresh (fst (replaceNode s a n)) = fresh s"
  by (simp_all add: replaceNode_def super_replaceNode_def Let_def)

lemma replaceNode_payload:
  "n \<noteq> a \<Longrightarrow> payload (heap (fst (replaceNode s a n)) b) =
     (if b = n then (key (heap s n), val (heap s n), count (heap s a) + count (heap s n))
      else payload (heap s b))"
  by (auto simp: replaceNode_def super_replaceNode_def Let_def payload_def split: option.splits)

lemma bst_insert_step:
  assumes "linked (heap s) q t" "distinct (ino t)" "attached s q side t" "top_of t = Some cur"
    "n \<notin> set (ino t)" "Some n \<noteq> q" "left (heap s n) = None" "right (heap s n) = None"
    "q \<noteq> None \<longrightarrow> set_option (root s) \<inter> set (ino t) = {}"
  shows "\<exists>s'. bst_insert s cur n =
            Some (s', bst_find (\<lambda>a. key (heap s a)) (key (heap s n)) t = None)
     \<and> step_ok s s' q side t (bst_ins (\<lambda>a. key (heap s a)) n t)
     \<and> tsize s' = tsize s + (if bst_find (\<lambda>a. key (heap s a)) (key (heap s n)) t = None then 1 else 0)
     \<and> tcount s' = tcount s
     \<and> (\<forall>b. payload (heap s' b) =
           (if b = n then
              (case bst_find (\<lambda>a. key (heap s a)) (key (heap s n)) t of
                 None \<Rightarrow> payload (heap s n)
               | Some old \<Rightarrow> (key (heap s n), val (heap s n), count (heap s old) + count (heap s n)))
            else payload (heap s b)))"
  using assms
proof (induction t arbitrary: q side cur)
  case Tip
  then show ?case by simp
next
  case (Nd l a r)
  let ?\<kappa> = "\<lambda>a. key (heap s a)"
  note L = Nd.prems(1) and D = Nd.prems(2) and A = Nd.prems(3) and N = Nd.prems(5,6,7,8)
    and R = Nd.prems(9)
  have cur: "cur = a" using Nd.prems(4) by simp
  have na: "n \<noteq> a" "n \<notin> set (ino l)" "n \<notin> set (ino r)" using N by auto
  have la: "left (heap s a) = top_of l" "right (heap s a) = top_of r" using L by simp_all
  have rootl: "set_option (root s) \<inter> set (ino l) = {}" "set_option (root s) \<inter> set (ino r) = {}"
    using R A D by (cases q; auto simp: attached_def)+
  have qs: "set_option q \<inter> set (ino (Nd l a r)) = {}" by (rule attached_set_option[OF A])
  consider (eq) "?\<kappa> n = ?\<kappa> a" | (lt) "?\<kappa> n < ?\<kappa> a" | (gt) "?\<kappa> n > ?\<kappa> a" by linarith
  then show ?case
  proof cases
    case eq
    have b: "bst_insert s cur n = Some (fst (replaceNode s a n), False)"
      using eq cur by (subst bst_insert.simps) (simp add: Let_def)
    have st: "step_ok s (fst (replaceNode s a n)) q side (Nd l a r) (Nd l n r)"
    proof (rule replaceNode_step[OF L D A N(1,2)])
      show "q \<noteq> None \<longrightarrow> root s \<noteq> Some a" using R by auto
    qed
    show ?thesis using b st eq na by (simp add: replaceNode_payload)
  next
    case lt
    show ?thesis
    proof (cases l)
      case Tip
      have b: "bst_insert s cur n =
          Some (s\<lparr>heap := set_left (heap s) a (Some n), tsize := tsize s + 1\<rparr>, True)"
        using lt cur la Tip by (subst bst_insert.simps) (simp add: Let_def)
      have st: "step_ok s (s\<lparr>heap := set_left (heap s) a (Some n), tsize := tsize s + 1\<rparr>) q side
           (Nd Tip a r) (Nd (Nd Tip n Tip) a r)"
        using L D A N Tip by (intro link_left_step) auto
      show ?thesis using b st lt Tip by simp
    next
      case (Nd ll b lr)
      have b: "bst_insert s cur n = bst_insert s b n"
        using lt cur la Nd by (subst bst_insert.simps) (simp add: Let_def)
      have "\<exists>s'. bst_insert s b n = Some (s', bst_find ?\<kappa> (?\<kappa> n) l = None)
         \<and> step_ok s s' (Some a) True l (bst_ins ?\<kappa> n l)
         \<and> tsize s' = tsize s + (if bst_find ?\<kappa> (?\<kappa> n) l = None then 1 else 0)
         \<and> tcount s' = tcount s
         \<and> (\<forall>b. payload (heap s' b) =
               (if b = n then
                  (case bst_find ?\<kappa> (?\<kappa> n) l of
                     None \<Rightarrow> payload (heap s n)
                   | Some old \<Rightarrow> (key (heap s n), val (heap s n), count (heap s old) + count (heap s n)))
                else payload (heap s b)))"
      proof (rule Nd.IH(1))
        show "linked (heap s) (Some a) l" using L by simp
        show "distinct (ino l)" using D by simp
        show "attached s (Some a) True l" by (rule attached_left[OF L D])
        show "top_of l = Some b" using Nd by simp
        show "n \<notin> set (ino l)" "Some n \<noteq> Some a" using na by auto
        show "left (heap s n) = None" "right (heap s n) = None" using N by auto
        show "Some a \<noteq> None \<longrightarrow> set_option (root s) \<inter> set (ino l) = {}" using rootl by simp
      qed
      then obtain s' where s': "bst_insert s b n = Some (s', bst_find ?\<kappa> (?\<kappa> n) l = None)"
         "step_ok s s' (Some a) True l (bst_ins ?\<kappa> n l)"
         "tsize s' = tsize s + (if bst_find ?\<kappa> (?\<kappa> n) l = None then 1 else 0)"
         "tcount s' = tcount s"
         "\<forall>b. payload (heap s' b) =
               (if b = n then
                  (case bst_find ?\<kappa> (?\<kappa> n) l of
                     None \<Rightarrow> payload (heap s n)
                   | Some old \<Rightarrow> (key (heap s n), val (heap s n), count (heap s old) + count (heap s n)))
                else payload (heap s b))" by blast
      have st: "step_ok s s' q side (Nd l a r) (Nd (bst_ins ?\<kappa> n l) a r)"
      proof (rule step_lift_left[OF L D A s'(2)])
        have "set (ino (bst_ins ?\<kappa> n l)) \<subseteq> insert n (set (ino l))" by (rule set_bst_ins)
        moreover have "a \<notin> set (ino l)" "set (ino l) \<inter> set (ino r) = {}" using D by auto
        ultimately show "set (ino (bst_ins ?\<kappa> n l)) \<inter> insert a (set (ino r)) = {}"
          using na by blast
        have "set_option q \<inter> set (ino l) = {}" "n \<notin> set_option q" using qs N by (cases q; auto)+
        then show "set_option q \<inter> set (ino (bst_ins ?\<kappa> n l)) = {}"
          using set_bst_ins[of ?\<kappa> n l] by blast
      qed
      show ?thesis using b s' st lt by (intro exI[of _ s']) simp
    qed
  next
    case gt
    show ?thesis
    proof (cases r)
      case Tip
      have b: "bst_insert s cur n =
          Some (s\<lparr>heap := set_right (heap s) a (Some n), tsize := tsize s + 1\<rparr>, True)"
        using gt cur la Tip by (subst bst_insert.simps) (simp add: Let_def)
      have st: "step_ok s (s\<lparr>heap := set_right (heap s) a (Some n), tsize := tsize s + 1\<rparr>) q side
           (Nd l a Tip) (Nd l a (Nd Tip n Tip))"
        using L D A N Tip by (intro link_right_step) auto
      show ?thesis using b st gt Tip by simp
    next
      case (Nd rl b rr)
      have b: "bst_insert s cur n = bst_insert s b n"
        using gt cur la Nd by (subst bst_insert.simps) (simp add: Let_def)
      have "\<exists>s'. bst_insert s b n = Some (s', bst_find ?\<kappa> (?\<kappa> n) r = None)
         \<and> step_ok s s' (Some a) False r (bst_ins ?\<kappa> n r)
         \<and> tsize s' = tsize s + (if bst_find ?\<kappa> (?\<kappa> n) r = None then 1 else 0)
         \<and> tcount s' = tcount s
         \<and> (\<forall>b. payload (heap s' b) =
               (if b = n then
                  (case bst_find ?\<kappa> (?\<kappa> n) r of
                     None \<Rightarrow> payload (heap s n)
                   | Some old \<Rightarrow> (key (heap s n), val (heap s n), count (heap s old) + count (heap s n)))
                else payload (heap s b)))"
      proof (rule Nd.IH(2))
        show "linked (heap s) (Some a) r" using L by simp
        show "distinct (ino r)" using D by simp
        show "attached s (Some a) False r" by (rule attached_right[OF L D])
        show "top_of r = Some b" using Nd by simp
        show "n \<notin> set (ino r)" "Some n \<noteq> Some a" using na by auto
        show "left (heap s n) = None" "right (heap s n) = None" using N by auto
        show "Some a \<noteq> None \<longrightarrow> set_option (root s) \<inter> set (ino r) = {}" using rootl by simp
      qed
      then obtain s' where s': "bst_insert s b n = Some (s', bst_find ?\<kappa> (?\<kappa> n) r = None)"
         "step_ok s s' (Some a) False r (bst_ins ?\<kappa> n r)"
         "tsize s' = tsize s + (if bst_find ?\<kappa> (?\<kappa> n) r = None then 1 else 0)"
         "tcount s' = tcount s"
         "\<forall>b. payload (heap s' b) =
               (if b = n then
                  (case bst_find ?\<kappa> (?\<kappa> n) r of
                     None \<Rightarrow> payload (heap s n)
                   | Some old \<Rightarrow> (key (heap s n), val (heap s n), count (heap s old) + count (heap s n)))
                else payload (heap s b))" by blast
      have st: "step_ok s s' q side (Nd l a r) (Nd l a (bst_ins ?\<kappa> n r))"
      proof (rule step_lift_right[OF L D A s'(2)])
        have "set (ino (bst_ins ?\<kappa> n r)) \<subseteq> insert n (set (ino r))" by (rule set_bst_ins)
        moreover have "a \<notin> set (ino r)" "set (ino l) \<inter> set (ino r) = {}" using D by auto
        ultimately show "set (ino (bst_ins ?\<kappa> n r)) \<inter> insert a (set (ino l)) = {}"
          using na by blast
        have "set_option q \<inter> set (ino r) = {}" "n \<notin> set_option q" using qs N by (cases q; auto)+
        then show "set_option q \<inter> set (ino (bst_ins ?\<kappa> n r)) = {}"
          using set_bst_ins[of ?\<kappa> n r] by blast
      qed
      show ?thesis using b s' st gt by (intro exI[of _ s']) simp
    qed
  qed
qed

subsection \<open>Search and insertion on shapes\<close>

lemma ino_shape_map [simp]: "ino (shape_map f t) = map f (ino t)"
  by (induction t) auto

lemma shape_map_id: "(\<And>a. a \<in> set (ino t) \<Longrightarrow> f a = a) \<Longrightarrow> shape_map f t = t"
  by (induction t) auto

lemma sorted_wrt_append_Cons:
  "sorted_wrt (<) (xs @ (y::int) # ys) \<longleftrightarrow>
     sorted_wrt (<) xs \<and> sorted_wrt (<) ys \<and> (\<forall>x\<in>set xs. x < y) \<and> (\<forall>z\<in>set ys. y < z)
     \<and> (\<forall>x\<in>set xs. \<forall>z\<in>set ys. x < z)"
  by (auto simp: sorted_wrt_append)

lemma bst_find_None:
  "sorted_wrt (<) (map \<kappa> (ino t)) \<Longrightarrow> bst_find \<kappa> k t = None \<longleftrightarrow> k \<notin> \<kappa> ` set (ino t)"
  by (induction t) (auto simp: sorted_wrt_append)

lemma bst_find_Some:
  "bst_find \<kappa> k t = Some old \<Longrightarrow> old \<in> set (ino t) \<and> \<kappa> old = k"
  by (induction t) (auto split: if_splits)

lemma bst_ins_found:
  "bst_find \<kappa> (\<kappa> n) t = Some old \<Longrightarrow> distinct (ino t) \<Longrightarrow>
   bst_ins \<kappa> n t = shape_map (\<lambda>x. if x = old then n else x) t"
proof (induction t)
  case Tip
  then show ?case by simp
next
  case (Nd l a r)
  have idl: "old \<notin> set (ino l) \<Longrightarrow> shape_map (\<lambda>x. if x = old then n else x) l = l"
    by (rule shape_map_id) auto
  have idr: "old \<notin> set (ino r) \<Longrightarrow> shape_map (\<lambda>x. if x = old then n else x) r = r"
    by (rule shape_map_id) auto
  consider (eq) "\<kappa> n = \<kappa> a" | (lt) "\<kappa> n < \<kappa> a" | (gt) "\<kappa> n > \<kappa> a" by linarith
  then show ?case
  proof cases
    case eq
    then have "old = a" using Nd.prems by simp
    then show ?thesis using eq Nd.prems idl idr by simp
  next
    case lt
    then have f: "bst_find \<kappa> (\<kappa> n) l = Some old" using Nd.prems by simp
    then have "old \<in> set (ino l)" by (simp add: bst_find_Some)
    then have "old \<noteq> a" "old \<notin> set (ino r)" using Nd.prems by auto
    then show ?thesis using lt Nd.IH(1)[OF f] Nd.prems idr by simp
  next
    case gt
    then have f: "bst_find \<kappa> (\<kappa> n) r = Some old" using Nd.prems by simp
    then have "old \<in> set (ino r)" by (simp add: bst_find_Some)
    then have "old \<noteq> a" "old \<notin> set (ino l)" using Nd.prems by auto
    then show ?thesis using gt Nd.IH(2)[OF f] Nd.prems idl by simp
  qed
qed

lemma bst_ins_new:
  "bst_find \<kappa> (\<kappa> n) t = None \<Longrightarrow> sorted_wrt (<) (map \<kappa> (ino t)) \<Longrightarrow>
   \<exists>pre suf. ino t = pre @ suf \<and> ino (bst_ins \<kappa> n t) = pre @ n # suf
     \<and> (\<forall>a\<in>set pre. \<kappa> a < \<kappa> n) \<and> (\<forall>a\<in>set suf. \<kappa> n < \<kappa> a)"
proof (induction t)
  case Tip
  then show ?case by simp
next
  case (Nd l a r)
  have sl: "sorted_wrt (<) (map \<kappa> (ino l))" and sr: "sorted_wrt (<) (map \<kappa> (ino r))"
    and al: "\<forall>x\<in>set (ino l). \<kappa> x < \<kappa> a" and ar: "\<forall>x\<in>set (ino r). \<kappa> a < \<kappa> x"
    using Nd.prems(2) by (auto simp: sorted_wrt_append)
  consider (eq) "\<kappa> n = \<kappa> a" | (lt) "\<kappa> n < \<kappa> a" | (gt) "\<kappa> n > \<kappa> a" by linarith
  then show ?case
  proof cases
    case eq
    then show ?thesis using Nd.prems by simp
  next
    case lt
    then have "bst_find \<kappa> (\<kappa> n) l = None" using Nd.prems by simp
    from Nd.IH(1)[OF this sl] obtain pre suf where
      p: "ino l = pre @ suf" "ino (bst_ins \<kappa> n l) = pre @ n # suf"
      "\<forall>a\<in>set pre. \<kappa> a < \<kappa> n" "\<forall>a\<in>set suf. \<kappa> n < \<kappa> a" by blast
    show ?thesis using p lt ar
      by (intro exI[of _ pre] exI[of _ "suf @ a # ino r"]) fastforce
  next
    case gt
    then have "bst_find \<kappa> (\<kappa> n) r = None" using Nd.prems by simp
    from Nd.IH(2)[OF this sr] obtain pre suf where
      p: "ino r = pre @ suf" "ino (bst_ins \<kappa> n r) = pre @ n # suf"
      "\<forall>a\<in>set pre. \<kappa> a < \<kappa> n" "\<forall>a\<in>set suf. \<kappa> n < \<kappa> a" by blast
    show ?thesis using p gt al
      by (intro exI[of _ "ino l @ a # pre"] exI[of _ suf]) fastforce
  qed
qed

subsection \<open>The base add on a tree at rest\<close>

lemma payload_key: "payload a = payload b \<Longrightarrow> key a = key b"
  by (simp add: payload_def)

lemma keys_cong:
  "(\<And>b. b \<in> set xs \<Longrightarrow> payload (h' b) = payload (h b)) \<Longrightarrow>
   map (\<lambda>a. key (h' a)) xs = map (\<lambda>a. key (h a)) xs"
  by (auto dest: payload_key)

lemma wf_tree_single:
  "left (h n) = None \<Longrightarrow> right (h n) = None \<Longrightarrow> parent (h n) = None \<Longrightarrow> root s = Some n \<Longrightarrow>
   heap s = h \<Longrightarrow> wf_tree s (Nd Tip n Tip)"
  by (auto simp: wf_tree_def)

lemma super_add_empty:
  assumes I: "bst_inv s Tip" and N: "n < fresh s" "left (heap s n) = None" "right (heap s n) = None"
  shows "\<exists>s' t'. super_add s n = Some (s', Some n) \<and> bst_inv s' t' \<and> ino t' = [n]
     \<and> fresh s' = fresh s \<and> tcount s' = tcount s \<and> tsize s' = tsize s + 1
     \<and> (\<forall>b. b \<noteq> n \<longrightarrow> heap s' b = heap s b)
     \<and> (\<forall>b. payload (heap s' b) = payload (heap s b))"
proof -
  define s1 where "s1 = (setRoot s (Some n))\<lparr>tsize := tsize s + 1\<rparr>"
  have r: "root s = None" using I by (simp add: bst_inv_def wf_tree_def)
  have h1: "heap s1 = (heap s)(n := (heap s n)\<lparr>parent := None\<rparr>)" "root s1 = Some n"
    "fresh s1 = fresh s" "tcount s1 = tcount s" "tsize s1 = tsize s + 1"
    by (simp_all add: s1_def setRoot_def Let_def)
  have W1: "wf_tree s1 (Nd Tip n Tip)"
    using N h1 by (intro wf_tree_single[of "heap s1"]) auto
  from balancePath_whole[OF W1, of n] obtain s' t' where
    s': "balancePath s1 n = Some s'" "wf_tree s' t'" "ino t' = ino (Nd Tip n Tip)"
      "\<forall>b. b \<notin> set (ino (Nd Tip n Tip)) \<longrightarrow> heap s' b = heap s1 b"
      "\<forall>b. payload (heap s' b) = payload (heap s1 b)"
      "fresh s' = fresh s1" "tsize s' = tsize s1" "tcount s' = tcount s1" by auto
  have sa: "super_add s n = Some (s', Some n)"
    using r s'(1) by (simp add: super_add_def s1_def)
  have inv: "bst_inv s' t'"
    using s'(2,3,6) N h1 by (simp add: bst_inv_def)
  have p: "\<forall>b. payload (heap s' b) = payload (heap s b)"
    using s'(5) by (simp add: h1)
  have f: "\<forall>b. b \<noteq> n \<longrightarrow> heap s' b = heap s b"
    using s'(4) by (simp add: h1)
  show ?thesis using sa inv s'(3,6,7,8) h1 p f by (intro exI[of _ s'] exI[of _ t']) simp
qed

lemma super_add_found:
  assumes I: "bst_inv s t" and N: "n \<notin> set (ino t)" "n < fresh s"
    "left (heap s n) = None" "right (heap s n) = None"
    and F: "bst_find (\<lambda>a. key (heap s a)) (key (heap s n)) t = Some old"
  shows "\<exists>s'. super_add s n = Some (s', Some n)
     \<and> bst_inv s' (shape_map (\<lambda>x. if x = old then n else x) t)
     \<and> fresh s' = fresh s \<and> tcount s' = tcount s \<and> tsize s' = tsize s
     \<and> (\<forall>b. b \<notin> set (ino t) \<longrightarrow> b \<noteq> n \<longrightarrow> heap s' b = heap s b)
     \<and> (\<forall>b. payload (heap s' b) =
           (if b = n then (key (heap s n), val (heap s n), count (heap s old) + count (heap s n))
            else payload (heap s b)))"
proof -
  let ?\<kappa> = "\<lambda>a. key (heap s a)"
  let ?f = "\<lambda>x. if x = old then n else x"
  let ?t' = "shape_map ?f t"
  have W: "linked (heap s) None t" "root s = top_of t" "distinct (ino t)"
    and S: "sorted_wrt (<) (map ?\<kappa> (ino t))" and Al: "\<forall>a\<in>set (ino t). a < fresh s"
    using I by (simp_all add: bst_inv_def wf_tree_def)
  have old: "old \<in> set (ino t)" "?\<kappa> old = ?\<kappa> n" using bst_find_Some[OF F] by simp_all
  then obtain cur where cur: "top_of t = Some cur" by (cases t) auto
  have "\<exists>s'. bst_insert s cur n = Some (s', bst_find ?\<kappa> (?\<kappa> n) t = None)
     \<and> step_ok s s' None True t (bst_ins ?\<kappa> n t)
     \<and> tsize s' = tsize s + (if bst_find ?\<kappa> (?\<kappa> n) t = None then 1 else 0)
     \<and> tcount s' = tcount s
     \<and> (\<forall>b. payload (heap s' b) =
           (if b = n then
              (case bst_find ?\<kappa> (?\<kappa> n) t of
                 None \<Rightarrow> payload (heap s n)
               | Some old \<Rightarrow> (key (heap s n), val (heap s n), count (heap s old) + count (heap s n)))
            else payload (heap s b)))"
    using W N cur by (intro bst_insert_step) (auto simp: attached_def)
  then obtain s' where s': "bst_insert s cur n = Some (s', False)"
     "step_ok s s' None True t (bst_ins ?\<kappa> n t)" "tsize s' = tsize s" "tcount s' = tcount s"
     "\<forall>b. payload (heap s' b) =
           (if b = n then (key (heap s n), val (heap s n), count (heap s old) + count (heap s n))
            else payload (heap s b))"
    using F by auto
  have t': "bst_ins ?\<kappa> n t = ?t'" by (rule bst_ins_found[OF F W(3)])
  have sa: "super_add s n = Some (s', Some n)"
    using W(2) cur s'(1) by (simp add: super_add_def)
  have inj: "inj_on ?f (set (ino t))" using N(1) by (auto simp: inj_on_def)
  have d': "distinct (ino ?t')" using W(3) inj by (simp add: distinct_map)
  have st: "linked (heap s') None ?t'" "root s' = top_of ?t'" "fresh s' = fresh s"
    "\<forall>b. b \<notin> set (ino t) \<longrightarrow> b \<notin> set (ino ?t') \<longrightarrow> heap s' b = heap s b"
    using s'(2) unfolding t' by (simp_all add: step_ok_def)
  have k': "map (\<lambda>a. key (heap s' a)) (ino ?t') = map ?\<kappa> (ino t)"
  proof -
    have "\<And>x. x \<in> set (ino t) \<Longrightarrow> key (heap s' (?f x)) = ?\<kappa> x"
    proof -
      fix x assume x: "x \<in> set (ino t)"
      show "key (heap s' (?f x)) = ?\<kappa> x"
      proof (cases "x = old")
        case True
        have "payload (heap s' n) = (key (heap s n), val (heap s n), count (heap s old) + count (heap s n))"
          using s'(5) by simp
        then show ?thesis using True old by (simp add: payload_def)
      next
        case False
        then have "x \<noteq> n" using x N by auto
        then have "payload (heap s' x) = payload (heap s x)" using s'(5) by simp
        then show ?thesis using False by (simp add: payload_def)
      qed
    qed
    then show ?thesis by (simp add: comp_def)
  qed
  have al': "\<forall>a\<in>set (ino ?t'). a < fresh s'" using Al N st(3) by auto
  have so': "sorted_wrt (<) (map (\<lambda>a. key (heap s' a)) (ino ?t'))"
    unfolding k' by (rule S)
  have inv: "bst_inv s' ?t'"
    unfolding bst_inv_def wf_tree_def by (intro conjI st(1,2) d' so' al')
  have fr: "\<forall>b. b \<notin> set (ino t) \<longrightarrow> b \<noteq> n \<longrightarrow> heap s' b = heap s b"
    using st(4) by auto
  show ?thesis using sa inv st(3) s'(3,4,5) fr by (intro exI[of _ s']) simp
qed

lemma super_add_new:
  assumes I: "bst_inv s t" and N: "n \<notin> set (ino t)" "n < fresh s"
    "left (heap s n) = None" "right (heap s n) = None"
    and F: "bst_find (\<lambda>a. key (heap s a)) (key (heap s n)) t = None"
  shows "\<exists>s' t'. super_add s n = Some (s', Some n) \<and> bst_inv s' t'
     \<and> (\<exists>pre suf. ino t = pre @ suf \<and> ino t' = pre @ n # suf)
     \<and> fresh s' = fresh s \<and> tcount s' = tcount s \<and> tsize s' = tsize s + 1
     \<and> (\<forall>b. b \<notin> set (ino t) \<longrightarrow> b \<noteq> n \<longrightarrow> heap s' b = heap s b)
     \<and> (\<forall>b. payload (heap s' b) = payload (heap s b))"
proof (cases t)
  case Tip
  from super_add_empty[OF I[unfolded Tip] N(2,3,4)] show ?thesis
    unfolding Tip by (elim exE conjE, intro exI conjI) (assumption | simp)+
next
  case (Nd l cur r)
  let ?\<kappa> = "\<lambda>a. key (heap s a)"
  let ?t1 = "bst_ins ?\<kappa> n t"
  have W: "linked (heap s) None t" "root s = top_of t" "distinct (ino t)"
    and S: "sorted_wrt (<) (map ?\<kappa> (ino t))" and Al: "\<forall>a\<in>set (ino t). a < fresh s"
    using I by (simp_all add: bst_inv_def wf_tree_def)
  have cur: "top_of t = Some cur" using Nd by simp
  have "\<exists>s'. bst_insert s cur n = Some (s', bst_find ?\<kappa> (?\<kappa> n) t = None)
     \<and> step_ok s s' None True t (bst_ins ?\<kappa> n t)
     \<and> tsize s' = tsize s + (if bst_find ?\<kappa> (?\<kappa> n) t = None then 1 else 0)
     \<and> tcount s' = tcount s
     \<and> (\<forall>b. payload (heap s' b) =
           (if b = n then
              (case bst_find ?\<kappa> (?\<kappa> n) t of
                 None \<Rightarrow> payload (heap s n)
               | Some old \<Rightarrow> (key (heap s n), val (heap s n), count (heap s old) + count (heap s n)))
            else payload (heap s b)))"
    using W N cur by (intro bst_insert_step) (auto simp: attached_def)
  then obtain s1 where s1: "bst_insert s cur n = Some (s1, True)"
     "step_ok s s1 None True t ?t1" "tsize s1 = tsize s + 1" "tcount s1 = tcount s"
     "\<forall>b. payload (heap s1 b) = payload (heap s b)"
    using F by auto
  from bst_ins_new[OF F S] obtain pre suf where
    ps: "ino t = pre @ suf" "ino ?t1 = pre @ n # suf"
      "\<forall>a\<in>set pre. ?\<kappa> a < ?\<kappa> n" "\<forall>a\<in>set suf. ?\<kappa> n < ?\<kappa> a" by blast
  have d1: "distinct (ino ?t1)" using W(3) N(1) ps by auto
  have st: "linked (heap s1) None ?t1" "root s1 = top_of ?t1" "fresh s1 = fresh s"
    "\<forall>b. b \<notin> set (ino t) \<longrightarrow> b \<notin> set (ino ?t1) \<longrightarrow> heap s1 b = heap s b"
    using s1(2) by (simp_all add: step_ok_def)
  have W1: "wf_tree s1 ?t1" using st d1 by (simp add: wf_tree_def)
  have n1: "n \<in> set (ino ?t1)" using ps by simp
  from balancePath_whole[OF W1 n1] obtain s' t' where
    s': "balancePath s1 n = Some s'" "wf_tree s' t'" "ino t' = ino ?t1"
      "\<forall>b. b \<notin> set (ino ?t1) \<longrightarrow> heap s' b = heap s1 b"
      "\<forall>b. payload (heap s' b) = payload (heap s1 b)"
      "fresh s' = fresh s1" "tsize s' = tsize s1" "tcount s' = tcount s1" by auto
  have sa: "super_add s n = Some (s', Some n)"
    using W(2) cur s1(1) s'(1) by (simp add: super_add_def)
  have p: "\<forall>b. payload (heap s' b) = payload (heap s b)" using s'(5) s1(5) by simp
  have k: "map (\<lambda>a. key (heap s' a)) (ino t') = map ?\<kappa> (ino t')"
    using p by (intro keys_cong) simp
  have so: "sorted_wrt (<) (map ?\<kappa> (pre @ n # suf))"
    using S ps by (auto simp: sorted_wrt_append)
  have "map (\<lambda>a. key (heap s' a)) (ino t') = map ?\<kappa> (pre @ n # suf)"
    using k s'(3) ps(2) by simp
  then have so': "sorted_wrt (<) (map (\<lambda>a. key (heap s' a)) (ino t'))"
    using so by (simp only:)
  have al': "\<forall>a\<in>set (ino t'). a < fresh s'"
    using s'(3,6) st(3) ps(1,2) Al N(2) by auto
  have inv: "bst_inv s' t'"
    unfolding bst_inv_def by (intro conjI s'(2) so' al')
  have fr: "\<forall>b. b \<notin> set (ino t) \<longrightarrow> b \<noteq> n \<longrightarrow> heap s' b = heap s b"
    using s'(4) st(4) ps by auto
  show ?thesis
    using sa inv ps(1,2) s'(3,6,7,8) st(3) s1(3,4) fr p
    by (intro exI[of _ s'] exI[of _ t']) auto
qed

subsection \<open>add with a key\<close>

lemma bst_inv_createNode:
  assumes "bst_inv s t"
  shows "bst_inv (fst (createNode s k v c)) t"
proof -
  have n: "fresh s \<notin> set (ino t)" using assms by (auto simp: bst_inv_def)
  have "\<And>a. a \<in> set (ino t) \<Longrightarrow> ((heap s)(fresh s := new_node k v c)) a = heap s a"
    using n by auto
  then have m: "map (\<lambda>a. key (((heap s)(fresh s := new_node k v c)) a)) (ino t)
      = map (\<lambda>a. key (heap s a)) (ino t)" by (intro map_cong) auto
  show ?thesis
    using assms n unfolding bst_inv_def wf_tree_def createNode_def
    by (auto simp: m simp del: fun_upd_apply)
qed

lemma add_node_def2:
  "add_node s n = map_option (\<lambda>(s1, inserted).
      (if inserted \<noteq> None then s1\<lparr>tcount := tcount s1 + count (heap s n)\<rparr> else s1, inserted))
     (super_add s n)"
  by (cases "super_add s n") (auto simp: add_node_def Let_def)

lemma bst_inv_tcount [simp]: "bst_inv (s\<lparr>tcount := c\<rparr>) t = bst_inv s t"
  by (simp add: bst_inv_def wf_tree_def)

text \<open>adding a node that is not in the tree and has no children\<close>

lemma add_node_new:
  assumes I: "bst_inv s t" and N: "n \<notin> set (ino t)" "n < fresh s"
    "left (heap s n) = None" "right (heap s n) = None"
    and F: "bst_find (\<lambda>a. key (heap s a)) (key (heap s n)) t = None"
  shows "\<exists>s' t'. add_node s n = Some (s', Some n) \<and> bst_inv s' t'
     \<and> (\<exists>pre suf. ino t = pre @ suf \<and> ino t' = pre @ n # suf)
     \<and> fresh s' = fresh s \<and> tcount s' = tcount s + count (heap s n) \<and> tsize s' = tsize s + 1
     \<and> (\<forall>b. b \<notin> set (ino t) \<longrightarrow> b \<noteq> n \<longrightarrow> heap s' b = heap s b)
     \<and> (\<forall>b. payload (heap s' b) = payload (heap s b))"
proof -
  from super_add_new[OF I N F] obtain s1 t' where
    s1: "super_add s n = Some (s1, Some n)" "bst_inv s1 t'"
      "\<exists>pre suf. ino t = pre @ suf \<and> ino t' = pre @ n # suf"
      "fresh s1 = fresh s" "tcount s1 = tcount s" "tsize s1 = tsize s + 1"
      "\<forall>b. b \<notin> set (ino t) \<longrightarrow> b \<noteq> n \<longrightarrow> heap s1 b = heap s b"
      "\<forall>b. payload (heap s1 b) = payload (heap s b)" by blast
  show ?thesis
    using s1
    by (intro exI[of _ "s1\<lparr>tcount := tcount s1 + count (heap s n)\<rparr>"] exI[of _ t'])
       (simp add: add_node_def2)
qed

lemma add_node_found:
  assumes I: "bst_inv s t" and N: "n \<notin> set (ino t)" "n < fresh s"
    "left (heap s n) = None" "right (heap s n) = None"
    and F: "bst_find (\<lambda>a. key (heap s a)) (key (heap s n)) t = Some old"
  shows "\<exists>s'. add_node s n = Some (s', Some n)
     \<and> bst_inv s' (shape_map (\<lambda>x. if x = old then n else x) t)
     \<and> fresh s' = fresh s \<and> tcount s' = tcount s + count (heap s n) \<and> tsize s' = tsize s
     \<and> (\<forall>b. b \<notin> set (ino t) \<longrightarrow> b \<noteq> n \<longrightarrow> heap s' b = heap s b)
     \<and> (\<forall>b. payload (heap s' b) =
           (if b = n then (key (heap s n), val (heap s n), count (heap s old) + count (heap s n))
            else payload (heap s b)))"
proof -
  from super_add_found[OF I N F] obtain s1 where
    s1: "super_add s n = Some (s1, Some n)"
      "bst_inv s1 (shape_map (\<lambda>x. if x = old then n else x) t)"
      "fresh s1 = fresh s" "tcount s1 = tcount s" "tsize s1 = tsize s"
      "\<forall>b. b \<notin> set (ino t) \<longrightarrow> b \<noteq> n \<longrightarrow> heap s1 b = heap s b"
      "\<forall>b. payload (heap s1 b) =
           (if b = n then (key (heap s n), val (heap s n), count (heap s old) + count (heap s n))
            else payload (heap s b))" by blast
  show ?thesis
    using s1
    by (intro exI[of _ "s1\<lparr>tcount := tcount s1 + count (heap s n)\<rparr>"])
       (simp add: add_node_def2)
qed

text \<open>adding a key\<close>

lemma createNode_facts:
  "createNode s k v c = (s1, n) \<Longrightarrow>
     n = fresh s \<and> fresh s1 = Suc (fresh s) \<and> heap s1 = (heap s)(fresh s := new_node k v c)
     \<and> tsize s1 = tsize s \<and> tcount s1 = tcount s \<and> root s1 = root s"
  by (auto simp: createNode_def)

lemma add_Entry_def2:
  "add s (Entry (Some k) v) c = add_node (fst (createNode s k v c)) (fresh s)"
  by (simp add: add_def createNode_def)

lemma add_KeyOnly_def2: "add s (KeyOnly k) c = add s (Entry (Some k) None) c"
  by (simp add: add_def)

lemma bst_find_cong:
  "(\<And>a. a \<in> set (ino t) \<Longrightarrow> \<kappa>' a = \<kappa> a) \<Longrightarrow> bst_find \<kappa>' k t = bst_find \<kappa> k t"
  by (induction t) auto

lemma add_key_new:
  assumes I: "bst_inv s t" and F: "k \<notin> (\<lambda>a. key (heap s a)) ` set (ino t)"
  shows "\<exists>s' t'. add s (Entry (Some k) v) c = Some (s', Some (fresh s)) \<and> bst_inv s' t'
     \<and> (\<exists>pre suf. ino t = pre @ suf \<and> ino t' = pre @ fresh s # suf)
     \<and> fresh s' = Suc (fresh s) \<and> tcount s' = tcount s + c \<and> tsize s' = tsize s + 1
     \<and> (\<forall>b. b \<notin> set (ino t) \<longrightarrow> b \<noteq> fresh s \<longrightarrow> heap s' b = heap s b)
     \<and> (\<forall>b. payload (heap s' b) = (if b = fresh s then (k, v, c) else payload (heap s b)))"
proof -
  define s1 where "s1 = fst (createNode s k v c)"
  define n where "n = fresh s"
  have c: "fresh s1 = Suc (fresh s)" "heap s1 = (heap s)(n := new_node k v c)"
    "tsize s1 = tsize s" "tcount s1 = tcount s"
    by (simp_all add: s1_def n_def createNode_def)
  have I1: "bst_inv s1 t" unfolding s1_def by (rule bst_inv_createNode[OF I])
  have nt: "n \<notin> set (ino t)" using I by (auto simp: bst_inv_def n_def)
  have N: "n < fresh s1" "left (heap s1 n) = None" "right (heap s1 n) = None"
    "key (heap s1 n) = k" "count (heap s1 n) = c" "val (heap s1 n) = v"
    by (simp_all add: c n_def new_node_def)
  have S: "sorted_wrt (<) (map (\<lambda>a. key (heap s a)) (ino t))" using I by (simp add: bst_inv_def)
  have "bst_find (\<lambda>a. key (heap s1 a)) k t = bst_find (\<lambda>a. key (heap s a)) k t"
    using nt by (intro bst_find_cong) (auto simp: c)
  then have F1: "bst_find (\<lambda>a. key (heap s1 a)) (key (heap s1 n)) t = None"
    using F bst_find_None[OF S, of k] N by simp
  from add_node_new[OF I1 nt N(1,2,3) F1] obtain s' t' where
    s': "add_node s1 n = Some (s', Some n)" "bst_inv s' t'"
      "\<exists>pre suf. ino t = pre @ suf \<and> ino t' = pre @ n # suf"
      "fresh s' = fresh s1" "tcount s' = tcount s1 + count (heap s1 n)" "tsize s' = tsize s1 + 1"
      "\<forall>b. b \<notin> set (ino t) \<longrightarrow> b \<noteq> n \<longrightarrow> heap s' b = heap s1 b"
      "\<forall>b. payload (heap s' b) = payload (heap s1 b)" by blast
  have p: "\<forall>b. payload (heap s' b) = (if b = n then (k, v, c) else payload (heap s b))"
    using s'(8) by (simp add: c payload_def new_node_def)
  have f: "\<forall>b. b \<notin> set (ino t) \<longrightarrow> b \<noteq> n \<longrightarrow> heap s' b = heap s b"
    using s'(7) by (simp add: c)
  show ?thesis
    unfolding add_Entry_def2 s1_def[symmetric]
    using s'(1,2,3,4,5,6) c(1,3,4) N(5) p f unfolding n_def
    by (intro exI[of _ s'] exI[of _ t']) simp
qed

lemma add_key_found:
  assumes I: "bst_inv s t" and O: "old \<in> set (ino t)" "key (heap s old) = k"
  shows "\<exists>s'. add s (Entry (Some k) v) c = Some (s', Some (fresh s))
     \<and> bst_inv s' (shape_map (\<lambda>x. if x = old then fresh s else x) t)
     \<and> fresh s' = Suc (fresh s) \<and> tcount s' = tcount s + c \<and> tsize s' = tsize s
     \<and> (\<forall>b. b \<notin> set (ino t) \<longrightarrow> b \<noteq> fresh s \<longrightarrow> heap s' b = heap s b)
     \<and> (\<forall>b. payload (heap s' b) =
           (if b = fresh s then (k, v, count (heap s old) + c) else payload (heap s b)))"
proof -
  define s1 where "s1 = fst (createNode s k v c)"
  define n where "n = fresh s"
  have c: "fresh s1 = Suc (fresh s)" "heap s1 = (heap s)(n := new_node k v c)"
    "tsize s1 = tsize s" "tcount s1 = tcount s"
    by (simp_all add: s1_def n_def createNode_def)
  have I1: "bst_inv s1 t" unfolding s1_def by (rule bst_inv_createNode[OF I])
  have nt: "n \<notin> set (ino t)" using I by (auto simp: bst_inv_def n_def)
  have N: "n < fresh s1" "left (heap s1 n) = None" "right (heap s1 n) = None"
    "key (heap s1 n) = k" "count (heap s1 n) = c" "val (heap s1 n) = v"
    by (simp_all add: c n_def new_node_def)
  have S: "sorted_wrt (<) (map (\<lambda>a. key (heap s a)) (ino t))" using I by (simp add: bst_inv_def)
  have e: "bst_find (\<lambda>a. key (heap s1 a)) k t = bst_find (\<lambda>a. key (heap s a)) k t"
    using nt by (intro bst_find_cong) (auto simp: c)
  have "bst_find (\<lambda>a. key (heap s a)) k t \<noteq> None"
    using bst_find_None[OF S, of k] O by auto
  then obtain old' where o': "bst_find (\<lambda>a. key (heap s a)) k t = Some old'" by auto
  have "old' \<in> set (ino t)" "key (heap s old') = k" using bst_find_Some[OF o'] by simp_all
  moreover have "inj_on (\<lambda>a. key (heap s a)) (set (ino t))"
    using S by (metis (no_types, lifting) distinct_map strict_sorted_iff sorted_wrt_map)
  ultimately have "old' = old" using O by (auto simp: inj_on_def)
  then have F1: "bst_find (\<lambda>a. key (heap s1 a)) (key (heap s1 n)) t = Some old"
    using e o' N by simp
  have on: "old \<noteq> n" using O nt by auto
  from add_node_found[OF I1 nt N(1,2,3) F1] obtain s' where
    s': "add_node s1 n = Some (s', Some n)"
      "bst_inv s' (shape_map (\<lambda>x. if x = old then n else x) t)"
      "fresh s' = fresh s1" "tcount s' = tcount s1 + count (heap s1 n)" "tsize s' = tsize s1"
      "\<forall>b. b \<notin> set (ino t) \<longrightarrow> b \<noteq> n \<longrightarrow> heap s' b = heap s1 b"
      "\<forall>b. payload (heap s' b) =
           (if b = n then (key (heap s1 n), val (heap s1 n), count (heap s1 old) + count (heap s1 n))
            else payload (heap s1 b))" by blast
  have p: "\<forall>b. payload (heap s' b) =
           (if b = n then (k, v, count (heap s old) + c) else payload (heap s b))"
    using s'(7) on by (simp add: c payload_def new_node_def)
  have f: "\<forall>b. b \<notin> set (ino t) \<longrightarrow> b \<noteq> n \<longrightarrow> heap s' b = heap s b"
    using s'(6) by (simp add: c)
  show ?thesis
    unfolding add_Entry_def2 s1_def[symmetric]
    using s'(1,2,3,4,5) c(1,3,4) N(5) p f unfolding n_def
    by (intro exI[of _ s']) simp
qed

subsection \<open>Splicing out a node\<close>

lemma set_splice: "set (ino (splice u)) \<subseteq> set (ino u)"
  by (cases u) auto

text \<open>splicing out a node that has a parent and at most one child\<close>

lemma splice_step:
  assumes L: "linked (heap s) (Some p) (Nd l x r)" and D: "distinct (ino (Nd l x r))"
    and A: "attached s (Some p) side (Nd l x r)"
    and C: "l = Tip \<or> r = Tip"
    and H: "heap s' = (if side then set_left (heap s) p (top_of (splice (Nd l x r)))
                      else set_right (heap s) p (top_of (splice (Nd l x r))))"
      "root s' = root s" "fresh s' = fresh s"
  shows "step_ok s s' (Some p) side (Nd l x r) (splice (Nd l x r))"
proof -
  let ?c = "splice (Nd l x r)"
  have px: "p \<noteq> x" "p \<notin> set (ino l)" "p \<notin> set (ino r)" using A by (auto simp: attached_def)
  have c: "?c = l \<or> ?c = r" by simp
  have Lc: "linked (heap s) (Some x) ?c" using L by auto
  have Dc: "distinct (ino ?c)" "p \<notin> set (ino ?c)" "x \<notin> set (ino ?c)" using D px by auto
  have lk: "linked (heap s') (Some p) ?c"
    unfolding H(1) using Lc Dc by (auto intro: linked_set_left linked_set_right)
  have tc: "top_of ?c \<noteq> Some p" using Dc(2) set_option_top_of[of ?c] by auto
  have fr: "\<And>b. b \<notin> set (ino (Nd l x r)) \<Longrightarrow> b \<notin> set (ino ?c) \<Longrightarrow> Some b \<noteq> Some p \<Longrightarrow> heap s' b = heap s b"
  proof -
    fix b assume b: "b \<notin> set (ino (Nd l x r))" "b \<notin> set (ino ?c)" "Some b \<noteq> Some p"
    then have "top_of ?c \<noteq> Some b" using set_option_top_of[of ?c] by auto
    then show "heap s' b = heap s b" using b(3) by (simp add: H(1) set_left_other set_right_other)
  qed
  have fq: "heap s' p = (if side then (heap s p)\<lparr>left := top_of ?c\<rparr> else (heap s p)\<lparr>right := top_of ?c\<rparr>)"
    using tc by (simp add: H(1) set_left_at set_right_at)
  show ?thesis unfolding step_ok_def using lk fr fq H(2,3) by simp
qed

lemma getRightMost_linked:
  "linked h q t \<Longrightarrow> top_of t = Some a \<Longrightarrow>
   getRightMost h a = Some (last (ino t)) \<and> right (h (last (ino t))) = None"
proof (induction t arbitrary: q a)
  case Tip
  then show ?case by simp
next
  case (Nd l b r)
  then have [simp]: "b = a" by simp
  show ?case
  proof (cases r)
    case Tip
    then show ?thesis using Nd.prems by (subst getRightMost.simps) simp
  next
    case (Nd rl c rr)
    have "getRightMost h c = Some (last (ino r)) \<and> right (h (last (ino r))) = None"
      using Nd.prems(1) Nd by (intro Nd.IH(2)[of "Some a"]) auto
    moreover have "getRightMost h a = getRightMost h c"
      using Nd.prems(1) Nd by (subst getRightMost.simps) simp
    ultimately show ?thesis using Nd by simp
  qed
qed

lemma ino_at_node_splice:
  "linked h q t \<Longrightarrow> distinct (ino t) \<Longrightarrow> x \<in> set (ino t) \<Longrightarrow>
   left (h x) = None \<or> right (h x) = None \<Longrightarrow>
   ino (at_node x splice t) = remove1 x (ino t)"
proof (induction t arbitrary: q)
  case Tip
  then show ?case by simp
next
  case (Nd l a r)
  show ?case
  proof (cases "a = x")
    case True
    have "l = Tip \<or> r = Tip" using Nd.prems(1,4) True by auto
    then show ?thesis using True Nd.prems(2) by (auto simp: remove1_append)
  next
    case False
    show ?thesis
    proof (cases "x \<in> set (ino l)")
      case True
      then have "ino (at_node x splice l) = remove1 x (ino l)"
        using Nd.prems by (intro Nd.IH(1)[of "Some a"]) auto
      then show ?thesis using False True by (simp add: remove1_append)
    next
      case xl: False
      then have xr: "x \<in> set (ino r)" using Nd.prems(3) False by auto
      then have "ino (at_node x splice r) = remove1 x (ino r)"
        using Nd.prems by (intro Nd.IH(2)[of "Some a"]) auto
      then show ?thesis using False xl by (simp add: remove1_append)
    qed
  qed
qed

text \<open>the in-order predecessor of a node with a left child stands right before it\<close>

lemma pred_adjacent:
  "linked h q t \<Longrightarrow> distinct (ino t) \<Longrightarrow> x \<in> set (ino t) \<Longrightarrow> left (h x) = Some lc \<Longrightarrow>
   \<exists>m A B. getRightMost h lc = Some m \<and> ino t = A @ m # x # B \<and> right (h m) = None
      \<and> parent (h m) \<noteq> None"
proof (induction t arbitrary: q)
  case Tip
  then show ?case by simp
next
  case (Nd l a r)
  show ?case
  proof (cases "a = x")
    case True
    have tl: "top_of l = Some lc" "linked h (Some a) l" using Nd.prems(1,4) True by auto
    then have ne: "ino l \<noteq> []" by (cases l) auto
    from getRightMost_linked[OF tl(2,1)]
    have g: "getRightMost h lc = Some (last (ino l))" "right (h (last (ino l))) = None" by simp_all
    have "last (ino l) \<in> set (ino l)" using ne by simp
    then have "parent (h (last (ino l))) \<noteq> None"
      using tl(2)
    proof (induction l arbitrary: a)
      case Tip
      then show ?case by simp
    next
      case (Nd l1 b l2)
      then show ?case by (cases l2) auto
    qed
    moreover have "ino (Nd l a r) = butlast (ino l) @ last (ino l) # x # ino r"
      using ne True by simp
    ultimately show ?thesis using g by blast
  next
    case False
    show ?thesis
    proof (cases "x \<in> set (ino l)")
      case True
      from Nd.IH(1)[of "Some a"] Nd.prems True obtain m A B where
        "getRightMost h lc = Some m" "ino l = A @ m # x # B" "right (h m) = None" "parent (h m) \<noteq> None"
        by auto
      then show ?thesis by (intro exI[of _ m] exI[of _ A] exI[of _ "B @ a # ino r"]) simp
    next
      case xl: False
      then have xr: "x \<in> set (ino r)" using Nd.prems(3) False by auto
      from Nd.IH(2)[of "Some a"] Nd.prems xr obtain m A B where
        "getRightMost h lc = Some m" "ino r = A @ m # x # B" "right (h m) = None" "parent (h m) \<noteq> None"
        by auto
      then show ?thesis by (intro exI[of _ m] exI[of _ "ino l @ a # A"] exI[of _ B]) simp
    qed
  qed
qed

subsection \<open>delete: the node without a left child\<close>

lemma top_None2 [simp]: "None = top_of t \<longleftrightarrow> t = Tip"
  by (cases t) auto

lemma parent_in_tree:
  "linked h q t \<Longrightarrow> distinct (ino t) \<Longrightarrow> x \<in> set (ino t) \<Longrightarrow>
   (top_of t = Some x \<and> parent (h x) = q)
   \<or> (top_of t \<noteq> Some x \<and> (\<exists>y\<in>set (ino t). y \<noteq> x \<and> parent (h x) = Some y))"
proof (induction t arbitrary: q)
  case Tip
  then show ?case by simp
next
  case (Nd l a r)
  show ?case
  proof (cases "a = x")
    case True
    then show ?thesis using Nd.prems by simp
  next
    case False
    consider "x \<in> set (ino l)" | "x \<in> set (ino r)" using Nd.prems(3) False by auto
    then show ?thesis
    proof cases
      case 1
      from Nd.IH(1)[of "Some a"] Nd.prems 1 False
      have "(top_of l = Some x \<and> parent (h x) = Some a)
        \<or> (top_of l \<noteq> Some x \<and> (\<exists>y\<in>set (ino l). y \<noteq> x \<and> parent (h x) = Some y))" by auto
      then show ?thesis using False by auto
    next
      case 2
      from Nd.IH(2)[of "Some a"] Nd.prems 2 False
      have "(top_of r = Some x \<and> parent (h x) = Some a)
        \<or> (top_of r \<noteq> Some x \<and> (\<exists>y\<in>set (ino r). y \<noteq> x \<and> parent (h x) = Some y))" by auto
      then show ?thesis using False by auto
    qed
  qed
qed

lemma swapProperties_facts:
  assumes "swapProperties h a b = (h', oc)"
  shows "oc = Some b" "\<And>c. links (h' c) = links (h c)"
    "payload (h' a) = payload (h b)" "payload (h' b) = payload (h a)"
    "\<And>c. c \<noteq> a \<Longrightarrow> c \<noteq> b \<Longrightarrow> h' c = h c"
  using assms
  by (auto simp: swapProperties_def Let_def links_def payload_def new_node_def)

lemma familyPosition_left:
  "parent (h a) = Some p \<Longrightarrow>
   (familyPosition h a = LEFT \<or> familyPosition h a = ROOT_LEFT) = (left (h p) = Some a)"
  by (auto simp: familyPosition_def Let_def)

lemma familyPosition_right:
  "parent (h a) = Some p \<Longrightarrow>
   (familyPosition h a = RIGHT \<or> familyPosition h a = ROOT_RIGHT)
     = (left (h p) \<noteq> Some a \<and> right (h p) = Some a)"
  by (auto simp: familyPosition_def Let_def)

lemma sorted_wrt_remove1: "sorted_wrt P xs \<Longrightarrow> sorted_wrt P (remove1 x xs)"
  by (induction xs) (auto dest: notin_set_remove1)

text \<open>What the structural branch of delete does to a well-formed tree: the shape stays
  well-formed, and the keys of the in-order walk stay in order.\<close>

lemma delete_unlink_noleft:
  assumes W: "wf_tree s t" and X: "cur \<in> set (ino t)" and NL: "left (heap s cur) = None"
  shows "\<exists>s1 nb t'. delete_unlink s cur = Some (s1, Some cur, nb) \<and> wf_tree s1 t'
     \<and> fresh s1 = fresh s \<and> tsize s1 = tsize s \<and> tcount s1 = tcount s
     \<and> (\<forall>p. nb = Some p \<longrightarrow> p \<in> set (ino t'))
     \<and> (ino t' = remove1 cur (ino t) \<or> (t' = t \<and> s1 = s \<and> t = Nd Tip cur Tip))
     \<and> (\<forall>b. payload (heap s1 b) = payload (heap s b))
     \<and> (\<forall>b. b \<notin> set (ino t) \<longrightarrow> heap s1 b = heap s b)"
proof -
  have L: "linked (heap s) None t" and R: "root s = top_of t" and D: "distinct (ino t)"
    using W by (simp_all add: wf_tree_def)
  show ?thesis
  proof (cases "parent (heap s cur)")
    case None
    then have "top_of t = Some cur" using parent_in_tree[OF L D X] by auto
    then obtain l r where t: "t = Nd l cur r" by (cases t) auto
    then have l: "l = Tip" using L NL by simp
    show ?thesis
    proof (cases r)
      case Tip
      have "delete_unlink s cur = Some (s, Some cur, None)"
        using NL None L t l Tip by (simp add: delete_unlink_def Let_def)
      then show ?thesis using W t l Tip by (intro exI[of _ s] exI[of _ None] exI[of _ t]) simp
    next
      case (Nd rl c rr)
      let ?s1 = "setRoot s (Some c)"
      have rc: "right (heap s cur) = Some c" using L t Nd by simp
      have du: "delete_unlink s cur = Some (?s1, Some cur, None)"
        using NL None rc by (simp add: delete_unlink_def Let_def)
      have h1: "heap ?s1 = (heap s)(c := (heap s c)\<lparr>parent := None\<rparr>)" "root ?s1 = Some c"
        "fresh ?s1 = fresh s" "tsize ?s1 = tsize s" "tcount ?s1 = tcount s"
        by (simp_all add: setRoot_def Let_def)
      have "linked (heap ?s1) None r"
        unfolding h1 using L D t Nd by (intro linked_set_parent[of _ "Some cur"]) auto
      then have W1: "wf_tree ?s1 r" using D t h1 Nd by (simp add: wf_tree_def)
      have i: "ino r = remove1 cur (ino t)" using t l by simp
      have p: "\<forall>b. payload (heap ?s1 b) = payload (heap s b)" by (simp add: h1)
      have f: "\<forall>b. b \<notin> set (ino t) \<longrightarrow> heap ?s1 b = heap s b" using t Nd by (auto simp: h1)
      show ?thesis using du W1 i h1 p f by (intro exI[of _ ?s1] exI[of _ None] exI[of _ r]) simp
    qed
  next
    case (Some p)
    define h' where "h' = (if left (heap s p) = Some cur then set_left (heap s) p (right (heap s cur))
        else if right (heap s p) = Some cur then set_right (heap s) p (right (heap s cur))
        else heap s)"
    define s1 where "s1 = s\<lparr>heap := h'\<rparr>"
    have du: "delete_unlink s cur = Some (s1, Some cur, Some p)"
      using NL Some familyPosition_left[of "heap s" cur p] familyPosition_right[of "heap s" cur p]
      by (auto simp add: delete_unlink_def Let_def s1_def h'_def)
    have pt: "p \<in> set (ino t)" "p \<noteq> cur" using parent_in_tree[OF L D X] Some R by auto
    have S: "step_ok s s1 None True t (at_node cur splice t)"
    proof (rule step_lift[where N = "set (ino t)" and F = "{}"])
      show "linked (heap s) None t" "distinct (ino t)" "cur \<in> set (ino t)" by (rule L D X)+
      show "attached s None True t" using R by (simp add: attached_def)
      fix q side u
      assume u: "top_of u = Some cur" "linked (heap s) q u" "distinct (ino u)" "attached s q side u"
        "parent (heap s cur) = q"
      then obtain l r where ue: "u = Nd l cur r" by (cases u) auto
      have l: "l = Tip" using u(2) ue NL by simp
      have q: "q = Some p" using u(5) Some by simp
      have tr: "top_of (splice u) = right (heap s cur)" using u(2) ue l by simp
      have sd: "(left (heap s p) = Some cur) = side" using attached_side[of s p side u cur] u(1,4) q by simp
      have rs: "\<not> side \<Longrightarrow> right (heap s p) = Some cur" using u(1,4) q by (simp add: attached_def)
      have "heap s1 = (if side then set_left (heap s) p (top_of (splice (Nd l cur r)))
                      else set_right (heap s) p (top_of (splice (Nd l cur r))))"
        using sd rs tr ue by (auto simp: s1_def h'_def)
      then show "step_ok s s1 q side u (splice u)"
        unfolding q ue using u(2,3,4) l q ue by (intro splice_step) (simp_all add: s1_def)
    qed (auto simp: set_splice[THEN subsetD])
    have i: "ino (at_node cur splice t) = remove1 cur (ino t)"
      using NL by (intro ino_at_node_splice[OF L D X]) simp
    have W1: "wf_tree s1 (at_node cur splice t)"
      using S D by (simp add: step_ok_def wf_tree_def i)
    have p: "\<forall>b. payload (heap s1 b) = payload (heap s b)" by (simp add: s1_def h'_def)
    have f: "\<forall>b. b \<notin> set (ino t) \<longrightarrow> heap s1 b = heap s b"
      using S by (auto simp: step_ok_def i dest: notin_set_remove1)
    have pi: "p \<in> set (ino (at_node cur splice t))" using pt by (simp add: i)
    show ?thesis using du W1 i p f pi S
      by (intro exI[of _ s1] exI[of _ "Some p"] exI[of _ "at_node cur splice t"])
         (simp add: s1_def step_ok_def)
  qed
qed

subsection \<open>delete: the node with a left child\<close>

lemma delete_unlink_left:
  assumes W: "wf_tree s t" and X: "cur \<in> set (ino t)" and HL: "left (heap s cur) = Some lc"
    and S: "sorted_wrt (<) (map (\<lambda>a. key (heap s a)) (ino t))"
  shows "\<exists>s1 m nb t'. delete_unlink s cur = Some (s1, Some m, nb) \<and> wf_tree s1 t'
     \<and> fresh s1 = fresh s \<and> tsize s1 = tsize s \<and> tcount s1 = tcount s
     \<and> (\<forall>p. nb = Some p \<longrightarrow> p \<in> set (ino t'))
     \<and> set (ino t') \<subseteq> set (ino t)
     \<and> sorted_wrt (<) (map (\<lambda>a. key (heap s1 a)) (ino t'))
     \<and> count (heap s1 m) = count (heap s cur)
     \<and> (\<forall>b. b \<notin> set (ino t) \<longrightarrow> heap s1 b = heap s b)"
proof -
  have L: "linked (heap s) None t" and R: "root s = top_of t" and D: "distinct (ino t)"
    using W by (simp_all add: wf_tree_def)
  from pred_adjacent[OF L D X HL] obtain m A B pm where
    m: "getRightMost (heap s) lc = Some m" "ino t = A @ m # cur # B" "right (heap s m) = None"
      "parent (heap s m) = Some pm" by auto
  have mt: "m \<in> set (ino t)" "m \<noteq> cur" "m \<notin> set A" "m \<notin> set B" "cur \<notin> set A" "cur \<notin> set B"
    using m(2) D by auto
  obtain h1 oc where sw: "swapProperties (heap s) cur m = (h1, oc)" by (cases "swapProperties (heap s) cur m")
  note sf = swapProperties_facts[OF sw]
  define s0 where "s0 = s\<lparr>heap := h1\<rparr>"
  define h' where "h' = (if right (h1 pm) = Some m then set_right h1 pm (left (h1 m))
                         else set_left h1 pm (left (h1 m)))"
  define s1 where "s1 = s\<lparr>heap := h'\<rparr>"
  have du: "delete_unlink s cur = Some (s1, Some m, Some pm)"
    using HL m(1,4) sw sf(1) by (simp add: delete_unlink_def Let_def s1_def h'_def)
  have L0: "linked (heap s0) None t"
    unfolding s0_def using L sf(2) by (auto intro: linked_frame)
  have lk: "\<And>c. left (h1 c) = left (heap s c)" "\<And>c. right (h1 c) = right (heap s c)"
    "\<And>c. parent (h1 c) = parent (heap s c)"
    using sf(2) by (auto simp: links_def)
  have pmt: "pm \<in> set (ino t)" "pm \<noteq> m" using parent_in_tree[OF L D mt(1)] m(4) by auto
  have S0: "step_ok s0 s1 None True t (at_node m splice t)"
  proof (rule step_lift[where N = "set (ino t)" and F = "{}"])
    show "linked (heap s0) None t" "distinct (ino t)" "m \<in> set (ino t)" by (rule L0 D mt(1))+
    show "attached s0 None True t" using R by (simp add: attached_def s0_def)
    fix q side u
    assume u: "top_of u = Some m" "linked (heap s0) q u" "distinct (ino u)" "attached s0 q side u"
      "parent (heap s0 m) = q"
    then obtain l r where ue: "u = Nd l m r" by (cases u) auto
    have r: "r = Tip" using u(2) ue m(3) lk by (simp add: s0_def)
    have q: "q = Some pm" using u(5) m(4) lk by (simp add: s0_def)
    have tr: "top_of (splice u) = left (h1 m)" using u(2) ue r by (auto simp: s0_def)
    have sd: "(left (h1 pm) = Some m) = side"
      using attached_side[of s0 pm side u m] u(1,4) q by (simp add: s0_def)
    have rs: "\<not> side \<Longrightarrow> right (h1 pm) = Some m" using u(1,4) q by (simp add: attached_def s0_def)
    have rs2: "side \<Longrightarrow> right (h1 pm) \<noteq> Some m"
      using u(1,4) q ue by (auto simp: attached_def s0_def)
    have "heap s1 = (if side then set_left (heap s0) pm (top_of (splice (Nd l m r)))
                      else set_right (heap s0) pm (top_of (splice (Nd l m r))))"
      using sd rs rs2 tr ue by (auto simp: s1_def h'_def s0_def)
    then show "step_ok s0 s1 q side u (splice u)"
      unfolding q ue using u(2,3,4) r q ue by (intro splice_step) (simp_all add: s1_def s0_def)
  qed (auto simp: set_splice[THEN subsetD])
  have i: "ino (at_node m splice t) = remove1 m (ino t)"
    using m(3) lk by (intro ino_at_node_splice[OF L0 D mt(1)]) (simp add: s0_def)
  then have i2: "ino (at_node m splice t) = A @ cur # B"
    using m(2) mt by (simp add: remove1_append)
  have W1: "wf_tree s1 (at_node m splice t)"
    using S0 D by (simp add: step_ok_def wf_tree_def i)
  have p1: "\<And>b. payload (heap s1 b) = payload (h1 b)" by (simp add: s1_def h'_def)
  have ks: "map (\<lambda>a. key (heap s1 a)) (A @ cur # B)
      = map (\<lambda>a. key (heap s a)) A @ key (heap s m) # map (\<lambda>a. key (heap s a)) B"
  proof -
    have "\<And>b. b \<in> set A \<union> set B \<Longrightarrow> key (heap s1 b) = key (heap s b)"
    proof -
      fix b assume "b \<in> set A \<union> set B"
      then have "b \<noteq> cur" "b \<noteq> m" using mt by auto
      then have "h1 b = heap s b" by (rule sf(5))
      then show "key (heap s1 b) = key (heap s b)" using p1[of b] by (simp add: payload_def)
    qed
    moreover have "key (heap s1 cur) = key (heap s m)"
      using p1[of cur] sf(3) by (simp add: payload_def)
    ultimately show ?thesis by simp
  qed
  have so: "sorted_wrt (<) (map (\<lambda>a. key (heap s1 a)) (ino (at_node m splice t)))"
    unfolding i2 ks using S unfolding m(2) by (auto simp: sorted_wrt_append)
  have cm: "count (heap s1 m) = count (heap s cur)"
    using p1[of m] sf(4) by (simp add: payload_def)
  have f: "\<forall>b. b \<notin> set (ino t) \<longrightarrow> heap s1 b = heap s b"
  proof (intro allI impI)
    fix b assume b: "b \<notin> set (ino t)"
    then have "b \<noteq> cur" "b \<noteq> m" using X mt by auto
    then have "h1 b = heap s b" by (rule sf(5))
    moreover have "heap s1 b = heap s0 b"
      using S0 b by (auto simp: step_ok_def i dest: notin_set_remove1)
    ultimately show "heap s1 b = heap s b" by (simp add: s0_def)
  qed
  have pi: "pm \<in> set (ino (at_node m splice t))" using pmt by (simp add: i)
  have sub: "set (ino (at_node m splice t)) \<subseteq> set (ino t)" unfolding i by (rule set_remove1_subset)
  show ?thesis using du W1 so cm f pi sub
    by (intro exI[of _ s1] exI[of _ m] exI[of _ "Some pm"] exI[of _ "at_node m splice t"])
       (simp add: s1_def)
qed

text \<open>the structural branch, both cases\<close>

lemma delete_unlink_whole:
  assumes I: "bst_inv s t" and X: "cur \<in> set (ino t)"
  shows "\<exists>s1 oc nb t'. delete_unlink s cur = Some (s1, Some oc, nb) \<and> bst_inv s1 t'
     \<and> tsize s1 = tsize s \<and> tcount s1 = tcount s
     \<and> (\<forall>p. nb = Some p \<longrightarrow> p \<in> set (ino t'))"
proof -
  have W: "wf_tree s t" and S: "sorted_wrt (<) (map (\<lambda>a. key (heap s a)) (ino t))"
    and Al: "\<forall>a\<in>set (ino t). a < fresh s"
    using I by (simp_all add: bst_inv_def)
  show ?thesis
  proof (cases "left (heap s cur)")
    case None
    from delete_unlink_noleft[OF W X None] obtain s1 nb t' where
      r: "delete_unlink s cur = Some (s1, Some cur, nb)" "wf_tree s1 t'"
        "fresh s1 = fresh s" "tsize s1 = tsize s" "tcount s1 = tcount s"
        "\<forall>p. nb = Some p \<longrightarrow> p \<in> set (ino t')"
        "ino t' = remove1 cur (ino t) \<or> (t' = t \<and> s1 = s \<and> t = Nd Tip cur Tip)"
        "\<forall>b. payload (heap s1 b) = payload (heap s b)" by blast
    have k: "map (\<lambda>a. key (heap s1 a)) (ino t') = map (\<lambda>a. key (heap s a)) (ino t')"
      using r(8) by (intro keys_cong) simp
    have sub: "set (ino t') \<subseteq> set (ino t)" using r(7) set_remove1_subset[of cur "ino t"] by auto
    have "sorted_wrt (<) (map (\<lambda>a. key (heap s a)) (ino t'))"
      using r(7) S sorted_wrt_remove1[of "\<lambda>a b. key (heap s a) < key (heap s b)" "ino t" cur]
      by (auto simp: sorted_wrt_map)
    then have so: "sorted_wrt (<) (map (\<lambda>a. key (heap s1 a)) (ino t'))" by (simp only: k)
    have al: "\<forall>a\<in>set (ino t'). a < fresh s1" using r(3) sub Al by auto
    have "bst_inv s1 t'" unfolding bst_inv_def by (intro conjI r(2) so al)
    then show ?thesis using r by blast
  next
    case (Some lc)
    from delete_unlink_left[OF W X Some S] obtain s1 m nb t' where
      r: "delete_unlink s cur = Some (s1, Some m, nb)" "wf_tree s1 t'"
        "fresh s1 = fresh s" "tsize s1 = tsize s" "tcount s1 = tcount s"
        "\<forall>p. nb = Some p \<longrightarrow> p \<in> set (ino t')" "set (ino t') \<subseteq> set (ino t)"
        "sorted_wrt (<) (map (\<lambda>a. key (heap s1 a)) (ino t'))" by blast
    have "bst_inv s1 t'" using r(2,3,7,8) Al by (auto simp: bst_inv_def)
    then show ?thesis using r by blast
  qed
qed

subsection \<open>delete keeps a tree at rest\<close>

lemma bst_inv_sizes [simp]: "bst_inv (s\<lparr>tsize := c\<rparr>) t = bst_inv s t"
  by (simp add: bst_inv_def wf_tree_def)

lemma bst_inv_dfs:
  "bst_inv s t \<Longrightarrow> dfs pattern (heap s) (root s)
     = Some (case pattern of Pre \<Rightarrow> pre_list t | In \<Rightarrow> ino t | Post \<Rightarrow> post_list t)"
  using dfs_linked[of "heap s" None t pattern] by (simp add: bst_inv_def wf_tree_def)

lemma bst_inv_balancePath:
  assumes I: "bst_inv s t" and X: "x \<in> set (ino t)"
  shows "\<exists>s' t'. balancePath s x = Some s' \<and> bst_inv s' t' \<and> ino t' = ino t
       \<and> (\<forall>b. payload (heap s' b) = payload (heap s b))
       \<and> (\<forall>b. b \<notin> set (ino t) \<longrightarrow> heap s' b = heap s b)
       \<and> fresh s' = fresh s \<and> tsize s' = tsize s \<and> tcount s' = tcount s"
proof -
  have W: "wf_tree s t" and S: "sorted_wrt (<) (map (\<lambda>a. key (heap s a)) (ino t))"
    and Al: "\<forall>a\<in>set (ino t). a < fresh s"
    using I by (simp_all add: bst_inv_def)
  from balancePath_whole[OF W X] obtain s' t' where
    r: "balancePath s x = Some s'" "wf_tree s' t'" "ino t' = ino t"
       "\<forall>b. b \<notin> set (ino t) \<longrightarrow> heap s' b = heap s b"
       "\<forall>b. payload (heap s' b) = payload (heap s b)"
       "fresh s' = fresh s" "tsize s' = tsize s" "tcount s' = tcount s" by blast
  have k: "map (\<lambda>a. key (heap s' a)) (ino t') = map (\<lambda>a. key (heap s a)) (ino t')"
    using r(5) by (intro keys_cong) simp
  have "map (\<lambda>a. key (heap s' a)) (ino t') = map (\<lambda>a. key (heap s a)) (ino t)"
    using k r(3) by simp
  then have so: "sorted_wrt (<) (map (\<lambda>a. key (heap s' a)) (ino t'))"
    using S by (simp only:)
  have al: "\<forall>a\<in>set (ino t'). a < fresh s'" using r(3,6) Al by simp
  have "bst_inv s' t'" unfolding bst_inv_def by (intro conjI r(2) so al)
  then show ?thesis using r by blast
qed

lemma bst_inv_count_upd:
  assumes "bst_inv s t"
  shows "bst_inv (s\<lparr>heap := (heap s)(cur := (heap s cur)\<lparr>count := c\<rparr>), tcount := d\<rparr>) t"
proof -
  define h where "h = (heap s)(cur := (heap s cur)\<lparr>count := c\<rparr>)"
  have L: "linked (heap s) None t" and R: "root s = top_of t" and D: "distinct (ino t)"
    and S: "sorted_wrt (<) (map (\<lambda>a. key (heap s a)) (ino t))"
    and Al: "\<forall>a\<in>set (ino t). a < fresh s"
    using assms by (simp_all add: bst_inv_def wf_tree_def)
  have L': "linked h None t"
    by (rule linked_frame[OF L]) (simp add: links_def h_def)
  have k: "map (\<lambda>a. key (h a)) (ino t) = map (\<lambda>a. key (heap s a)) (ino t)"
    by (simp add: h_def)
  have S': "sorted_wrt (<) (map (\<lambda>a. key (h a)) (ino t))" using S by (simp only: k)
  have "bst_inv (s\<lparr>heap := h, tcount := d\<rparr>) t"
    unfolding bst_inv_def wf_tree_def using L' R D S' Al by simp
  then show ?thesis by (simp only: h_def)
qed

lemma find_Some_set: "find P xs = Some x \<Longrightarrow> x \<in> set xs"
  by (induction xs) (auto split: if_splits)

lemma delete_decrement:
  "root s \<noteq> None \<Longrightarrow> getNode s identifier callback = Some (Some cur) \<Longrightarrow>
   count (heap s cur) > 1 \<and> \<not> ignoreCount \<Longrightarrow>
   delete s identifier callback ignoreCount =
     Some (s\<lparr>heap := (heap s)(cur := (heap s cur)\<lparr>count := count (heap s cur) - 1\<rparr>),
             tcount := tcount s - 1\<rparr>, [(Some cur, None)])"
  by (simp add: delete_def)

lemma delete_structural:
  "root s \<noteq> None \<Longrightarrow> getNode s identifier callback = Some (Some cur) \<Longrightarrow>
   \<not> (count (heap s cur) > 1 \<and> \<not> ignoreCount) \<Longrightarrow>
   delete_unlink s cur = Some (s1, Some oc, nb) \<Longrightarrow>
   delete s identifier callback ignoreCount =
     map_option (\<lambda>s4. (s4, [(Some oc, nb)]))
       (case nb of
          None \<Rightarrow> Some (s1\<lparr>tsize := tsize s1 - 1, tcount := tcount s1 - count (heap s1 oc)\<rparr>)
        | Some p \<Rightarrow>
            balancePath (s1\<lparr>tsize := tsize s1 - 1, tcount := tcount s1 - count (heap s1 oc)\<rparr>) p)"
  by (cases nb) (auto simp add: delete_def Let_def split: Option.bind_split)

lemma delete_inv:
  assumes I: "bst_inv s t"
  shows "\<exists>s' res t'. delete s identifier callback ignoreCount = Some (s', res) \<and> bst_inv s' t'"
proof (cases "root s = None")
  case True
  then show ?thesis using I by (auto simp: delete_def)
next
  case False
  have g: "getNode s identifier callback = Some (find (\<lambda>a. callback (heap s a) = identifier) (pre_list t))"
    using bst_inv_dfs[OF I, of Pre] by (simp add: getNode_def)
  show ?thesis
  proof (cases "find (\<lambda>a. callback (heap s a) = identifier) (pre_list t)")
    case None
    then have "delete s identifier callback ignoreCount = Some (s, [])"
      using g False by (simp add: delete_def)
    then show ?thesis using I by blast
  next
    case (Some cur)
    then have X: "cur \<in> set (ino t)" using find_Some_set[OF Some] by simp
    have g': "getNode s identifier callback = Some (Some cur)" using g Some by simp
    show ?thesis
    proof (cases "count (heap s cur) > 1 \<and> \<not> ignoreCount")
      case True
      show ?thesis
        unfolding delete_decrement[OF False g' True]
        using bst_inv_count_upd[OF I, where cur = cur] by blast
    next
      case nc: False
      from delete_unlink_whole[OF I X] obtain s1 oc nb t' where
        r: "delete_unlink s cur = Some (s1, Some oc, nb)" "bst_inv s1 t'"
          "\<forall>p. nb = Some p \<longrightarrow> p \<in> set (ino t')" by blast
      define s3 where "s3 = s1\<lparr>tsize := tsize s1 - 1, tcount := tcount s1 - count (heap s1 oc)\<rparr>"
      have I3: "bst_inv s3 t'" using r(2) by (simp add: s3_def)
      note ds = delete_structural[OF False g' nc r(1), folded s3_def]
      show ?thesis
      proof (cases nb)
        case None
        then show ?thesis using I3 ds by auto
      next
        case (Some p)
        then have "p \<in> set (ino t')" using r(3) by simp
        from bst_inv_balancePath[OF I3 this] obtain s4 t4 where
          b: "balancePath s3 p = Some s4" "bst_inv s4 t4" by blast
        show ?thesis using ds Some b by auto
      qed
    qed
  qed
qed

subsection \<open>add and addMany keep a tree at rest; re-adding a node of the tree\<close>

lemma node_upd_same:
  "left r = v \<Longrightarrow> r\<lparr>left := v\<rparr> = r" "right r = v \<Longrightarrow> r\<lparr>right := v\<rparr> = r"
  "parent r = p \<Longrightarrow> r\<lparr>parent := p\<rparr> = r"
  "parent r = p \<Longrightarrow> height r = x \<Longrightarrow> r\<lparr>parent := p, height := x\<rparr> = r"
  by auto

lemma set_left_idem:
  assumes "left (h x) = v" and "\<And>c. v = Some c \<Longrightarrow> parent (h c) = Some x"
  shows "set_left h x v = h"
proof (cases v)
  case None
  then show ?thesis using assms(1) by (simp add: set_left_def node_upd_same)
next
  case (Some c)
  have "h(c := (h c)\<lparr>parent := Some x\<rparr>) = h" using assms(2)[OF Some] by (simp add: node_upd_same)
  then show ?thesis using Some assms(1) by (simp add: set_left_def node_upd_same)
qed

lemma set_right_idem:
  assumes "right (h x) = v" and "\<And>c. v = Some c \<Longrightarrow> parent (h c) = Some x"
  shows "set_right h x v = h"
proof (cases v)
  case None
  then show ?thesis using assms(1) by (simp add: set_right_def node_upd_same)
next
  case (Some c)
  have "h(c := (h c)\<lparr>parent := Some x\<rparr>) = h" using assms(2)[OF Some] by (simp add: node_upd_same)
  then show ?thesis using Some assms(1) by (simp add: set_right_def node_upd_same)
qed

lemma linked_children_parent:
  "linked h q t \<Longrightarrow> n \<in> set (ino t) \<Longrightarrow>
   (\<forall>c. left (h n) = Some c \<longrightarrow> parent (h c) = Some n)
   \<and> (\<forall>c. right (h n) = Some c \<longrightarrow> parent (h c) = Some n)"
proof (induction t arbitrary: q)
  case Tip
  then show ?case by simp
next
  case (Nd l a r)
  consider "n = a" | "n \<in> set (ino l)" | "n \<in> set (ino r)" using Nd.prems(2) by auto
  then show ?case
  proof cases
    case 1
    have "linked h (Some a) l" "linked h (Some a) r" "left (h a) = top_of l" "right (h a) = top_of r"
      using Nd.prems(1) by simp_all
    then show ?thesis using 1 linked_child_parent[of h "Some a"] by auto
  next
    case 2
    then show ?thesis using Nd.IH(1)[of "Some a"] Nd.prems(1) by simp
  next
    case 3
    then show ?thesis using Nd.IH(2)[of "Some a"] Nd.prems(1) by simp
  qed
qed

text \<open>re-adding a node that is in the tree: the descent meets the node itself\<close>

lemma super_replaceNode_self:
  assumes "\<And>c. left (heap s n) = Some c \<Longrightarrow> parent (heap s c) = Some n"
    and "\<And>c. right (heap s n) = Some c \<Longrightarrow> parent (heap s c) = Some n"
  shows "super_replaceNode s n n = (s, n)"
proof -
  define h where "h = heap s"
  define h1 where "h1 = (case parent (h n) of
                  None \<Rightarrow> h
                | Some p \<Rightarrow>
                    if left (h p) = Some n then h(p := (h p)\<lparr>left := Some n\<rparr>)
                    else if right (h p) = Some n then h(p := (h p)\<lparr>right := Some n\<rparr>)
                    else h)"
  define h2 where "h2 = set_left h1 n (left (h1 n))"
  define h3 where "h3 = set_right h2 n (right (h2 n))"
  define h4 where "h4 = h3(n := (h3 n)\<lparr>parent := parent (h n), height := height (h3 n)\<rparr>)"
  have e1: "h1 = h" by (auto simp: h1_def node_upd_same split: option.splits)
  have e2: "h2 = h" unfolding h2_def e1 using assms(1) by (intro set_left_idem) (auto simp: h_def)
  have e3: "h3 = h" unfolding h3_def e2 using assms(2) by (intro set_right_idem) (auto simp: h_def)
  have e4: "h4 = h" unfolding h4_def e3 by (simp add: node_upd_same)
  have "super_replaceNode s n n =
      (s\<lparr>heap := h4, root := (if root s = Some n then Some n else root s)\<rparr>, n)"
    unfolding super_replaceNode_def Let_def h4_def h3_def h2_def h1_def h_def by (rule refl)
  then show ?thesis by (simp add: e4 h_def)
qed

lemma replaceNode_self:
  assumes "linked (heap s) q t" and "n \<in> set (ino t)"
  shows "fst (replaceNode s n n) =
     s\<lparr>heap := (heap s)(n := (heap s n)\<lparr>count := count (heap s n) + count (heap s n)\<rparr>)\<rparr>"
proof -
  define s1 where
    "s1 = s\<lparr>heap := (heap s)(n := (heap s n)\<lparr>count := count (heap s n) + count (heap s n)\<rparr>)\<rparr>"
  have lk: "\<And>c. links (heap s1 c) = links (heap s c)" by (simp add: s1_def links_def)
  have cp: "(\<forall>c. left (heap s n) = Some c \<longrightarrow> parent (heap s c) = Some n)
     \<and> (\<forall>c. right (heap s n) = Some c \<longrightarrow> parent (heap s c) = Some n)"
    by (rule linked_children_parent[OF assms])
  have f: "\<And>c. left (heap s1 c) = left (heap s c)" "\<And>c. right (heap s1 c) = right (heap s c)"
    "\<And>c. parent (heap s1 c) = parent (heap s c)"
    by (simp_all add: s1_def)
  have "super_replaceNode s1 n n = (s1, n)"
    by (rule super_replaceNode_self) (use cp in \<open>simp_all add: f\<close>)
  then show ?thesis by (simp add: replaceNode_def Let_def s1_def)
qed

lemma bst_insert_reaches:
  "linked (heap s) q t \<Longrightarrow> top_of t = Some cur \<Longrightarrow>
   bst_find (\<lambda>a. key (heap s a)) (key (heap s n)) t = Some old \<Longrightarrow>
   bst_insert s cur n = Some (fst (replaceNode s old n), False)"
proof (induction t arbitrary: q cur)
  case Tip
  then show ?case by simp
next
  case (Nd l a r)
  let ?\<kappa> = "\<lambda>a. key (heap s a)"
  have cur: "cur = a" using Nd.prems(2) by simp
  have la: "left (heap s a) = top_of l" "right (heap s a) = top_of r"
    and Ll: "linked (heap s) (Some a) l" and Lr: "linked (heap s) (Some a) r"
    using Nd.prems(1) by simp_all
  consider (eq) "?\<kappa> n = ?\<kappa> a" | (lt) "?\<kappa> n < ?\<kappa> a" | (gt) "?\<kappa> n > ?\<kappa> a" by linarith
  then show ?case
  proof cases
    case eq
    then have "old = a" using Nd.prems(3) by simp
    then show ?thesis using eq cur by (subst bst_insert.simps) (simp add: Let_def)
  next
    case lt
    then have f: "bst_find ?\<kappa> (?\<kappa> n) l = Some old" using Nd.prems(3) by simp
    then obtain ll b lr where l: "l = Nd ll b lr" by (cases l) auto
    have "bst_insert s cur n = bst_insert s b n"
      using lt cur la l by (subst bst_insert.simps) (simp add: Let_def)
    then show ?thesis using Nd.IH(1)[OF Ll _ f, of b] l by simp
  next
    case gt
    then have f: "bst_find ?\<kappa> (?\<kappa> n) r = Some old" using Nd.prems(3) by simp
    then obtain rl b rr where r: "r = Nd rl b rr" by (cases r) auto
    have "bst_insert s cur n = bst_insert s b n"
      using gt cur la r by (subst bst_insert.simps) (simp add: Let_def)
    then show ?thesis using Nd.IH(2)[OF Lr _ f, of b] r by simp
  qed
qed

lemma bst_find_self:
  assumes "sorted_wrt (<) (map \<kappa> (ino t))" and "n \<in> set (ino t)"
  shows "bst_find \<kappa> (\<kappa> n) t = Some n"
proof -
  have "bst_find \<kappa> (\<kappa> n) t \<noteq> None" using bst_find_None[OF assms(1), of "\<kappa> n"] assms(2) by auto
  then obtain old where o: "bst_find \<kappa> (\<kappa> n) t = Some old" by auto
  have "old \<in> set (ino t)" "\<kappa> old = \<kappa> n" using bst_find_Some[OF o] by simp_all
  moreover have "inj_on \<kappa> (set (ino t))"
    using assms(1) by (metis (no_types, lifting) distinct_map strict_sorted_iff sorted_wrt_map)
  ultimately have "old = n" using assms(2) by (auto simp: inj_on_def)
  then show ?thesis using o by simp
qed

lemma add_node_self:
  assumes I: "bst_inv s t" and N: "n \<in> set (ino t)"
  shows "\<exists>s'. add_node s n = Some (s', Some n) \<and> bst_inv s' t \<and> fresh s' = fresh s"
proof -
  have W: "linked (heap s) None t" "root s = top_of t"
    and S: "sorted_wrt (<) (map (\<lambda>a. key (heap s a)) (ino t))"
    using I by (simp_all add: bst_inv_def wf_tree_def)
  obtain cur where cur: "top_of t = Some cur" using N by (cases t) auto
  define s1 where
    "s1 = s\<lparr>heap := (heap s)(n := (heap s n)\<lparr>count := count (heap s n) + count (heap s n)\<rparr>)\<rparr>"
  have f: "bst_find (\<lambda>a. key (heap s a)) (key (heap s n)) t = Some n"
    by (rule bst_find_self[OF S N])
  have "bst_insert s cur n = Some (fst (replaceNode s n n), False)"
    by (rule bst_insert_reaches[OF W(1) cur f])
  then have b: "bst_insert s cur n = Some (s1, False)"
    unfolding replaceNode_self[OF W(1) N] s1_def .
  have sa: "super_add s n = Some (s1, Some n)"
    using W(2) cur b by (simp add: super_add_def)
  define s' where "s' = s1\<lparr>tcount := tcount s1 + count (heap s n)\<rparr>"
  have an: "add_node s n = Some (s', Some n)" using sa by (simp add: add_node_def2 s'_def)
  have e: "s' = s\<lparr>heap := (heap s)(n := (heap s n)\<lparr>count := count (heap s n) + count (heap s n)\<rparr>),
                  tcount := tcount s + count (heap s n)\<rparr>"
    by (simp add: s'_def s1_def)
  have "bst_inv s' t" unfolding e by (rule bst_inv_count_upd[OF I])
  moreover have "fresh s' = fresh s" by (simp add: e)
  ultimately show ?thesis using an by blast
qed

lemma in_tree_iff: "bst_inv s t \<Longrightarrow> in_tree s n \<longleftrightarrow> n \<in> set (ino t)"
  using bst_inv_dfs[of s t In] by (simp add: in_tree_def)

lemma set_shape_map_upd:
  "set (ino (shape_map (\<lambda>x. if x = old then n else x) t)) \<subseteq> insert n (set (ino t))"
  by auto

lemma add_node_inv:
  assumes I: "bst_inv s t" and N: "n \<notin> set (ino t)" "n < fresh s"
    "left (heap s n) = None" "right (heap s n) = None"
  shows "\<exists>s' t'. add_node s n = Some (s', Some n) \<and> bst_inv s' t' \<and> fresh s' = fresh s
     \<and> set (ino t') \<subseteq> insert n (set (ino t))
     \<and> (\<forall>b. b \<notin> set (ino t) \<longrightarrow> b \<noteq> n \<longrightarrow> heap s' b = heap s b)"
proof (cases "bst_find (\<lambda>a. key (heap s a)) (key (heap s n)) t")
  case None
  from add_node_new[OF I N None] obtain s' t' where
    r: "add_node s n = Some (s', Some n)" "bst_inv s' t'"
      "\<exists>pre suf. ino t = pre @ suf \<and> ino t' = pre @ n # suf" "fresh s' = fresh s"
      "\<forall>b. b \<notin> set (ino t) \<longrightarrow> b \<noteq> n \<longrightarrow> heap s' b = heap s b" by blast
  have "set (ino t') \<subseteq> insert n (set (ino t))" using r(3) by auto
  then show ?thesis using r by blast
next
  case (Some old)
  from add_node_found[OF I N Some] obtain s' where
    r: "add_node s n = Some (s', Some n)"
      "bst_inv s' (shape_map (\<lambda>x. if x = old then n else x) t)" "fresh s' = fresh s"
      "\<forall>b. b \<notin> set (ino t) \<longrightarrow> b \<noteq> n \<longrightarrow> heap s' b = heap s b" by blast
  show ?thesis using r set_shape_map_upd[of old n t] by blast
qed

lemma add_entry_inv:
  assumes I: "bst_inv s t"
  shows "\<exists>s' t'. add s (Entry (Some k) v) c = Some (s', Some (fresh s)) \<and> bst_inv s' t'
     \<and> fresh s' = Suc (fresh s) \<and> set (ino t') \<subseteq> insert (fresh s) (set (ino t))
     \<and> (\<forall>b. b \<notin> set (ino t) \<longrightarrow> b \<noteq> fresh s \<longrightarrow> heap s' b = heap s b)"
proof (cases "k \<in> (\<lambda>a. key (heap s a)) ` set (ino t)")
  case False
  from add_key_new[OF I False, of v c] obtain s' t' where
    r: "add s (Entry (Some k) v) c = Some (s', Some (fresh s))" "bst_inv s' t'"
      "\<exists>pre suf. ino t = pre @ suf \<and> ino t' = pre @ fresh s # suf" "fresh s' = Suc (fresh s)"
      "\<forall>b. b \<notin> set (ino t) \<longrightarrow> b \<noteq> fresh s \<longrightarrow> heap s' b = heap s b" by blast
  have "set (ino t') \<subseteq> insert (fresh s) (set (ino t))" using r(3) by auto
  then show ?thesis using r by blast
next
  case True
  then obtain old where o: "old \<in> set (ino t)" "key (heap s old) = k" by auto
  from add_key_found[OF I o, of v c] obtain s' where
    r: "add s (Entry (Some k) v) c = Some (s', Some (fresh s))"
      "bst_inv s' (shape_map (\<lambda>x. if x = old then fresh s else x) t)" "fresh s' = Suc (fresh s)"
      "\<forall>b. b \<notin> set (ino t) \<longrightarrow> b \<noteq> fresh s \<longrightarrow> heap s' b = heap s b" by blast
  show ?thesis using r set_shape_map_upd[of old "fresh s" t] by blast
qed

lemma add_inv:
  assumes I: "bst_inv s t" and E: "ex_ok s e"
  shows "\<exists>s' r t'. add s e c = Some (s', r) \<and> bst_inv s' t'"
proof (cases e)
  case Undefined
  then show ?thesis using I by (auto simp: add_def)
next
  case Null
  then show ?thesis using I by (auto simp: add_def)
next
  case (NodeRef n)
  have a: "add s e c = add_node s n" using NodeRef by (simp add: add_def)
  show ?thesis
  proof (cases "n \<in> set (ino t)")
    case True
    from add_node_self[OF I True] show ?thesis unfolding a by blast
  next
    case False
    then have N: "n \<notin> set (ino t)" "n < fresh s" "left (heap s n) = None" "right (heap s n) = None"
      using E NodeRef in_tree_iff[OF I, of n] by (simp_all add: ex_ok_def)
    from add_node_inv[OF I N] show ?thesis unfolding a by blast
  qed
next
  case (KeyOnly k)
  from add_entry_inv[OF I, of k None c] show ?thesis
    unfolding KeyOnly add_KeyOnly_def2 by blast
next
  case (Entry ko v)
  show ?thesis
  proof (cases ko)
    case None
    then show ?thesis using I Entry by (auto simp: add_def)
  next
    case (Some k)
    from add_entry_inv[OF I, of k v c] show ?thesis unfolding Entry Some by blast
  qed
qed

lemma addMany_inv:
  "bst_inv s t \<Longrightarrow> exs_ok s es \<Longrightarrow> \<exists>s' rs t'. addMany s es = Some (s', rs) \<and> bst_inv s' t'"
proof (induction es arbitrary: s t)
  case Nil
  then show ?case by auto
next
  case (Cons e es)
  have E: "ex_ok s e" using Cons.prems(2) by simp
  from add_inv[OF Cons.prems(1) E, of 1] obtain s1 r t1 where
    r: "add s e 1 = Some (s1, r)" "bst_inv s1 t1" by blast
  have "exs_ok s1 es" using Cons.prems(2) r(1) by simp
  from Cons.IH[OF r(2) this] obtain s' rs t' where
    "addMany s1 es = Some (s', rs)" "bst_inv s' t'" by blast
  then show ?case using r(1) by auto
qed

subsection \<open>perfectlyBalance and clear keep a tree at rest\<close>

lemma linked_unique:
  "linked h q t \<Longrightarrow> linked h q' t' \<Longrightarrow> top_of t = top_of t' \<Longrightarrow> t = t'"
proof (induction t arbitrary: q q' t')
  case Tip
  then show ?case by simp
next
  case (Nd l a r)
  then obtain l' r' where t': "t' = Nd l' a r'" by (cases t') auto
  have "l = l'" using Nd.prems t' by (intro Nd.IH(1)[of "Some a" "Some a"]) auto
  moreover have "r = r'" using Nd.prems t' by (intro Nd.IH(2)[of "Some a" "Some a"]) auto
  ultimately show ?case using t' by simp
qed

lemma bst_inv_unique: "bst_inv s t \<Longrightarrow> bst_inv s t' \<Longrightarrow> t = t'"
  by (auto simp: bst_inv_def wf_tree_def intro: linked_unique)

lemma set_mid_order: "set (mid_order l r) = {l..r}"
proof (induction l r rule: mid_order.induct)
  case (1 l r)
  show ?case
  proof (cases "l > r")
    case True
    then show ?thesis by (simp add: mid_order.simps)
  next
    case False
    define m where "m = l + (r - l) div 2"
    have mo: "mid_order l r = m # mid_order l (m - 1) @ mid_order (m + 1) r"
      using False by (subst mid_order.simps) (simp add: m_def Let_def)
    have lm: "l \<le> m" "m \<le> r" using False by (auto simp: m_def)
    have "set (mid_order l (m - 1)) = {l..m - 1}" "set (mid_order (m + 1) r) = {m + 1..r}"
      using "1.IH"[OF False m_def] by simp_all
    then show ?thesis using lm by (auto simp: mo)
  qed
qed

lemma distinct_mid_order: "distinct (mid_order l r)"
proof (induction l r rule: mid_order.induct)
  case (1 l r)
  show ?case
  proof (cases "l > r")
    case True
    then show ?thesis by (simp add: mid_order.simps)
  next
    case False
    define m where "m = l + (r - l) div 2"
    have mo: "mid_order l r = m # mid_order l (m - 1) @ mid_order (m + 1) r"
      using False by (subst mid_order.simps) (simp add: m_def Let_def)
    have "distinct (mid_order l (m - 1))" "distinct (mid_order (m + 1) r)"
      using "1.IH"[OF False m_def] by simp_all
    then show ?thesis by (auto simp: mo set_mid_order)
  qed
qed

lemma add_mid_inv:
  assumes I: "bst_inv s t" and M: "0 \<le> m" "m < int (length sn)"
  shows "\<exists>s' t'. add_mid s sn m = Some s' \<and> bst_inv s' t'"
proof -
  from add_entry_inv[OF I, of "key (heap s (sn ! nat m))" "val (heap s (sn ! nat m))"
      "count (heap s (sn ! nat m))"]
  show ?thesis using M by (auto simp: add_mid_def Let_def)
qed

lemma run_adds_inv:
  "bst_inv s t \<Longrightarrow> \<forall>m\<in>set ms. 0 \<le> m \<and> m < int (length sn) \<Longrightarrow>
   \<exists>s' t'. run_adds sn ms s = Some s' \<and> bst_inv s' t'"
proof (induction ms arbitrary: s t)
  case Nil
  then show ?case by auto
next
  case (Cons m ms)
  from add_mid_inv[OF Cons.prems(1), of m sn] Cons.prems(2) obtain s1 t1 where
    "add_mid s sn m = Some s1" "bst_inv s1 t1" by auto
  then show ?case using Cons.IH[of s1 t1] Cons.prems(2) by auto
qed

lemma bst_inv_clear: "bst_inv s t \<Longrightarrow> bst_inv (clear s) Tip"
  by (simp add: bst_inv_def wf_tree_def clear_def super_clear_def)

lemma bst_inv_empty: "bst_inv empty_tree Tip"
  by (simp add: bst_inv_def wf_tree_def empty_tree_def)

lemma perfectlyBalance_run:
  assumes I: "bst_inv s t"
  shows "perfectlyBalance s iterationType =
     (if t = Tip then Some (s, False)
      else map_option (\<lambda>s'. (s', True))
        (run_adds (ino t) (mid_order 0 (int (length (ino t)) - 1)) (clear s)))"
proof -
  have d: "dfs In (heap s) (root s) = Some (ino t)" using bst_inv_dfs[OF I, of In] by simp
  have e: "ino t = [] \<longleftrightarrow> t = Tip" by (cases t) auto
  show ?thesis
    using d e
    by (cases "run_adds (ino t) (mid_order 0 (int (length (ino t)) - 1)) (clear s)")
       (auto simp: perfectlyBalance_def Let_def buildBalanceBST_run balance_loop_run)
qed

lemma perfectlyBalance_inv:
  assumes I: "bst_inv s t"
  shows "\<exists>s' b t'. perfectlyBalance s iterationType = Some (s', b) \<and> bst_inv s' t'"
proof (cases "t = Tip")
  case True
  then show ?thesis using I by (auto simp: perfectlyBalance_run[OF I])
next
  case False
  have "\<forall>m\<in>set (mid_order 0 (int (length (ino t)) - 1)). 0 \<le> m \<and> m < int (length (ino t))"
    by (auto simp: set_mid_order)
  from run_adds_inv[OF bst_inv_clear[OF I] this] obtain s' t' where
    "run_adds (ino t) (mid_order 0 (int (length (ino t)) - 1)) (clear s) = Some s'" "bst_inv s' t'"
    by blast
  then show ?thesis using False by (auto simp: perfectlyBalance_run[OF I])
qed

lemma apply_op_inv:
  assumes I: "bst_inv s t" and O: "op_ok s op"
  shows "\<exists>s' t'. apply_op s op = Some s' \<and> bst_inv s' t'"
proof (cases op)
  case (OpAdd e c)
  then show ?thesis using add_inv[OF I, of e c] O by auto
next
  case (OpAddMany es)
  then show ?thesis using addMany_inv[OF I, of es] O by auto
next
  case (OpDelete i cb ig)
  then show ?thesis using delete_inv[OF I, of i cb ig] by auto
next
  case (OpPerfectlyBalance it)
  then show ?thesis using perfectlyBalance_inv[OF I, of it] by auto
next
  case OpClear
  then show ?thesis using bst_inv_clear[OF I] by auto
qed

lemma bst_inv_inorder_keys:
  "bst_inv s t \<Longrightarrow> \<exists>ks. inorder_keys s = Some ks \<and> sorted_wrt (<) ks"
  using bst_inv_dfs[of s t In] by (auto simp: inorder_keys_def bst_inv_def)

subsection \<open>Observations of a tree at rest\<close>

lemma sum_list_upd_one:
  "distinct xs \<Longrightarrow> old \<in> set xs \<Longrightarrow>
   sum_list (map (\<lambda>a. if a = old then c a + d else c a) xs) = sum_list (map c xs) + (d::int)"
proof (induction xs)
  case Nil
  then show ?case by simp
next
  case (Cons x xs)
  show ?case
  proof (cases "x = old")
    case True
    then have "old \<notin> set xs" using Cons.prems by simp
    then have "map (\<lambda>a. if a = old then c a + d else c a) xs = map c xs" by (intro map_cong) auto
    then have "sum_list (map (\<lambda>a. if a = old then c a + d else c a) xs) = sum_list (map c xs)"
      by (simp only:)
    then show ?thesis using True by simp
  next
    case False
    then show ?thesis using Cons by simp
  qed
qed

lemma bst_inv_observe:
  assumes "bst_inv s t"
  shows "inorder_keys s = Some (map (\<lambda>a. key (heap s a)) (ino t))"
    "inorder_content s = Some (map (\<lambda>a. (key (heap s a), count (heap s a))) (ino t))"
    "get_count s = Some (sum_list (map (\<lambda>a. count (heap s a)) (ino t)))"
  using bst_inv_dfs[OF assms, of In]
  by (simp_all add: inorder_keys_def inorder_content_def get_count_def)

lemma bst_inv_tree_5: "bst_inv tree_5 (Nd Tip 0 Tip)"
  by (simp add: bst_inv_def wf_tree_def tree_5_def new_node_def)

lemma bst_inv_tree_213: "bst_inv tree_213 (Nd (Nd Tip 1 Tip) 0 (Nd Tip 2 Tip))"
  by (simp add: bst_inv_def wf_tree_def tree_213_def new_node_def)

subsection \<open>Stored heights under rotations\<close>

lemma ht_ge: "- 1 \<le> ht t"
  by (induction t) auto

lemma ht_Tip_iff: "ht t = - 1 \<longleftrightarrow> t = Tip"
proof (cases t)
  case Tip
  then show ?thesis by simp
next
  case (Nd l a r)
  then show ?thesis using ht_ge[of l] ht_ge[of r] by simp
qed

lemma hts_cong:
  "(\<And>a. a \<in> set (ino t) \<Longrightarrow> height (h' a) = height (h a)) \<Longrightarrow> hts h' t = hts h t"
  by (induction t) auto

lemma hts_hgt: "hts h t \<Longrightarrow> hgt h (top_of t) = ht t"
  by (cases t) (auto simp: hgt_def)

lemma height_relink [simp]: "height (heap (relink s P a b) c) = height (heap s c)"
  by (auto simp: relink_def setRoot_def Let_def split: option.splits)

lemma rotateRight_height_other:
  "c \<noteq> a \<Longrightarrow> left (heap s a) \<noteq> Some c \<Longrightarrow>
   height (heap (rotateRight s a) c) = height (heap s c)"
  by (auto simp: rotateRight_def Let_def updateHeight_def split: option.splits)

lemma rotateLeft_height_other:
  "c \<noteq> a \<Longrightarrow> right (heap s a) \<noteq> Some c \<Longrightarrow>
   height (heap (rotateLeft s a) c) = height (heap s c)"
  by (auto simp: rotateLeft_def Let_def updateHeight_def split: option.splits)

lemma rotateRight_form:
  "left (heap s a) = Some b \<Longrightarrow> \<exists>h3. heap (rotateRight s a) = updateHeight (updateHeight h3 a) b"
  by (auto simp: rotateRight_def Let_def)

lemma rotateLeft_form:
  "right (heap s a) = Some b \<Longrightarrow> \<exists>h3. heap (rotateLeft s a) = updateHeight (updateHeight h3 a) b"
  by (auto simp: rotateLeft_def Let_def)

lemma hgt_updateHeight_other: "p \<noteq> Some a \<Longrightarrow> hgt (updateHeight h a) p = hgt h p"
  by (cases p) (simp_all add: hgt_def updateHeight_other)

lemma height_updateHeight_same:
  "height (updateHeight h a a) = 1 + max (hgt h (left (h a))) (hgt h (right (h a)))"
  by (simp add: updateHeight_def)

lemma updateHeight2_correct:
  assumes "H = updateHeight (updateHeight h3 a) b" "a \<noteq> b"
    "left (H a) \<noteq> Some a" "left (H a) \<noteq> Some b" "right (H a) \<noteq> Some a" "right (H a) \<noteq> Some b"
    "left (H b) \<noteq> Some b" "right (H b) \<noteq> Some b"
  shows "height (H a) = 1 + max (hgt H (left (H a))) (hgt H (right (H a)))"
    and "height (H b) = 1 + max (hgt H (left (H b))) (hgt H (right (H b)))"
proof -
  define h4 where "h4 = updateHeight h3 a"
  have H: "H = updateHeight h4 b" using assms(1) by (simp add: h4_def)
  have la: "left (H a) = left (h3 a)" "right (H a) = right (h3 a)"
    and lb: "left (H b) = left (h4 b)" "right (H b) = right (h4 b)"
    by (simp_all add: H h4_def)
  have g: "\<And>p. p \<noteq> Some a \<Longrightarrow> p \<noteq> Some b \<Longrightarrow> hgt H p = hgt h3 p"
    by (simp add: H h4_def hgt_updateHeight_other)
  have "height (H a) = height (h4 a)" using assms(2) by (simp add: H updateHeight_other)
  also have "\<dots> = 1 + max (hgt h3 (left (h3 a))) (hgt h3 (right (h3 a)))"
    unfolding h4_def by (rule height_updateHeight_same)
  also have "\<dots> = 1 + max (hgt H (left (H a))) (hgt H (right (H a)))"
    using assms(3,4,5,6) g[of "left (h3 a)"] g[of "right (h3 a)"] by (simp add: la)
  finally show "height (H a) = 1 + max (hgt H (left (H a))) (hgt H (right (H a)))" .
  have "height (H b) = 1 + max (hgt h4 (left (h4 b))) (hgt h4 (right (h4 b)))"
    unfolding H by (rule height_updateHeight_same)
  also have "\<dots> = 1 + max (hgt H (left (H b))) (hgt H (right (H b)))"
    using assms(7,8) hgt_updateHeight_other[of "left (h4 b)" b h4]
      hgt_updateHeight_other[of "right (h4 b)" b h4] by (simp add: lb H)
  finally show "height (H b) = 1 + max (hgt H (left (H b))) (hgt H (right (H b)))" .
qed

lemma top_of_neq: "x \<notin> set (ino t) \<Longrightarrow> top_of t \<noteq> Some x"
  by (cases t) auto

lemma rotateRight_hts:
  assumes L: "linked (heap s) q (Nd (Nd ll b lr) a r)"
    and D: "distinct (ino (Nd (Nd ll b lr) a r))"
    and A: "attached s q side (Nd (Nd ll b lr) a r)"
    and H: "hts (heap s) ll" "hts (heap s) lr" "hts (heap s) r"
  shows "hts (heap (rotateRight s a)) (Nd ll b (Nd lr a r))"
proof -
  define H where "H = heap (rotateRight s a)"
  have la: "left (heap s a) = Some b" using L by simp
  from rotateRight_local[OF L D A] have lk: "linked H q (Nd ll b (Nd lr a r))"
    by (simp add: step_ok_def H_def)
  have nin: "a \<notin> set (ino ll)" "a \<notin> set (ino lr)" "a \<notin> set (ino r)"
    "b \<notin> set (ino ll)" "b \<notin> set (ino lr)" "b \<notin> set (ino r)" "a \<noteq> b"
    using D by auto
  have oth: "\<And>c. c \<noteq> a \<Longrightarrow> c \<noteq> b \<Longrightarrow> height (H c) = height (heap s c)"
    unfolding H_def using la by (intro rotateRight_height_other) auto
  have tr: "\<And>t. a \<notin> set (ino t) \<Longrightarrow> b \<notin> set (ino t) \<Longrightarrow> hts H t = hts (heap s) t"
  proof (rule hts_cong)
    fix t c assume "a \<notin> set (ino t)" "b \<notin> set (ino t)" "c \<in> set (ino t)"
    then have "c \<noteq> a" "c \<noteq> b" by blast+
    then show "height (H c) = height (heap s c)" by (rule oth)
  qed
  have h1: "hts H ll" "hts H lr" "hts H r" using H nin by (simp_all add: tr)
  have fl: "left (H a) = top_of lr" "right (H a) = top_of r" "left (H b) = top_of ll"
    "right (H b) = Some a"
    using lk by simp_all
  from rotateRight_form[OF la] obtain h3 where h3: "H = updateHeight (updateHeight h3 a) b"
    by (auto simp: H_def)
  have c: "height (H a) = 1 + max (hgt H (left (H a))) (hgt H (right (H a)))"
    "height (H b) = 1 + max (hgt H (left (H b))) (hgt H (right (H b)))"
    using nin by (intro updateHeight2_correct[OF h3]; simp add: fl top_of_neq)+
  have "height (H a) = 1 + max (ht lr) (ht r)"
    using c(1) h1 by (simp add: fl hts_hgt)
  moreover have "height (H b) = 1 + max (ht ll) (height (H a))"
    using c(2) h1 by (simp add: fl hts_hgt) (simp add: hgt_def)
  ultimately show ?thesis using h1 by (simp add: H_def)
qed

lemma rotateLeft_hts:
  assumes L: "linked (heap s) q (Nd l a (Nd rl b rr))"
    and D: "distinct (ino (Nd l a (Nd rl b rr)))"
    and A: "attached s q side (Nd l a (Nd rl b rr))"
    and H: "hts (heap s) l" "hts (heap s) rl" "hts (heap s) rr"
  shows "hts (heap (rotateLeft s a)) (Nd (Nd l a rl) b rr)"
proof -
  define H where "H = heap (rotateLeft s a)"
  have la: "right (heap s a) = Some b" using L by simp
  from rotateLeft_local[OF L D A] have lk: "linked H q (Nd (Nd l a rl) b rr)"
    by (simp add: step_ok_def H_def)
  have nin: "a \<notin> set (ino l)" "a \<notin> set (ino rl)" "a \<notin> set (ino rr)"
    "b \<notin> set (ino l)" "b \<notin> set (ino rl)" "b \<notin> set (ino rr)" "a \<noteq> b"
    using D by auto
  have oth: "\<And>c. c \<noteq> a \<Longrightarrow> c \<noteq> b \<Longrightarrow> height (H c) = height (heap s c)"
    unfolding H_def using la by (intro rotateLeft_height_other) auto
  have tr: "\<And>t. a \<notin> set (ino t) \<Longrightarrow> b \<notin> set (ino t) \<Longrightarrow> hts H t = hts (heap s) t"
  proof (rule hts_cong)
    fix t c assume "a \<notin> set (ino t)" "b \<notin> set (ino t)" "c \<in> set (ino t)"
    then have "c \<noteq> a" "c \<noteq> b" by blast+
    then show "height (H c) = height (heap s c)" by (rule oth)
  qed
  have h1: "hts H l" "hts H rl" "hts H rr" using H nin by (simp_all add: tr)
  have fl: "left (H a) = top_of l" "right (H a) = top_of rl" "left (H b) = Some a"
    "right (H b) = top_of rr"
    using lk by simp_all
  from rotateLeft_form[OF la] obtain h3 where h3: "H = updateHeight (updateHeight h3 a) b"
    by (auto simp: H_def)
  have c: "height (H a) = 1 + max (hgt H (left (H a))) (hgt H (right (H a)))"
    "height (H b) = 1 + max (hgt H (left (H b))) (hgt H (right (H b)))"
    using nin by (intro updateHeight2_correct[OF h3]; simp add: fl top_of_neq)+
  have "height (H a) = 1 + max (ht l) (ht rl)"
    using c(1) h1 by (simp add: fl hts_hgt)
  moreover have "height (H b) = 1 + max (height (H a)) (ht rr)"
    using c(2) h1 by (simp add: fl hts_hgt) (simp add: hgt_def)
  ultimately show ?thesis using h1 by (simp add: H_def)
qed

subsection \<open>Heights under double rotations\<close>

lemma ino_rebal [simp]: "ino (rebal t) = ino t"
  by (cases t) (simp_all split: shape.splits)

lemma rotateLR_hts:
  assumes L: "linked (heap s) q (Nd (Nd ll b (Nd cl c cr)) a r)"
    and D: "distinct (ino (Nd (Nd ll b (Nd cl c cr)) a r))"
    and A: "attached s q side (Nd (Nd ll b (Nd cl c cr)) a r)"
    and H: "hts (heap s) ll" "hts (heap s) cl" "hts (heap s) cr" "hts (heap s) r"
  shows "hts (heap (rotateRight (rotateLeft s b) a)) (Nd (Nd ll b cl) c (Nd cr a r))"
proof -
  let ?l = "Nd ll b (Nd cl c cr)"
  let ?u1 = "Nd (Nd (Nd ll b cl) c cr) a r"
  let ?s1 = "rotateLeft s b"
  have Ll: "linked (heap s) (Some a) ?l" using L by simp
  have Dl: "distinct (ino ?l)" using D by auto
  have Al: "attached s (Some a) True ?l" using attached_left[OF L D] .
  have 1: "hts (heap ?s1) (Nd (Nd ll b cl) c cr)"
    by (rule rotateLeft_hts[OF Ll Dl Al H(1,2,3)])
  have rb: "right (heap s b) = Some c" using L by simp
  have "hts (heap ?s1) r = hts (heap s) r"
  proof (rule hts_cong)
    fix x assume "x \<in> set (ino r)"
    then have "x \<noteq> b" "x \<noteq> c" using D by auto
    then show "height (heap ?s1 x) = height (heap s x)"
      using rb by (intro rotateLeft_height_other) auto
  qed
  then have 2: "hts (heap ?s1) r" using H(4) by simp
  have S: "step_ok s ?s1 q side (Nd ?l a r) ?u1"
    using rotateLeft_child_step[OF L D A, of b] by simp
  have L1: "linked (heap ?s1) q ?u1" using S by (simp add: step_ok_def)
  have D1: "distinct (ino ?u1)" using D by auto
  have A1: "attached ?s1 q side ?u1"
    by (rule step_ok_attached_same[OF S A]) auto
  show ?thesis
    using rotateRight_hts[OF L1 D1 A1 _ _ 2] 1 by simp
qed

lemma rotateRL_hts:
  assumes L: "linked (heap s) q (Nd l a (Nd (Nd cl c cr) b rr))"
    and D: "distinct (ino (Nd l a (Nd (Nd cl c cr) b rr)))"
    and A: "attached s q side (Nd l a (Nd (Nd cl c cr) b rr))"
    and H: "hts (heap s) l" "hts (heap s) cl" "hts (heap s) cr" "hts (heap s) rr"
  shows "hts (heap (rotateLeft (rotateRight s b) a)) (Nd (Nd l a cl) c (Nd cr b rr))"
proof -
  let ?r = "Nd (Nd cl c cr) b rr"
  let ?u1 = "Nd l a (Nd cl c (Nd cr b rr))"
  let ?s1 = "rotateRight s b"
  have Lr: "linked (heap s) (Some a) ?r" using L by simp
  have Dr: "distinct (ino ?r)" using D by auto
  have Ar: "attached s (Some a) False ?r" using attached_right[OF L D] .
  have 1: "hts (heap ?s1) (Nd cl c (Nd cr b rr))"
    by (rule rotateRight_hts[OF Lr Dr Ar H(2,3,4)])
  have lb: "left (heap s b) = Some c" using L by simp
  have "hts (heap ?s1) l = hts (heap s) l"
  proof (rule hts_cong)
    fix x assume "x \<in> set (ino l)"
    then have "x \<noteq> b" "x \<noteq> c" using D by auto
    then show "height (heap ?s1 x) = height (heap s x)"
      using lb by (intro rotateRight_height_other) auto
  qed
  then have 2: "hts (heap ?s1) l" using H(1) by simp
  have S: "step_ok s ?s1 q side (Nd l a ?r) ?u1"
    using rotateRight_child_step[OF L D A, of b] by simp
  have L1: "linked (heap ?s1) q ?u1" using S by (simp add: step_ok_def)
  have D1: "distinct (ino ?u1)" using D by auto
  have A1: "attached ?s1 q side ?u1"
    by (rule step_ok_attached_same[OF S A]) auto
  show ?thesis
    using rotateLeft_hts[OF L1 D1 A1 2] 1 by simp
qed

subsection \<open>One balancing step and stored heights\<close>

lemma ht_pos_Nd: "0 \<le> ht t \<Longrightarrow> \<exists>l a r. t = Nd l a r"
  by (cases t) auto

lemma balanceNode_hts:
  assumes L: "linked (heap s) q (Nd l a r)" and D: "distinct (ino (Nd l a r))"
    and A: "attached s q side (Nd l a r)"
    and H: "hts (heap s) l" "hts (heap s) r"
  shows "bal_shape (updateHeight (heap s) a) a (Nd l a r) = rebal (Nd l a r)"
    and "hts (heap (balanceNode s a)) (rebal (Nd l a r))"
proof -
  let ?u = "Nd l a r"
  define s1 where "s1 = s\<lparr>heap := updateHeight (heap s) a\<rparr>"
  have h1: "heap s1 = updateHeight (heap s) a" by (simp add: s1_def)
  have 0: "step_ok s s1 q side ?u ?u"
    unfolding s1_def using L A by (intro updateHeight_step) auto
  have L1: "linked (heap s1) q ?u" using 0 by (simp add: step_ok_def)
  have A1: "attached s1 q side ?u" using step_ok_attached_same[OF 0 A] by simp
  have nin: "a \<notin> set (ino l)" "a \<notin> set (ino r)" using D by auto
  have tr: "\<And>t. a \<notin> set (ino t) \<Longrightarrow> hts (heap s1) t = hts (heap s) t"
  proof (rule hts_cong)
    fix t x assume "a \<notin> set (ino t)" "x \<in> set (ino t)"
    then have "x \<noteq> a" by blast
    then show "height (heap s1 x) = height (heap s x)" by (simp add: h1 updateHeight_other)
  qed
  have H1: "hts (heap s1) l" "hts (heap s1) r" using H nin by (simp_all add: tr)
  have la: "left (heap s a) = top_of l" "right (heap s a) = top_of r" using L by simp_all
  have la1: "left (heap s1 a) = top_of l" "right (heap s1 a) = top_of r" using L1 by simp_all
  have ha: "height (heap s1 a) = 1 + max (ht l) (ht r)"
    unfolding h1 height_updateHeight_same la using H by (simp add: hts_hgt)
  have bf: "balanceFactor (heap s1) a = ht l - ht r"
    unfolding balanceFactor_def la1 using H1 by (simp add: hts_hgt)
  have bn: "balanceNode s a =
     (if ht l - ht r > 1 then
           (case top_of l of
              None \<Rightarrow> s1
            | Some b \<Rightarrow>
                if balanceFactor (heap s1) b \<ge> 0 then rotateRight s1 a
                else rotateRight (rotateLeft s1 b) a)
         else if ht l - ht r < - 1 then
           (case top_of r of
              None \<Rightarrow> s1
            | Some b \<Rightarrow>
                if balanceFactor (heap s1) b \<le> 0 then rotateLeft s1 a
                else rotateLeft (rotateRight s1 b) a)
         else s1)"
    unfolding balanceNode_def Let_def s1_def[symmetric] bf la1 by simp
  have bs: "bal_shape (heap s1) a ?u =
     (if ht l - ht r > 1 then
        (case top_of l of
           None \<Rightarrow> ?u
         | Some b \<Rightarrow> if balanceFactor (heap s1) b \<ge> 0 then rot_right ?u else rot_right (rot_left_child ?u))
      else if ht l - ht r < - 1 then
        (case top_of r of
           None \<Rightarrow> ?u
         | Some b \<Rightarrow> if balanceFactor (heap s1) b \<le> 0 then rot_left ?u else rot_left (rot_right_child ?u))
      else ?u)"
    unfolding bal_shape_def bf la1 by simp
  have bfl: "\<And>ll b lr. l = Nd ll b lr \<Longrightarrow> balanceFactor (heap s1) b = ht ll - ht lr"
  proof -
    fix ll b lr assume l: "l = Nd ll b lr"
    then have "left (heap s1 b) = top_of ll" "right (heap s1 b) = top_of lr"
      "hts (heap s1) ll" "hts (heap s1) lr" using L1 H1 by simp_all
    then show "balanceFactor (heap s1) b = ht ll - ht lr"
      by (simp add: balanceFactor_def hts_hgt)
  qed
  have bfr: "\<And>rl b rr. r = Nd rl b rr \<Longrightarrow> balanceFactor (heap s1) b = ht rl - ht rr"
  proof -
    fix rl b rr assume r: "r = Nd rl b rr"
    then have "left (heap s1 b) = top_of rl" "right (heap s1 b) = top_of rr"
      "hts (heap s1) rl" "hts (heap s1) rr" using L1 H1 by simp_all
    then show "balanceFactor (heap s1) b = ht rl - ht rr"
      by (simp add: balanceFactor_def hts_hgt)
  qed
  show "bal_shape (updateHeight (heap s) a) a ?u = rebal ?u"
    unfolding h1[symmetric] bs
    by (cases l; cases r) (simp_all add: bfl bfr)
  have same: "hts (heap s1) ?u" using ha H1 by simp
  consider (left) "ht l - ht r > 1" | (right) "ht l - ht r < - 1"
    | (none) "\<not> ht l - ht r > 1" "\<not> ht l - ht r < - 1" by linarith
  then show "hts (heap (balanceNode s a)) (rebal ?u)"
  proof cases
    case left
    then have "0 \<le> ht l" using ht_ge[of r] by linarith
    then obtain ll b lr where l: "l = Nd ll b lr" using ht_pos_Nd by blast
    have Hl: "hts (heap s1) ll" "hts (heap s1) lr" using H1 l by simp_all
    show ?thesis
    proof (cases "ht ll - ht lr \<ge> 0")
      case True
      have "balanceNode s a = rotateRight s1 a"
        unfolding bn using left True l by (simp add: bfl)
      moreover have "rebal ?u = Nd ll b (Nd lr a r)" using left True l by simp
      moreover have "hts (heap (rotateRight s1 a)) (Nd ll b (Nd lr a r))"
        using rotateRight_hts[OF L1[unfolded l] D[unfolded l] A1[unfolded l] Hl H1(2)] .
      ultimately show ?thesis by simp
    next
      case False
      then have "0 \<le> ht lr" using ht_ge[of ll] by linarith
      then obtain cl c cr where lr: "lr = Nd cl c cr" using ht_pos_Nd by blast
      have Hc: "hts (heap s1) cl" "hts (heap s1) cr" using Hl lr by simp_all
      have "balanceNode s a = rotateRight (rotateLeft s1 b) a"
        unfolding bn using left False l by (simp add: bfl)
      moreover have "rebal ?u = Nd (Nd ll b cl) c (Nd cr a r)" using left False l lr by simp
      moreover have "hts (heap (rotateRight (rotateLeft s1 b) a)) (Nd (Nd ll b cl) c (Nd cr a r))"
        using rotateLR_hts[OF L1[unfolded l lr] D[unfolded l lr] A1[unfolded l lr] Hl(1) Hc H1(2)] .
      ultimately show ?thesis by simp
    qed
  next
    case right
    then have "0 \<le> ht r" using ht_ge[of l] by linarith
    then obtain rl b rr where r: "r = Nd rl b rr" using ht_pos_Nd by blast
    have Hr: "hts (heap s1) rl" "hts (heap s1) rr" using H1 r by simp_all
    have nl: "\<not> ht l - ht r > 1" using right by linarith
    show ?thesis
    proof (cases "ht rl - ht rr \<le> 0")
      case True
      have "balanceNode s a = rotateLeft s1 a"
        unfolding bn using right nl True r by (simp add: bfr)
      moreover have "rebal ?u = Nd (Nd l a rl) b rr" using right nl True r by simp
      moreover have "hts (heap (rotateLeft s1 a)) (Nd (Nd l a rl) b rr)"
        using rotateLeft_hts[OF L1[unfolded r] D[unfolded r] A1[unfolded r] H1(1) Hr] .
      ultimately show ?thesis by simp
    next
      case False
      then have "0 \<le> ht rl" using ht_ge[of rr] by linarith
      then obtain cl c cr where rl: "rl = Nd cl c cr" using ht_pos_Nd by blast
      have Hc: "hts (heap s1) cl" "hts (heap s1) cr" using Hr rl by simp_all
      have "balanceNode s a = rotateLeft (rotateRight s1 b) a"
        unfolding bn using right nl False r by (simp add: bfr)
      moreover have "rebal ?u = Nd (Nd l a cl) c (Nd cr b rr)" using right nl False r rl by simp
      moreover have "hts (heap (rotateLeft (rotateRight s1 b) a)) (Nd (Nd l a cl) c (Nd cr b rr))"
        using rotateRL_hts[OF L1[unfolded r rl] D[unfolded r rl] A1[unfolded r rl] H1(1) Hc Hr(2)] .
      ultimately show ?thesis by simp
    qed
  next
    case none
    then have "balanceNode s a = s1" unfolding bn by simp
    moreover have "rebal ?u = ?u" using none by simp
    ultimately show ?thesis using same by simp
  qed
qed

subsection \<open>Balance after one balancing step\<close>

lemma rebal_balanced:
  assumes "\<bar>ht l - ht r\<bar> \<le> 1"
  shows "rebal (Nd l a r) = Nd l a r"
proof -
  have "\<not> ht l - ht r > 1" "\<not> ht l - ht r < - 1" using assms by linarith+
  then show ?thesis by simp
qed

lemma rebal_left_heavy:
  assumes "avl l" "avl r" "ht l - ht r = 2"
  shows "avl (rebal (Nd l a r)) \<and>
    (ht (rebal (Nd l a r)) = ht r + 2 \<or> ht (rebal (Nd l a r)) = ht r + 3)"
proof -
  have "0 \<le> ht l" using assms(3) ht_ge[of r] by linarith
  then obtain ll b lr where l: "l = Nd ll b lr" using ht_pos_Nd by blast
  have al: "avl ll" "avl lr" "\<bar>ht ll - ht lr\<bar> \<le> 1" using assms(1) l by simp_all
  have hl: "1 + max (ht ll) (ht lr) = ht r + 2" using assms(3) l by simp
  show ?thesis
  proof (cases "ht ll - ht lr \<ge> 0")
    case True
    then have e: "rebal (Nd l a r) = Nd ll b (Nd lr a r)" using assms(3) l by simp
    have "ht ll = ht r + 1" using True hl by (simp add: max_def split: if_splits)
    moreover have "ht lr = ht r \<or> ht lr = ht r + 1" using True al(3) calculation by linarith
    ultimately show ?thesis unfolding e using al assms(2) by auto
  next
    case False
    then have "0 \<le> ht lr" using ht_ge[of ll] by linarith
    then obtain cl c cr where lr: "lr = Nd cl c cr" using ht_pos_Nd by blast
    have e: "rebal (Nd l a r) = Nd (Nd ll b cl) c (Nd cr a r)" using assms(3) l lr False by simp
    have 1: "ht lr = ht r + 1" using False hl by (simp add: max_def split: if_splits)
    have 2: "ht ll = ht r" using False al(3) 1 by linarith
    have 3: "avl cl" "avl cr" "\<bar>ht cl - ht cr\<bar> \<le> 1" using al(2) lr by simp_all
    have 4: "max (ht cl) (ht cr) = ht r" using 1 lr by simp
    have 5: "ht r - 1 \<le> ht cl" "ht cl \<le> ht r" "ht r - 1 \<le> ht cr" "ht cr \<le> ht r"
      using 3(3) 4 by (simp_all add: max_def split: if_splits)
    show ?thesis unfolding e using al(1) assms(2) 2 3(1,2) 5 by (simp add: max_def)
  qed
qed

lemma rebal_right_heavy:
  assumes "avl l" "avl r" "ht r - ht l = 2"
  shows "avl (rebal (Nd l a r)) \<and>
    (ht (rebal (Nd l a r)) = ht l + 2 \<or> ht (rebal (Nd l a r)) = ht l + 3)"
proof -
  have "0 \<le> ht r" using assms(3) ht_ge[of l] by linarith
  then obtain rl b rr where r: "r = Nd rl b rr" using ht_pos_Nd by blast
  have ar: "avl rl" "avl rr" "\<bar>ht rl - ht rr\<bar> \<le> 1" using assms(2) r by simp_all
  have hr: "1 + max (ht rl) (ht rr) = ht l + 2" using assms(3) r by simp
  have nl: "\<not> ht l - ht r > 1" "ht l - ht r < - 1" using assms(3) by linarith+
  show ?thesis
  proof (cases "ht rl - ht rr \<le> 0")
    case True
    then have e: "rebal (Nd l a r) = Nd (Nd l a rl) b rr" using nl r by simp
    have "ht rr = ht l + 1" using True hr by (simp add: max_def split: if_splits)
    moreover have "ht rl = ht l \<or> ht rl = ht l + 1" using True ar(3) calculation by linarith
    ultimately show ?thesis unfolding e using ar assms(1) by auto
  next
    case False
    then have "0 \<le> ht rl" using ht_ge[of rr] by linarith
    then obtain cl c cr where rl: "rl = Nd cl c cr" using ht_pos_Nd by blast
    have e: "rebal (Nd l a r) = Nd (Nd l a cl) c (Nd cr b rr)" using nl r rl False by simp
    have 1: "ht rl = ht l + 1" using False hr by (simp add: max_def split: if_splits)
    have 2: "ht rr = ht l" using False ar(3) 1 by linarith
    have 3: "avl cl" "avl cr" "\<bar>ht cl - ht cr\<bar> \<le> 1" using ar(1) rl by simp_all
    have 4: "max (ht cl) (ht cr) = ht l" using 1 rl by simp
    have 5: "ht l - 1 \<le> ht cl" "ht cl \<le> ht l" "ht l - 1 \<le> ht cr" "ht cr \<le> ht l"
      using 3(3) 4 by (simp_all add: max_def split: if_splits)
    show ?thesis unfolding e using ar(2) assms(1) 2 3(1,2) 5 by (simp add: max_def)
  qed
qed

text \<open>After an insertion below a balanced node: one side may have grown by one.\<close>

lemma rebal_after_left:
  assumes "avl l'" "avl r" "ht l' = hl \<or> ht l' = hl + 1" "\<bar>hl - ht r\<bar> \<le> 1"
  shows "avl (rebal (Nd l' a r))"
    and "ht (rebal (Nd l' a r)) = 1 + max hl (ht r) \<or> ht (rebal (Nd l' a r)) = 2 + max hl (ht r)"
proof -
  consider (ok) "\<bar>ht l' - ht r\<bar> \<le> 1" | (heavy) "ht l' - ht r = 2"
    using assms(3,4) by linarith
  then have "avl (rebal (Nd l' a r)) \<and>
    (ht (rebal (Nd l' a r)) = 1 + max hl (ht r) \<or> ht (rebal (Nd l' a r)) = 2 + max hl (ht r))"
  proof cases
    case ok
    then have "rebal (Nd l' a r) = Nd l' a r" by (rule rebal_balanced)
    then show ?thesis using ok assms by (auto simp: max_def)
  next
    case heavy
    from rebal_left_heavy[OF assms(1,2) heavy, of a] show ?thesis
      using heavy assms(3,4) by (auto simp: max_def)
  qed
  then show "avl (rebal (Nd l' a r))"
    and "ht (rebal (Nd l' a r)) = 1 + max hl (ht r) \<or> ht (rebal (Nd l' a r)) = 2 + max hl (ht r)"
    by simp_all
qed

lemma rebal_after_right:
  assumes "avl l" "avl r'" "ht r' = hr \<or> ht r' = hr + 1" "\<bar>ht l - hr\<bar> \<le> 1"
  shows "avl (rebal (Nd l a r'))"
    and "ht (rebal (Nd l a r')) = 1 + max (ht l) hr \<or> ht (rebal (Nd l a r')) = 2 + max (ht l) hr"
proof -
  consider (ok) "\<bar>ht l - ht r'\<bar> \<le> 1" | (heavy) "ht r' - ht l = 2"
    using assms(3,4) by linarith
  then have "avl (rebal (Nd l a r')) \<and>
    (ht (rebal (Nd l a r')) = 1 + max (ht l) hr \<or> ht (rebal (Nd l a r')) = 2 + max (ht l) hr)"
  proof cases
    case ok
    then have "rebal (Nd l a r') = Nd l a r'" by (rule rebal_balanced)
    then show ?thesis using ok assms by (auto simp: max_def)
  next
    case heavy
    from rebal_right_heavy[OF assms(1,2) heavy, of a] show ?thesis
      using heavy assms(3,4) by (auto simp: max_def)
  qed
  then show "avl (rebal (Nd l a r'))"
    and "ht (rebal (Nd l a r')) = 1 + max (ht l) hr \<or> ht (rebal (Nd l a r')) = 2 + max (ht l) hr"
    by simp_all
qed

subsection \<open>Insertion followed by the rebalancing walk\<close>

lemma getPathToRoot_path:
  "linked h q t \<Longrightarrow> x \<in> set (ino t) \<Longrightarrow>
   getPathToRoot h x = (case q of None \<Rightarrow> Some (path_to x t)
                        | Some qa \<Rightarrow> map_option ((@) (path_to x t)) (getPathToRoot h qa))"
proof (induction t arbitrary: q)
  case Tip
  then show ?case by simp
next
  case (Nd l a r)
  have pa: "getPathToRoot h a = (case q of None \<Rightarrow> Some [a]
                          | Some qa \<Rightarrow> map_option ((@) [a]) (getPathToRoot h qa))"
    using Nd.prems(1) by (subst getPathToRoot.simps) (auto split: option.splits simp: map_option_case)
  consider (top) "x = a" | (left) "x \<noteq> a" "x \<in> set (ino l)"
    | (right) "x \<noteq> a" "x \<notin> set (ino l)" "x \<in> set (ino r)"
    using Nd.prems(2) by auto
  then show ?case
  proof cases
    case top
    then show ?thesis using pa by (cases q) simp_all
  next
    case left
    have "getPathToRoot h x = map_option ((@) (path_to x l)) (getPathToRoot h a)"
      using Nd.IH(1)[OF _ left(2), of "Some a"] Nd.prems(1) by simp
    then show ?thesis using pa left
      by (auto split: option.splits simp: option.map_comp comp_def)
  next
    case right
    have "getPathToRoot h x = map_option ((@) (path_to x r)) (getPathToRoot h a)"
      using Nd.IH(2)[OF _ right(3), of "Some a"] Nd.prems(1) by simp
    then show ?thesis using pa right
      by (auto split: option.splits simp: option.map_comp comp_def)
  qed
qed

declare rebal.simps [simp del]

lemma in_bst_ins: "n \<in> set (ino (bst_ins \<kappa> n t))"
  by (induction t) auto

lemma step_ok_frame:
  "step_ok s s' q side u u' \<Longrightarrow> b \<notin> set (ino u) \<Longrightarrow> b \<notin> set (ino u') \<Longrightarrow> Some b \<noteq> q \<Longrightarrow>
   heap s' b = heap s b"
  by (simp add: step_ok_def)

lemma insert_rebalance:
  assumes "linked (heap s) q (bst_ins \<kappa> n u0)" "distinct (ino (bst_ins \<kappa> n u0))"
    "attached s q side (bst_ins \<kappa> n u0)"
    "\<kappa> n \<notin> \<kappa> ` set (ino u0)" "hts (heap s) u0" "avl u0"
  shows "\<exists>u'. step_ok s (fold (\<lambda>x t. balanceNode t x) (path_to n (bst_ins \<kappa> n u0)) s) q side
                 (bst_ins \<kappa> n u0) u'
      \<and> ino u' = ino (bst_ins \<kappa> n u0)
      \<and> hts (heap (fold (\<lambda>x t. balanceNode t x) (path_to n (bst_ins \<kappa> n u0)) s)) u'
      \<and> avl u' \<and> (ht u' = ht u0 \<or> ht u' = ht u0 + 1)"
  using assms
proof (induction u0 arbitrary: q side)
  case Tip
  let ?u = "Nd Tip n Tip"
  have L: "linked (heap s) q ?u" and D: "distinct (ino ?u)" and A: "attached s q side ?u"
    using Tip.prems by simp_all
  have S: "step_ok s (balanceNode s n) q side ?u (bal_shape (updateHeight (heap s) n) n ?u)"
    by (rule balanceNode_step[OF L D A]) simp
  have B: "bal_shape (updateHeight (heap s) n) n ?u = rebal ?u"
    "hts (heap (balanceNode s n)) (rebal ?u)"
    using balanceNode_hts[OF L D A] by simp_all
  have R: "rebal ?u = ?u" by (simp add: rebal.simps)
  show ?case
    using S B unfolding R by (intro exI[of _ ?u]) simp
next
  case (Nd l a r)
  let ?bal = "\<lambda>x t. balanceNode t x"
  have ka: "\<kappa> n \<noteq> \<kappa> a" and kl: "\<kappa> n \<notin> \<kappa> ` set (ino l)" and kr: "\<kappa> n \<notin> \<kappa> ` set (ino r)"
    using Nd.prems(4) by auto
  have Hl: "hts (heap s) l" and Hr: "hts (heap s) r" and al: "avl l" and ar: "avl r"
    and bl: "\<bar>ht l - ht r\<bar> \<le> 1"
    using Nd.prems(5,6) by simp_all
  consider (lt) "\<kappa> n < \<kappa> a" | (gt) "\<kappa> n > \<kappa> a" using ka by linarith
  then show ?case
  proof cases
    case lt
    let ?l1 = "bst_ins \<kappa> n l"
    let ?u1 = "Nd ?l1 a r"
    have u1: "bst_ins \<kappa> n (Nd l a r) = ?u1" using lt ka by simp
    have L: "linked (heap s) q ?u1" and D: "distinct (ino ?u1)" and A: "attached s q side ?u1"
      using Nd.prems(1,2,3) unfolding u1 by simp_all
    have Ll: "linked (heap s) (Some a) ?l1" using L by simp
    have Dl: "distinct (ino ?l1)" using D by simp
    have Al: "attached s (Some a) True ?l1" by (rule attached_left[OF L D])
    define sm where "sm = fold ?bal (path_to n ?l1) s"
    from Nd.IH(1)[OF Ll Dl Al kl Hl al] obtain l' where
      l': "step_ok s sm (Some a) True ?l1 l'" "ino l' = ino ?l1" "hts (heap sm) l'" "avl l'"
        "ht l' = ht l \<or> ht l' = ht l + 1"
      unfolding sm_def by blast
    have nl: "n \<in> set (ino ?l1)" by (rule in_bst_ins)
    then have na: "n \<noteq> a" using D by auto
    have pt: "path_to n ?u1 = path_to n ?l1 @ [a]" using nl na by simp
    have fo: "fold ?bal (path_to n ?u1) s = balanceNode sm a"
      unfolding pt sm_def by simp
    have S2: "step_ok s sm q side ?u1 (Nd l' a r)"
    proof (rule step_lift_left[OF L D A l'(1)])
      show "set (ino l') \<inter> insert a (set (ino r)) = {}" using D l'(2) by auto
      show "set_option q \<inter> set (ino l') = {}" using attached_set_option[OF A] l'(2) by auto
    qed
    have L2: "linked (heap sm) q (Nd l' a r)" using S2 by (simp add: step_ok_def)
    have D2: "distinct (ino (Nd l' a r))" using D l'(2) by simp
    have A2: "attached sm q side (Nd l' a r)"
      by (rule step_ok_attached_same[OF S2 A]) (simp add: l'(2))
    have "hts (heap sm) r = hts (heap s) r"
    proof (rule hts_cong)
      fix x assume x: "x \<in> set (ino r)"
      then have "x \<notin> set (ino ?l1)" "x \<notin> set (ino l')" "Some x \<noteq> Some a"
        using D l'(2) by auto
      then have "heap sm x = heap s x" by (rule step_ok_frame[OF l'(1)])
      then show "height (heap sm x) = height (heap s x)" by simp
    qed
    then have Hr2: "hts (heap sm) r" using Hr by simp
    have S3: "step_ok sm (balanceNode sm a) q side (Nd l' a r)
        (bal_shape (updateHeight (heap sm) a) a (Nd l' a r))"
      by (rule balanceNode_step[OF L2 D2 A2]) simp
    note B = balanceNode_hts[OF L2 D2 A2 l'(3) Hr2]
    have S4: "step_ok s (balanceNode sm a) q side ?u1 (rebal (Nd l' a r))"
      using step_ok_trans[OF S2 S3] unfolding B(1) by auto
    note R = rebal_after_left[OF l'(4) ar l'(5) bl, of a]
    have I: "ino (rebal (Nd l' a r)) = ino ?u1" using l'(2) by simp
    have ht0: "ht (Nd l a r) = 1 + max (ht l) (ht r)" by simp
    have HT: "ht (rebal (Nd l' a r)) = ht (Nd l a r) \<or> ht (rebal (Nd l' a r)) = ht (Nd l a r) + 1"
      using R(2) unfolding ht0 by linarith
    show ?thesis
      unfolding u1 fo using S4 I B(2) R(1) HT by (intro exI[of _ "rebal (Nd l' a r)"] conjI)
  next
    case gt
    let ?r1 = "bst_ins \<kappa> n r"
    let ?u1 = "Nd l a ?r1"
    have u1: "bst_ins \<kappa> n (Nd l a r) = ?u1" using gt ka by simp
    have L: "linked (heap s) q ?u1" and D: "distinct (ino ?u1)" and A: "attached s q side ?u1"
      using Nd.prems(1,2,3) unfolding u1 by simp_all
    have Lr: "linked (heap s) (Some a) ?r1" using L by simp
    have Dr: "distinct (ino ?r1)" using D by simp
    have Ar: "attached s (Some a) False ?r1" by (rule attached_right[OF L D])
    define sm where "sm = fold ?bal (path_to n ?r1) s"
    from Nd.IH(2)[OF Lr Dr Ar kr Hr ar] obtain r' where
      r': "step_ok s sm (Some a) False ?r1 r'" "ino r' = ino ?r1" "hts (heap sm) r'" "avl r'"
        "ht r' = ht r \<or> ht r' = ht r + 1"
      unfolding sm_def by blast
    have nr: "n \<in> set (ino ?r1)" by (rule in_bst_ins)
    then have na: "n \<noteq> a" "n \<notin> set (ino l)" using D by auto
    have pt: "path_to n ?u1 = path_to n ?r1 @ [a]" using na by simp
    have fo: "fold ?bal (path_to n ?u1) s = balanceNode sm a"
      unfolding pt sm_def by simp
    have S2: "step_ok s sm q side ?u1 (Nd l a r')"
    proof (rule step_lift_right[OF L D A r'(1)])
      show "set (ino r') \<inter> insert a (set (ino l)) = {}" using D r'(2) by auto
      show "set_option q \<inter> set (ino r') = {}" using attached_set_option[OF A] r'(2) by auto
    qed
    have L2: "linked (heap sm) q (Nd l a r')" using S2 by (simp add: step_ok_def)
    have D2: "distinct (ino (Nd l a r'))" using D r'(2) by simp
    have A2: "attached sm q side (Nd l a r')"
      by (rule step_ok_attached_same[OF S2 A]) (simp add: r'(2))
    have "hts (heap sm) l = hts (heap s) l"
    proof (rule hts_cong)
      fix x assume x: "x \<in> set (ino l)"
      then have "x \<notin> set (ino ?r1)" "x \<notin> set (ino r')" "Some x \<noteq> Some a"
        using D r'(2) by auto
      then have "heap sm x = heap s x" by (rule step_ok_frame[OF r'(1)])
      then show "height (heap sm x) = height (heap s x)" by simp
    qed
    then have Hl2: "hts (heap sm) l" using Hl by simp
    have S3: "step_ok sm (balanceNode sm a) q side (Nd l a r')
        (bal_shape (updateHeight (heap sm) a) a (Nd l a r'))"
      by (rule balanceNode_step[OF L2 D2 A2]) simp
    note B = balanceNode_hts[OF L2 D2 A2 Hl2 r'(3)]
    have S4: "step_ok s (balanceNode sm a) q side ?u1 (rebal (Nd l a r'))"
      using step_ok_trans[OF S2 S3] unfolding B(1) by auto
    note R = rebal_after_right[OF al r'(4) r'(5) bl, of a]
    have I: "ino (rebal (Nd l a r')) = ino ?u1" using r'(2) by simp
    have ht0: "ht (Nd l a r) = 1 + max (ht l) (ht r)" by simp
    have HT: "ht (rebal (Nd l a r')) = ht (Nd l a r) \<or> ht (rebal (Nd l a r')) = ht (Nd l a r) + 1"
      using R(2) unfolding ht0 by linarith
    show ?thesis
      unfolding u1 fo using S4 I B(2) R(1) HT by (intro exI[of _ "rebal (Nd l a r')"] conjI)
  qed
qed

subsection \<open>add of a new key keeps the balance\<close>

lemma bst_insert_heights_aux:
  "bst_insert s cur n = Some y \<Longrightarrow>
   snd y \<longrightarrow> (\<forall>b. height (heap (fst y) b) = height (heap s b))"
proof (rule bst_insert.raw_induct[where
      P = "\<lambda>s cur n y. snd y \<longrightarrow> (\<forall>b. height (heap (fst y) b) = height (heap s b))"])
  fix f :: "'a TreeMultimap \<Rightarrow> addr \<Rightarrow> addr \<Rightarrow> ('a TreeMultimap \<times> bool) option"
    and s cur n y
  assume IH: "\<And>s cur n y. f s cur n = Some y \<Longrightarrow>
      snd y \<longrightarrow> (\<forall>b. height (heap (fst y) b) = height (heap s b))"
    and B: "(let h = heap s
      in if key (h n) = key (h cur)
         then Some (fst (replaceNode s cur n), False)
         else if key (h n) < key (h cur)
              then case left (h cur) of
                   None \<Rightarrow> Some (s\<lparr>heap := set_left h cur (Some n), tsize := tsize s + 1\<rparr>, True)
                   | Some l \<Rightarrow> f s l n
              else case right (h cur) of
                   None \<Rightarrow> Some (s\<lparr>heap := set_right h cur (Some n), tsize := tsize s + 1\<rparr>, True)
                   | Some r \<Rightarrow> f s r n) = Some y"
  show "snd y \<longrightarrow> (\<forall>b. height (heap (fst y) b) = height (heap s b))"
    using B IH by (auto simp: Let_def split: if_splits option.splits)
qed

lemma bst_insert_heights:
  "bst_insert s cur n = Some (s1, True) \<Longrightarrow> height (heap s1 b) = height (heap s b)"
  using bst_insert_heights_aux[of s cur n "(s1, True)"] by simp

lemma wf_tree_avl_unique:
  "wf_tree s t \<Longrightarrow> bst_inv s t' \<Longrightarrow> t = t'"
  by (auto simp: bst_inv_def wf_tree_def intro: linked_unique)

lemma super_add_new_avl:
  assumes I: "bst_inv s t" and N: "n \<notin> set (ino t)" "n < fresh s"
    "left (heap s n) = None" "right (heap s n) = None"
    and F: "bst_find (\<lambda>a. key (heap s a)) (key (heap s n)) t = None"
    and H: "hts (heap s) t" and V: "avl t"
  shows "\<exists>s' t'. super_add s n = Some (s', Some n) \<and> wf_tree s' t' \<and> hts (heap s') t' \<and> avl t'"
proof -
  let ?\<kappa> = "\<lambda>a. key (heap s a)"
  let ?t1 = "bst_ins ?\<kappa> n t"
  let ?bal = "\<lambda>x t. balanceNode t x"
  have W: "linked (heap s) None t" "root s = top_of t" "distinct (ino t)"
    and S: "sorted_wrt (<) (map ?\<kappa> (ino t))"
    using I by (simp_all add: bst_inv_def wf_tree_def)
  have K: "?\<kappa> n \<notin> ?\<kappa> ` set (ino t)" using F bst_find_None[OF S] by simp
  have d1: "distinct (ino ?t1)"
    using bst_ins_new[OF F S] W(3) N(1) by auto
  have n1: "n \<in> set (ino ?t1)" by (rule in_bst_ins)
  have "\<exists>s1. (case root s of
            None \<Rightarrow> Some ((setRoot s (Some n))\<lparr>tsize := tsize s + 1\<rparr>, True)
          | Some r \<Rightarrow> bst_insert s r n) = Some (s1, True)
        \<and> linked (heap s1) None ?t1 \<and> root s1 = top_of ?t1
        \<and> (\<forall>b\<in>set (ino t). height (heap s1 b) = height (heap s b))"
  proof (cases t)
    case Tip
    define s1 where "s1 = (setRoot s (Some n))\<lparr>tsize := tsize s + 1\<rparr>"
    have h1: "heap s1 = (heap s)(n := (heap s n)\<lparr>parent := None\<rparr>)" "root s1 = Some n"
      by (simp_all add: s1_def setRoot_def Let_def)
    have "linked (heap s1) None (Nd Tip n Tip)" using N h1 by simp
    then show ?thesis using Tip W(2) h1 by (intro exI[of _ s1]) (simp add: s1_def)
  next
    case (Nd l cur r)
    have cur: "top_of t = Some cur" using Nd by simp
    have "\<exists>s'. bst_insert s cur n = Some (s', bst_find ?\<kappa> (?\<kappa> n) t = None)
       \<and> step_ok s s' None True t (bst_ins ?\<kappa> n t)
       \<and> tsize s' = tsize s + (if bst_find ?\<kappa> (?\<kappa> n) t = None then 1 else 0)
       \<and> tcount s' = tcount s
       \<and> (\<forall>b. payload (heap s' b) =
             (if b = n then
                (case bst_find ?\<kappa> (?\<kappa> n) t of
                   None \<Rightarrow> payload (heap s n)
                 | Some old \<Rightarrow> (key (heap s n), val (heap s n), count (heap s old) + count (heap s n)))
              else payload (heap s b)))"
      using W N cur by (intro bst_insert_step) (auto simp: attached_def)
    then obtain s1 where s1: "bst_insert s cur n = Some (s1, True)"
       "step_ok s s1 None True t ?t1"
      using F by auto
    have hh: "\<And>b. height (heap s1 b) = height (heap s b)"
      by (rule bst_insert_heights[OF s1(1)])
    show ?thesis
      using s1 W(2) cur hh by (intro exI[of _ s1]) (simp add: step_ok_def)
  qed
  then obtain s1 where s1: "(case root s of
            None \<Rightarrow> Some ((setRoot s (Some n))\<lparr>tsize := tsize s + 1\<rparr>, True)
          | Some r \<Rightarrow> bst_insert s r n) = Some (s1, True)"
      "linked (heap s1) None ?t1" "root s1 = top_of ?t1"
      "\<forall>b\<in>set (ino t). height (heap s1 b) = height (heap s b)" by blast
  have A1: "attached s1 None True ?t1" using s1(3) by (simp add: attached_def)
  have "hts (heap s1) t = hts (heap s) t" using s1(4) by (intro hts_cong) simp
  then have H1: "hts (heap s1) t" using H by simp
  define s' where "s' = fold ?bal (path_to n ?t1) s1"
  from insert_rebalance[OF s1(2) d1 A1 K H1 V] obtain u' where
    u': "step_ok s1 s' None True ?t1 u'" "ino u' = ino ?t1" "hts (heap s') u'" "avl u'"
    unfolding s'_def by blast
  have gp: "getPathToRoot (heap s1) n = Some (path_to n ?t1)"
    using getPathToRoot_path[OF s1(2) n1] by simp
  have bp: "balancePath s1 n = Some s'" by (simp add: balancePath_def gp s'_def)
  have sa: "super_add s n = Some (s', Some n)"
    using s1(1) bp by (simp add: super_add_def)
  have wf: "wf_tree s' u'"
    using u'(1,2) d1 by (simp add: wf_tree_def step_ok_def)
  show ?thesis using sa wf u'(3,4) by blast
qed

lemma add_key_new_avl:
  assumes I: "avl_inv s t" and F: "k \<notin> (\<lambda>a. key (heap s a)) ` set (ino t)"
  shows "\<exists>s' t'. add s (Entry (Some k) v) c = Some (s', Some (fresh s)) \<and> avl_inv s' t'
     \<and> set (ino t') = insert (fresh s) (set (ino t))
     \<and> fresh s' = Suc (fresh s)
     \<and> (\<forall>b. payload (heap s' b) = (if b = fresh s then (k, v, c) else payload (heap s b)))"
proof -
  have B: "bst_inv s t" and H: "hts (heap s) t" and V: "avl t"
    using I by (simp_all add: avl_inv_def)
  from add_key_new[OF B F, of v c] obtain s' t' where
    r: "add s (Entry (Some k) v) c = Some (s', Some (fresh s))" "bst_inv s' t'"
      "\<exists>pre suf. ino t = pre @ suf \<and> ino t' = pre @ fresh s # suf"
      "fresh s' = Suc (fresh s)"
      "\<forall>b. payload (heap s' b) = (if b = fresh s then (k, v, c) else payload (heap s b))"
    by blast
  define s1 where "s1 = fst (createNode s k v c)"
  define n where "n = fresh s"
  have c: "fresh s1 = Suc (fresh s)" "heap s1 = (heap s)(n := new_node k v c)"
    by (simp_all add: s1_def n_def createNode_def)
  have I1: "bst_inv s1 t" unfolding s1_def by (rule bst_inv_createNode[OF B])
  have nt: "n \<notin> set (ino t)" using B by (auto simp: bst_inv_def n_def)
  have N: "n < fresh s1" "left (heap s1 n) = None" "right (heap s1 n) = None"
    "key (heap s1 n) = k"
    by (simp_all add: c n_def new_node_def)
  have S: "sorted_wrt (<) (map (\<lambda>a. key (heap s a)) (ino t))" using B by (simp add: bst_inv_def)
  have "bst_find (\<lambda>a. key (heap s1 a)) k t = bst_find (\<lambda>a. key (heap s a)) k t"
    using nt by (intro bst_find_cong) (auto simp: c)
  then have F1: "bst_find (\<lambda>a. key (heap s1 a)) (key (heap s1 n)) t = None"
    using F bst_find_None[OF S, of k] N by simp
  have "hts (heap s1) t = hts (heap s) t"
    using nt by (intro hts_cong) (auto simp: c)
  then have H1: "hts (heap s1) t" using H by simp
  from super_add_new_avl[OF I1 nt N(1,2,3) F1 H1 V] obtain s2 t2 where
    s2: "super_add s1 n = Some (s2, Some n)" "wf_tree s2 t2" "hts (heap s2) t2" "avl t2"
    by blast
  have "add s (Entry (Some k) v) c = Some (s2\<lparr>tcount := tcount s2 + count (heap s1 n)\<rparr>, Some n)"
    unfolding add_Entry_def2 s1_def[symmetric] n_def[symmetric]
    using s2(1) by (simp add: add_node_def2)
  then have e: "s' = s2\<lparr>tcount := tcount s2 + count (heap s1 n)\<rparr>" using r(1) by simp
  have "wf_tree s' t2" using s2(2) by (simp add: e wf_tree_def)
  then have "t2 = t'" using r(2) by (rule wf_tree_avl_unique)
  then have "hts (heap s') t'" "avl t'" using s2(3,4) by (simp_all add: e)
  then have "avl_inv s' t'" using r(2) by (simp add: avl_inv_def)
  moreover have "set (ino t') = insert (fresh s) (set (ino t))" using r(3) by auto
  ultimately show ?thesis using r(1,4,5) by blast
qed

subsection \<open>The content of the rebuilt tree\<close>

lemma avl_scan_linked: "linked h q t \<Longrightarrow> avl_scan h (top_of t) = Some (ht t, avl t)"
proof (induction t arbitrary: q)
  case Tip
  then show ?case by (subst avl_scan.simps) simp
next
  case (Nd l a r)
  have l: "avl_scan h (left (h a)) = Some (ht l, avl l)"
    using Nd.IH(1)[of "Some a"] Nd.prems by simp
  have r: "avl_scan h (right (h a)) = Some (ht r, avl r)"
    using Nd.IH(2)[of "Some a"] Nd.prems by simp
  show ?case
    by (subst avl_scan.simps) (auto simp: l r)
qed

lemma avl_inv_balanced: "avl_inv s t \<Longrightarrow> isAVLBalanced s = Some True"
  using avl_scan_linked[of "heap s" None t]
  by (simp add: avl_inv_def bst_inv_def wf_tree_def isAVLBalanced_def)

lemma sorted_fst_unique:
  "sorted_wrt (<) (map fst xs) \<Longrightarrow> sorted_wrt (<) (map fst ys) \<Longrightarrow> set xs = set ys \<Longrightarrow>
   xs = (ys :: (int \<times> 'b) list)"
proof (induction xs arbitrary: ys)
  case Nil
  then show ?case by simp
next
  case (Cons x xs)
  then obtain y ys' where ys: "ys = y # ys'" by (cases ys) auto
  have sx: "\<forall>z\<in>set xs. fst x < fst z" and sx': "sorted_wrt (<) (map fst xs)"
    using Cons.prems(1) by auto
  have sy: "\<forall>z\<in>set ys'. fst y < fst z" and sy': "sorted_wrt (<) (map fst ys')"
    using Cons.prems(2) ys by auto
  have e: "insert x (set xs) = insert y (set ys')" using Cons.prems(3) ys by simp
  have xy: "x = y"
  proof (rule ccontr)
    assume n: "x \<noteq> y"
    then have "x \<in> set ys'" "y \<in> set xs" using e by auto
    then have "fst y < fst x" "fst x < fst y" using sx sy by auto
    then show False by simp
  qed
  have "x \<notin> set xs" "y \<notin> set ys'" using sx sy by auto
  then have "set xs = set ys'" using e xy by auto
  then have "xs = ys'" using Cons.IH[OF sx' sy'] by simp
  then show ?case using xy ys by simp
qed

lemma run_adds_content:
  assumes "avl_inv s t" and "distinct ms" and "\<forall>m\<in>set ms. 0 \<le> m \<and> m < int (length sn)"
    and "\<forall>a\<in>set sn. a < F0" and "F0 \<le> fresh s" and "\<forall>a\<in>set (ino t). F0 \<le> a"
    and "\<forall>a\<in>set sn. payload (heap s a) = P a"
    and "distinct (map (\<lambda>a. fst (P a)) sn)"
    and "(\<lambda>a. payload (heap s a)) ` set (ino t) = (\<lambda>m. P (sn ! nat m)) ` D"
    and "D \<inter> set ms = {}" and "\<forall>m\<in>D. 0 \<le> m \<and> m < int (length sn)"
  shows "\<exists>s' t'. run_adds sn ms s = Some s' \<and> avl_inv s' t'
     \<and> (\<lambda>a. payload (heap s' a)) ` set (ino t') = (\<lambda>m. P (sn ! nat m)) ` (D \<union> set ms)"
  using assms
proof (induction ms arbitrary: s t D)
  case Nil
  then show ?case by auto
next
  case (Cons m ms)
  note I = Cons.prems(1)
  have B: "bst_inv s t" using I by (simp add: avl_inv_def)
  have m: "0 \<le> m" "m < int (length sn)" "m \<notin> set ms" "m \<notin> D"
    using Cons.prems(2,3,10) by auto
  define a0 where "a0 = sn ! nat m"
  have a0: "a0 \<in> set sn" using m by (simp add: a0_def)
  obtain k v c where kvc: "P a0 = (k, v, c)" by (cases "P a0") auto
  have pa: "payload (heap s a0) = (k, v, c)" using Cons.prems(7) a0 kvc by simp
  then have mid: "key (heap s a0) = k" "val (heap s a0) = v" "count (heap s a0) = c"
    by (simp_all add: payload_def)
  have am: "add_mid s sn m = map_option fst (add s (Entry (Some k) v) c)"
    using m mid by (simp add: add_mid_def Let_def a0_def)
  have knew: "k \<notin> (\<lambda>a. key (heap s a)) ` set (ino t)"
  proof
    assume "k \<in> (\<lambda>a. key (heap s a)) ` set (ino t)"
    then obtain b where b: "b \<in> set (ino t)" "key (heap s b) = k" by auto
    then have "payload (heap s b) \<in> (\<lambda>m. P (sn ! nat m)) ` D" using Cons.prems(9) by blast
    then obtain m' where m': "m' \<in> D" "payload (heap s b) = P (sn ! nat m')" by auto
    then have r: "0 \<le> m'" "m' < int (length sn)" using Cons.prems(11) by auto
    have "fst (P (sn ! nat m')) = k" using m'(2) b(2) by (simp add: payload_def) (metis fst_conv)
    then have "map (\<lambda>a. fst (P a)) sn ! nat m' = map (\<lambda>a. fst (P a)) sn ! nat m"
      using r m kvc by (simp add: a0_def)
    moreover have "nat m' < length (map (\<lambda>a. fst (P a)) sn)" "nat m < length (map (\<lambda>a. fst (P a)) sn)"
      using r m by simp_all
    ultimately have "nat m' = nat m"
      using nth_eq_iff_index_eq[OF Cons.prems(8)] by blast
    then have "m' = m" using r m by simp
    then show False using m'(1) m(4) by simp
  qed
  from add_key_new_avl[OF I knew, of v c] obtain s1 t1 where
    s1: "add s (Entry (Some k) v) c = Some (s1, Some (fresh s))" "avl_inv s1 t1"
      "set (ino t1) = insert (fresh s) (set (ino t))" "fresh s1 = Suc (fresh s)"
      "\<forall>b. payload (heap s1 b) = (if b = fresh s then (k, v, c) else payload (heap s b))"
    by blast
  have am1: "add_mid s sn m = Some s1" using am s1(1) by simp
  have lt: "\<forall>a\<in>set (ino t). a < fresh s" using B by (simp add: bst_inv_def)
  have p4: "\<forall>a\<in>set sn. a < F0" by (rule Cons.prems(4))
  have p5: "F0 \<le> fresh s1" using Cons.prems(5) s1(4) by simp
  have p6: "\<forall>a\<in>set (ino t1). F0 \<le> a" using Cons.prems(5,6) s1(3) by auto
  have p7: "\<forall>a\<in>set sn. payload (heap s1 a) = P a"
    using Cons.prems(4,5,7) s1(5) by auto
  have img: "(\<lambda>a. payload (heap s1 a)) ` set (ino t) = (\<lambda>a. payload (heap s a)) ` set (ino t)"
    using lt s1(5) by (intro image_cong) auto
  have pf: "payload (heap s1 (fresh s)) = P (sn ! nat m)" using s1(5) kvc by (simp add: a0_def)
  have "(\<lambda>a. payload (heap s1 a)) ` set (ino t1)
      = insert (payload (heap s1 (fresh s))) ((\<lambda>a. payload (heap s1 a)) ` set (ino t))"
    unfolding s1(3) by (rule image_insert)
  also have "\<dots> = insert (P (sn ! nat m)) ((\<lambda>m. P (sn ! nat m)) ` D)"
    unfolding pf img Cons.prems(9) ..
  also have "\<dots> = (\<lambda>m. P (sn ! nat m)) ` (insert m D)" by (rule image_insert[symmetric])
  finally have p9: "(\<lambda>a. payload (heap s1 a)) ` set (ino t1) = (\<lambda>m. P (sn ! nat m)) ` (insert m D)" .
  have p10: "insert m D \<inter> set ms = {}" using Cons.prems(10) m(3) by auto
  have p11: "\<forall>m\<in>insert m D. 0 \<le> m \<and> m < int (length sn)" using Cons.prems(11) m by auto
  have p2: "distinct ms" and p3: "\<forall>m\<in>set ms. 0 \<le> m \<and> m < int (length sn)"
    using Cons.prems(2,3) by auto
  from Cons.IH[OF s1(2) p2 p3 p4 p5 p6 p7 Cons.prems(8) p9 p10 p11] obtain s' t' where
    "run_adds sn ms s1 = Some s'" "avl_inv s' t'"
    "(\<lambda>a. payload (heap s' a)) ` set (ino t') = (\<lambda>m. P (sn ! nat m)) ` (insert m D \<union> set ms)"
    by blast
  then show ?case using am1 by (intro exI[of _ s'] exI[of _ t']) simp
qed

subsection \<open>perfectlyBalance rebuilds a balanced tree\<close>

lemma avl_inv_clear: "bst_inv s t \<Longrightarrow> avl_inv (clear s) Tip"
  using bst_inv_clear[of s t] by (simp add: avl_inv_def)

lemma clear_fields [simp]: "heap (clear s) = heap s" "fresh (clear s) = fresh s"
  by (simp_all add: clear_def super_clear_def)

lemma perfectlyBalance_rebuild:
  assumes I: "bst_inv s t" and T: "t \<noteq> Tip"
  shows "\<exists>s' t'. perfectlyBalance s iterationType = Some (s', True) \<and> avl_inv s' t'
     \<and> (\<lambda>a. payload (heap s' a)) ` set (ino t') = (\<lambda>a. payload (heap s a)) ` set (ino t)"
proof -
  let ?sn = "ino t"
  let ?n = "int (length ?sn)"
  let ?ms = "mid_order 0 (?n - 1)"
  let ?P = "\<lambda>a. payload (heap s a)"
  have S: "sorted_wrt (<) (map (\<lambda>a. key (heap s a)) ?sn)" and Al: "\<forall>a\<in>set ?sn. a < fresh s"
    using I by (simp_all add: bst_inv_def)
  have "distinct (map (\<lambda>a. key (heap s a)) ?sn)"
    using S strict_sorted_iff by blast
  then have dk: "distinct (map (\<lambda>a. fst (?P a)) ?sn)" by (simp add: payload_def)
  have r: "\<forall>m\<in>set ?ms. 0 \<le> m \<and> m < int (length ?sn)" by (auto simp: set_mid_order)
  have "\<exists>s' t'. run_adds ?sn ?ms (clear s) = Some s' \<and> avl_inv s' t'
     \<and> (\<lambda>a. payload (heap s' a)) ` set (ino t') = (\<lambda>m. ?P (?sn ! nat m)) ` ({} \<union> set ?ms)"
  proof (rule run_adds_content[where ?F0.0 = "fresh s"])
    show "avl_inv (clear s) Tip" by (rule avl_inv_clear[OF I])
    show "distinct ?ms" by (rule distinct_mid_order)
    show "\<forall>m\<in>set ?ms. 0 \<le> m \<and> m < int (length ?sn)" by (rule r)
    show "\<forall>a\<in>set ?sn. a < fresh s" by (rule Al)
    show "distinct (map (\<lambda>a. fst (?P a)) ?sn)" by (rule dk)
  qed simp_all
  then obtain s' t' where
    s': "run_adds ?sn ?ms (clear s) = Some s'" "avl_inv s' t'"
      "(\<lambda>a. payload (heap s' a)) ` set (ino t') = (\<lambda>m. ?P (?sn ! nat m)) ` set ?ms"
    by auto
  have "(\<lambda>m. ?P (?sn ! nat m)) ` set ?ms = ?P ` set ?sn"
  proof (intro set_eqI iffI)
    fix x assume "x \<in> (\<lambda>m. ?P (?sn ! nat m)) ` set ?ms"
    then obtain m where "m \<in> set ?ms" "x = ?P (?sn ! nat m)" by auto
    then show "x \<in> ?P ` set ?sn" using r by (auto intro!: imageI nth_mem)
  next
    fix x assume "x \<in> ?P ` set ?sn"
    then obtain a where a: "a \<in> set ?sn" "x = ?P a" by auto
    then obtain i where i: "i < length ?sn" "?sn ! i = a" by (auto simp: in_set_conv_nth)
    then have "int i \<in> set ?ms" by (auto simp: set_mid_order)
    then show "x \<in> (\<lambda>m. ?P (?sn ! nat m)) ` set ?ms" using a(2) i(2) by force
  qed
  then have c: "(\<lambda>a. payload (heap s' a)) ` set (ino t') = ?P ` set ?sn" using s'(3) by simp
  have "perfectlyBalance s iterationType = Some (s', True)"
    using T s'(1) by (simp add: perfectlyBalance_run[OF I])
  then show ?thesis using s'(2) c by blast
qed

subsection \<open>The node that replaces an existing node\<close>

lemma linked_no_self:
  "linked h q t \<Longrightarrow> distinct (ino t) \<Longrightarrow> set_option q \<inter> set (ino t) = {} \<Longrightarrow> a \<in> set (ino t) \<Longrightarrow>
   parent (h a) \<noteq> Some a \<and> left (h a) \<noteq> Some a \<and> right (h a) \<noteq> Some a"
proof (induction t arbitrary: q)
  case Tip
  then show ?case by simp
next
  case (Nd l x r)
  consider "a = x" | "a \<in> set (ino l)" | "a \<in> set (ino r)" using Nd.prems(4) by auto
  then show ?case
  proof cases
    case 1
    have "parent (h x) = q" "left (h x) = top_of l" "right (h x) = top_of r"
      using Nd.prems(1) by simp_all
    moreover have "q \<noteq> Some x" using Nd.prems(3) by auto
    moreover have "x \<notin> set (ino l)" "x \<notin> set (ino r)" using Nd.prems(2) by auto
    ultimately show ?thesis using 1 by (simp add: top_of_neq)
  next
    case 2
    have "set_option (Some x) \<inter> set (ino l) = {}" using Nd.prems(2) by auto
    then show ?thesis using Nd.IH(1)[of "Some x"] Nd.prems(1,2) 2 by simp
  next
    case 3
    have "set_option (Some x) \<inter> set (ino r) = {}" using Nd.prems(2) by auto
    then show ?thesis using Nd.IH(2)[of "Some x"] Nd.prems(1,2) 3 by simp
  qed
qed

text \<open>the store after a node \<open>old\<close> has been replaced by a node \<open>n\<close>\<close>

lemma super_replaceNode_fields:
  assumes "n \<noteq> old" "parent (heap s old) \<noteq> Some old" "left (heap s old) \<noteq> Some old"
    "right (heap s old) \<noteq> Some old"
  shows "height (heap (fst (super_replaceNode s old n)) n) = height (heap s old)"
    and "parent (heap (fst (super_replaceNode s old n)) n) = parent (heap s old)"
    and "left (heap (fst (super_replaceNode s old n)) n) = left (heap s old)"
    and "right (heap (fst (super_replaceNode s old n)) n) = right (heap s old)"
    and "heap (fst (super_replaceNode s old n)) old = heap s old"
proof -
  define h where "h = heap s"
  define P where "P = parent (h old)"
  define h1 where "h1 = (case P of
                  None \<Rightarrow> h
                | Some p \<Rightarrow>
                    if left (h p) = Some old then h(p := (h p)\<lparr>left := Some n\<rparr>)
                    else if right (h p) = Some old then h(p := (h p)\<lparr>right := Some n\<rparr>)
                    else h)"
  define h2 where "h2 = set_left h1 n (left (h1 old))"
  define h3 where "h3 = set_right h2 n (right (h2 old))"
  define h4 where "h4 = h3(n := (h3 n)\<lparr>parent := P, height := height (h3 old)\<rparr>)"
  have "super_replaceNode s old n =
      (s\<lparr>heap := h4, root := (if root s = Some old then Some n else root s)\<rparr>, n)"
    unfolding super_replaceNode_def Let_def h4_def h3_def h2_def h1_def P_def h_def by (rule refl)
  then have H: "heap (fst (super_replaceNode s old n)) = h4" by simp
  have ho: "h old = heap s old" by (simp add: h_def)
  have Po: "P \<noteq> Some old" using assms(2) by (simp add: P_def ho)
  have h1o: "h1 old = heap s old"
    using Po ho by (auto simp: h1_def split: option.splits)
  have lo: "left (h1 old) \<noteq> Some old" "right (h1 old) \<noteq> Some old" using assms(3,4) h1o by simp_all
  have h2o: "h2 old = heap s old"
    unfolding h2_def using lo(1) assms(1) h1o by (simp add: set_left_other)
  have h3o: "h3 old = heap s old"
    unfolding h3_def using assms(1,4) h2o by (simp add: set_right_other)
  show "heap (fst (super_replaceNode s old n)) old = heap s old"
    using assms(1) h3o by (simp add: H h4_def)
  show "height (heap (fst (super_replaceNode s old n)) n) = height (heap s old)"
    using h3o by (simp add: H h4_def)
  show "parent (heap (fst (super_replaceNode s old n)) n) = parent (heap s old)"
    by (simp add: H h4_def P_def ho)
  have "left (h3 n) = left (h1 old)" by (simp add: h3_def h2_def)
  then show "left (heap (fst (super_replaceNode s old n)) n) = left (heap s old)"
    using h1o by (simp add: H h4_def)
  have "right (h3 n) = right (h2 old)" by (simp add: h3_def)
  then show "right (heap (fst (super_replaceNode s old n)) n) = right (heap s old)"
    using h2o by (simp add: H h4_def)
qed

lemma replaceNode_fields:
  assumes "n \<noteq> old" "parent (heap s old) \<noteq> Some old" "left (heap s old) \<noteq> Some old"
    "right (heap s old) \<noteq> Some old"
  shows "height (heap (fst (replaceNode s old n)) n) = height (heap s old)"
    and "parent (heap (fst (replaceNode s old n)) n) = parent (heap s old)"
    and "left (heap (fst (replaceNode s old n)) n) = left (heap s old)"
    and "right (heap (fst (replaceNode s old n)) n) = right (heap s old)"
    and "heap (fst (replaceNode s old n)) old = heap s old"
proof -
  define s1 where
    "s1 = s\<lparr>heap := (heap s)(n := (heap s n)\<lparr>count := count (heap s old) + count (heap s n)\<rparr>)\<rparr>"
  have r: "replaceNode s old n = super_replaceNode s1 old n"
    by (simp add: replaceNode_def Let_def s1_def)
  have o: "heap s1 old = heap s old" using assms(1) by (simp add: s1_def)
  note R = super_replaceNode_fields[of n old s1, unfolded o, OF assms]
  show "height (heap (fst (replaceNode s old n)) n) = height (heap s old)"
    and "parent (heap (fst (replaceNode s old n)) n) = parent (heap s old)"
    and "left (heap (fst (replaceNode s old n)) n) = left (heap s old)"
    and "right (heap (fst (replaceNode s old n)) n) = right (heap s old)"
    and "heap (fst (replaceNode s old n)) old = heap s old"
    unfolding r using R by simp_all
qed

lemma add_key_found_form:
  assumes I: "bst_inv s t" and O: "old \<in> set (ino t)" "key (heap s old) = k"
  shows "add s (Entry (Some k) v) c =
     Some ((fst (replaceNode (fst (createNode s k v c)) old (fresh s)))
             \<lparr>tcount := tcount s + c\<rparr>, Some (fresh s))"
proof -
  define s1 where "s1 = fst (createNode s k v c)"
  define n where "n = fresh s"
  have c: "heap s1 = (heap s)(n := new_node k v c)" "tcount s1 = tcount s" "root s1 = root s"
    by (simp_all add: s1_def n_def createNode_def)
  have I1: "bst_inv s1 t" unfolding s1_def by (rule bst_inv_createNode[OF I])
  have nt: "n \<notin> set (ino t)" using I by (auto simp: bst_inv_def n_def)
  have on: "old \<noteq> n" using O nt by auto
  have W: "linked (heap s1) None t" "root s1 = top_of t"
    and S1: "sorted_wrt (<) (map (\<lambda>a. key (heap s1 a)) (ino t))"
    using I1 by (simp_all add: bst_inv_def wf_tree_def)
  obtain cur where cur: "top_of t = Some cur" using O by (cases t) auto
  have ko: "key (heap s1 old) = key (heap s1 n)" using O(2) on by (simp add: c new_node_def)
  have "bst_find (\<lambda>a. key (heap s1 a)) (key (heap s1 old)) t = Some old"
    by (rule bst_find_self[OF S1 O(1)])
  then have f: "bst_find (\<lambda>a. key (heap s1 a)) (key (heap s1 n)) t = Some old" using ko by simp
  have b: "bst_insert s1 cur n = Some (fst (replaceNode s1 old n), False)"
    by (rule bst_insert_reaches[OF W(1) cur f])
  have sa: "super_add s1 n = Some (fst (replaceNode s1 old n), Some n)"
    using W(2) cur b by (simp add: super_add_def)
  have cn: "count (heap s1 n) = c" by (simp add: c new_node_def)
  show ?thesis
    unfolding add_Entry_def2 s1_def[symmetric] n_def[symmetric]
    using sa cn c(2) by (simp add: add_node_def2)
qed

lemma add_key_found_node:
  assumes I: "bst_inv s t" and O: "old \<in> set (ino t)" "key (heap s old) = k"
    and A: "add s (Entry (Some k) v) c = Some (s', r)"
  shows "height (heap s' (fresh s)) = height (heap s old)"
    and "parent (heap s' (fresh s)) = parent (heap s old)"
    and "left (heap s' (fresh s)) = left (heap s old)"
    and "right (heap s' (fresh s)) = right (heap s old)"
    and "heap s' old = heap s old"
proof -
  define s1 where "s1 = fst (createNode s k v c)"
  have nt: "fresh s \<notin> set (ino t)" using I by (auto simp: bst_inv_def)
  have on: "fresh s \<noteq> old" using O nt by auto
  have h1: "heap s1 old = heap s old" using on by (simp add: s1_def createNode_def)
  have W: "linked (heap s) None t" "distinct (ino t)"
    using I by (simp_all add: bst_inv_def wf_tree_def)
  have ns: "parent (heap s old) \<noteq> Some old \<and> left (heap s old) \<noteq> Some old \<and> right (heap s old) \<noteq> Some old"
    by (rule linked_no_self[OF W _ O(1)]) simp
  have e: "heap s' = heap (fst (replaceNode s1 old (fresh s)))"
    using A unfolding add_key_found_form[OF I O] s1_def by auto
  note R = replaceNode_fields[of "fresh s" old s1, unfolded h1, OF on]
  show "height (heap s' (fresh s)) = height (heap s old)"
    and "parent (heap s' (fresh s)) = parent (heap s old)"
    and "left (heap s' (fresh s)) = left (heap s old)"
    and "right (heap s' (fresh s)) = right (heap s old)"
    and "heap s' old = heap s old"
    unfolding e using R ns by simp_all
qed

subsection \<open>A tree of four nodes\<close>

lemma tree_5382_built:
  "addMany empty_tree [KeyOnly 5, KeyOnly 3, KeyOnly 8, KeyOnly 2] =
     Some (tree_5382, [Some 0, Some 1, Some 2, Some 3])"
  apply (simp add: eval_defs tree_5382_def)
  apply (rule ext)
  apply simp
  done

lemma bst_inv_tree_5382: "bst_inv tree_5382 (Nd (Nd (Nd Tip 3 Tip) 1 Tip) 0 (Nd Tip 2 Tip))"
  by (simp add: bst_inv_def wf_tree_def tree_5382_def new_node_def)

lemma not_in_shape_map:
  "fresh_n \<notin> set (ino t) \<Longrightarrow> old \<noteq> fresh_n \<Longrightarrow>
   old \<notin> set (ino (shape_map (\<lambda>x. if x = old then fresh_n else x) t))"
  by auto

section \<open>The order of the keys after a public operation\<close>

text \<open>C7, as the code has it: from a tree at rest (its links form a tree from the root,
  the in-order keys are strictly increasing, every node was made by the allocator) each
  public operation -- \<^verbatim>\<open>add\<close>, \<^verbatim>\<open>addMany\<close>, \<^verbatim>\<open>delete\<close>, \<^verbatim>\<open>perfectlyBalance\<close>, \<^verbatim>\<open>clear\<close> --
  returns, and returns a tree at rest again: its in-order traversal yields strictly
  increasing keys. The case of \<^verbatim>\<open>delete\<close> covers the relocation of the in-order
  predecessor's payload by \<^verbatim>\<open>_swapProperties\<close>. The one condition (\<open>op_ok\<close>) is on a node
  object handed to \<^verbatim>\<open>add\<close>, directly or as an element of \<^verbatim>\<open>addMany\<close>: at the time of its
  \<^verbatim>\<open>add\<close> call it is in the tree or has no children.\<close>

theorem public_operations_keep_order:
  assumes "bst_inv s t" and "op_ok s op"
  shows "\<exists>s' t' ks. apply_op s op = Some s' \<and> bst_inv s' t'
     \<and> inorder_keys s' = Some ks \<and> sorted_wrt (<) ks"
proof -
  from apply_op_inv[OF assms] obtain s' t' where r: "apply_op s op = Some s'" "bst_inv s' t'" by blast
  from bst_inv_inorder_keys[OF r(2)] r show ?thesis by blast
qed

theorem public_operations_keep_order_witness:
  "\<exists>s' t' ks. apply_op tree_5382 (OpAdd (NodeRef 1) 1 :: (unit, int) operation) = Some s'
     \<and> bst_inv s' t' \<and> inorder_keys s' = Some ks \<and> sorted_wrt (<) ks"
proof -
  have "in_tree tree_5382 1" by code_simp
  then have h: "op_ok tree_5382 (OpAdd (NodeRef 1) 1 :: (unit, int) operation)"
    by (simp add: ex_ok_def tree_5382_def)
  from public_operations_keep_order[OF bst_inv_tree_5382 h] show ?thesis .
qed

text \<open>C7, as the spec words it, fails on \<^verbatim>\<open>add(5); add(3); add(8); add(2)\<close>, then
  \<^verbatim>\<open>delete(5)\<close>, then \<^verbatim>\<open>add\<close> of the node that \<^verbatim>\<open>delete\<close> returned. \<^verbatim>\<open>delete\<close> moves
  key 3 into the root and returns the former node of key 3, now holding key 5 and
  still pointing to the node of key 2 as its left child; the in-order keys are
  \<open>[2, 3, 8]\<close>. \<^verbatim>\<open>add\<close> links that node as it is (lines 107-108), so the node of key 2
  is met twice: the in-order keys are \<open>[2, 3, 2, 5, 8]\<close>.\<close>

theorem add_deleted_node_breaks_order:
  "map_option (\<lambda>(s1, ds). (ds, inorder_keys s1))
       (delete tree_5382 5 defaultOneParamCallback False)
     = Some ([(Some 1, Some 0)], Some [2, 3, 8])
   \<and> Option.bind (delete tree_5382 5 defaultOneParamCallback False)
       (\<lambda>(s1, ds). Option.bind (add s1 (NodeRef 1) 1) (\<lambda>(s2, r). inorder_keys s2))
     = Some [2, 3, 2, 5, 8]
   \<and> \<not> sorted_wrt (<) [2, 3, 2, 5, 8 :: int]"
  by code_simp

section \<open>add with a key that is present\<close>

text \<open>C4, as the code has it: \<^verbatim>\<open>add\<close> with a key that a node \<open>old\<close> of the tree holds,
  given as an entry with a value or as a key alone (the value is then undefined),
  creates a new node (the next address of the allocator) and returns it. The new node
  stands in the tree where \<open>old\<close> stood: the shape is the old one with \<open>old\<close> renamed,
  and the new node has the parent, the children and the height of \<open>old\<close>. It holds the
  key, the given value and the count of \<open>old\<close> plus the amount. The node \<open>old\<close> keeps
  every field and is no longer in the tree; no other node's key, value or count
  changes. The size is unchanged, the stored total and the public count grow by the
  amount, the in-order keys are the same and the in-order (key, count) sequence is the
  old one with the amount added at that key.\<close>

theorem add_existing_key_replaces_node:
  assumes "bst_inv s t" and "old \<in> set (ino t)" and "key (heap s old) = k"
  shows "\<exists>s'. add s (Entry (Some k) v) amount = Some (s', Some (fresh s))
     \<and> add s (KeyOnly k) amount = add s (Entry (Some k) None) amount
     \<and> bst_inv s' (shape_map (\<lambda>x. if x = old then fresh s else x) t)
     \<and> fresh s' = Suc (fresh s)
     \<and> key (heap s' (fresh s)) = k
     \<and> val (heap s' (fresh s)) = v
     \<and> count (heap s' (fresh s)) = count (heap s old) + amount
     \<and> height (heap s' (fresh s)) = height (heap s old)
     \<and> parent (heap s' (fresh s)) = parent (heap s old)
     \<and> left (heap s' (fresh s)) = left (heap s old)
     \<and> right (heap s' (fresh s)) = right (heap s old)
     \<and> heap s' old = heap s old
     \<and> in_tree s' (fresh s) \<and> \<not> in_tree s' old
     \<and> (\<forall>b. b \<noteq> fresh s \<longrightarrow> key (heap s' b) = key (heap s b) \<and> val (heap s' b) = val (heap s b)
              \<and> count (heap s' b) = count (heap s b))
     \<and> tsize s' = tsize s \<and> tcount s' = tcount s + amount
     \<and> inorder_keys s' = inorder_keys s
     \<and> inorder_content s' =
          map_option (map (\<lambda>(k', c). if k' = k then (k', c + amount) else (k', c))) (inorder_content s)
     \<and> get_count s' = map_option (\<lambda>c. c + amount) (get_count s)
     \<and> inorder_keys s \<noteq> None \<and> inorder_content s \<noteq> None \<and> get_count s \<noteq> None"
proof -
  let ?n = "fresh s"
  let ?f = "\<lambda>x. if x = old then ?n else x"
  from add_key_found[OF assms, of v amount] obtain s' where
    r: "add s (Entry (Some k) v) amount = Some (s', Some ?n)"
      "bst_inv s' (shape_map ?f t)" "fresh s' = Suc ?n" "tcount s' = tcount s + amount"
      "tsize s' = tsize s"
      "\<forall>b. payload (heap s' b) =
           (if b = ?n then (k, v, count (heap s old) + amount) else payload (heap s b))"
    by blast
  note nd = add_key_found_node[OF assms r(1)]
  have D: "distinct (ino t)" and S: "sorted_wrt (<) (map (\<lambda>a. key (heap s a)) (ino t))"
    and Al: "\<forall>a\<in>set (ino t). a < ?n"
    using assms(1) by (simp_all add: bst_inv_def wf_tree_def)
  have nt: "?n \<notin> set (ino t)" and on: "old \<noteq> ?n" using Al assms(2) by auto
  have "payload (heap s' ?n) = (k, v, count (heap s old) + amount)" using r(6) by simp
  then have pn: "key (heap s' ?n) = k" "val (heap s' ?n) = v"
    "count (heap s' ?n) = count (heap s old) + amount"
    by (simp_all add: payload_def)
  have po: "\<forall>b. b \<noteq> ?n \<longrightarrow> key (heap s' b) = key (heap s b) \<and> val (heap s' b) = val (heap s b)
              \<and> count (heap s' b) = count (heap s b)"
  proof (intro allI impI)
    fix b assume "b \<noteq> ?n"
    then have "payload (heap s' b) = payload (heap s b)" using r(6) by simp
    then show "key (heap s' b) = key (heap s b) \<and> val (heap s' b) = val (heap s b)
              \<and> count (heap s' b) = count (heap s b)" by (simp add: payload_def)
  qed
  have it: "in_tree s' ?n" "\<not> in_tree s' old"
    unfolding in_tree_iff[OF r(2)] using assms(2) not_in_shape_map[OF nt on] by auto
  have inj: "inj_on (\<lambda>a. key (heap s a)) (set (ino t))"
    using S by (metis (no_types, lifting) distinct_map strict_sorted_iff sorted_wrt_map)
  have kk: "\<And>a. a \<in> set (ino t) \<Longrightarrow> key (heap s a) = k \<longleftrightarrow> a = old"
    using inj assms(2,3) by (auto simp: inj_on_def)
  have e1: "\<And>a. a \<in> set (ino t) \<Longrightarrow> key (heap s' (?f a)) = key (heap s a)"
    using pn po Al assms(3) by auto
  have e2: "\<And>a. a \<in> set (ino t) \<Longrightarrow>
      count (heap s' (?f a)) = (if a = old then count (heap s a) + amount else count (heap s a))"
    using pn po Al by auto
  note o = bst_inv_observe[OF assms(1)] and o' = bst_inv_observe[OF r(2)]
  have k1: "inorder_keys s' = inorder_keys s"
    unfolding o o' using e1 by (simp add: comp_def)
  have c1: "inorder_content s' =
      map_option (map (\<lambda>(k', c). if k' = k then (k', c + amount) else (k', c))) (inorder_content s)"
    unfolding o o' using e1 e2 kk by (auto simp: comp_def)
  have g1: "get_count s' = map_option (\<lambda>c. c + amount) (get_count s)"
  proof -
    have m: "map (\<lambda>a. count (heap s' a)) (ino (shape_map ?f t))
        = map (\<lambda>a. if a = old then count (heap s a) + amount else count (heap s a)) (ino t)"
      using e2 by (simp add: comp_def)
    have "sum_list (map (\<lambda>a. count (heap s' a)) (ino (shape_map ?f t)))
        = sum_list (map (\<lambda>a. count (heap s a)) (ino t)) + amount"
      unfolding m by (rule sum_list_upd_one[OF D assms(2)])
    then show ?thesis
      unfolding o(3) o'(3) by (simp del: ino_shape_map)
  qed
  have ko: "add s (KeyOnly k) amount = add s (Entry (Some k) None) amount"
    by (rule add_KeyOnly_def2)
  have nn: "inorder_keys s \<noteq> None" "inorder_content s \<noteq> None" "get_count s \<noteq> None"
    unfolding o by simp_all
  show ?thesis
    by (intro exI[of _ s'] conjI r(1) ko r(2) r(3) pn nd it po r(5) r(4) k1 c1 g1 nn)
qed

theorem add_existing_key_replaces_node_witness:
  "\<exists>s'. add tree_5382 (Entry (Some 3) (Some ())) 2 = Some (s', Some (fresh tree_5382))
     \<and> fresh s' = Suc (fresh tree_5382)
     \<and> key (heap s' (fresh tree_5382)) = 3
     \<and> val (heap s' (fresh tree_5382)) = Some ()
     \<and> count (heap s' (fresh tree_5382)) = count (heap tree_5382 1) + 2
     \<and> height (heap s' (fresh tree_5382)) = height (heap tree_5382 1)
     \<and> left (heap s' (fresh tree_5382)) = left (heap tree_5382 1)
     \<and> heap s' 1 = heap tree_5382 1
     \<and> tsize s' = tsize tree_5382 \<and> tcount s' = tcount tree_5382 + 2
     \<and> inorder_keys s' = inorder_keys tree_5382
     \<and> get_count s' = map_option (\<lambda>c. c + 2) (get_count tree_5382)"
proof -
  have h1: "(1::nat) \<in> set (ino (Nd (Nd (Nd Tip 3 Tip) 1 Tip) 0 (Nd Tip 2 Tip)))" by simp
  have h2: "key (heap tree_5382 1) = 3" by (simp add: tree_5382_def new_node_def)
  from add_existing_key_replaces_node[OF bst_inv_tree_5382 h1 h2, of "Some ()" 2]
  show ?thesis by blast
qed

text \<open>C4, as the spec words it, fails on \<^verbatim>\<open>add(5)\<close> twice: the second call returns a
  new node (address 1) that is the root from then on; the node the first call made
  (address 0) keeps count 1, and the allocator has made a second node.\<close>

theorem add_existing_key_counterexample:
  "add tree_5 (KeyOnly 5) 1 = Some (tree_55, Some 1)
   \<and> root tree_5 = Some 0 \<and> key (heap tree_5 0) = 5
   \<and> count (heap tree_55 0) \<noteq> count (heap tree_5 0) + 1
   \<and> root tree_55 \<noteq> root tree_5
   \<and> fresh tree_55 \<noteq> fresh tree_5"
  by (simp add: eval_defs tree_5_def tree_55_def)

section \<open>perfectlyBalance: the round trip\<close>

text \<open>C5: for a non-empty tree at rest, \<^verbatim>\<open>perfectlyBalance\<close> (either variant) returns
  true; the in-order walk of the rebuilt tree gives the same sequence of (key, count)
  pairs as the in-order walk before the call, and \<^verbatim>\<open>isAVLBalanced\<close> then returns true.
  Each \<^verbatim>\<open>add\<close> of the rebuild inserts a key that the new tree does not hold yet, and
  the rebalancing walk after each insertion keeps the heights of the two subtrees of
  every node within 1 of each other.\<close>

theorem perfectlyBalance_round_trip:
  assumes "bst_inv s t" and "t \<noteq> Tip"
  shows "\<exists>s' cs. perfectlyBalance s iterationType = Some (s', True)
     \<and> inorder_content s = Some cs \<and> inorder_content s' = Some cs
     \<and> isAVLBalanced s' = Some True"
proof -
  from perfectlyBalance_rebuild[OF assms, of iterationType] obtain s' t' where
    r: "perfectlyBalance s iterationType = Some (s', True)" "avl_inv s' t'"
      "(\<lambda>a. payload (heap s' a)) ` set (ino t') = (\<lambda>a. payload (heap s a)) ` set (ino t)"
    by blast
  have B': "bst_inv s' t'" using r(2) by (simp add: avl_inv_def)
  let ?kc = "\<lambda>s a. (key (heap s a), count (heap s a))"
  let ?g = "\<lambda>p :: BTNKey \<times> 'a option \<times> int. (fst p, snd (snd p))"
  let ?xs = "map (?kc s) (ino t)" and ?ys = "map (?kc s') (ino t')"
  have kc: "\<And>s. ?kc s = (\<lambda>a. ?g (payload (heap s a)))" by (simp add: payload_def)
  have "set ?ys = ?g ` ((\<lambda>a. payload (heap s' a)) ` set (ino t'))"
    unfolding kc by (simp add: image_image)
  also have "\<dots> = ?g ` ((\<lambda>a. payload (heap s a)) ` set (ino t))" unfolding r(3) ..
  also have "\<dots> = set ?xs" unfolding kc by (simp add: image_image)
  finally have se: "set ?ys = set ?xs" .
  have sx: "sorted_wrt (<) (map fst ?xs)" using assms(1) by (simp add: bst_inv_def comp_def)
  have sy: "sorted_wrt (<) (map fst ?ys)" using B' by (simp add: bst_inv_def comp_def)
  have e: "?ys = ?xs" by (rule sorted_fst_unique[OF sy sx se])
  have "inorder_content s = Some ?xs" by (rule bst_inv_observe(2)[OF assms(1)])
  moreover have "inorder_content s' = Some ?xs"
    using bst_inv_observe(2)[OF B'] e by simp
  moreover have "isAVLBalanced s' = Some True" by (rule avl_inv_balanced[OF r(2)])
  ultimately show ?thesis using r(1) by blast
qed

theorem perfectlyBalance_round_trip_witness:
  "\<exists>s' cs. perfectlyBalance tree_213 ITERATIVE = Some (s', True)
     \<and> inorder_content tree_213 = Some cs \<and> inorder_content s' = Some cs
     \<and> isAVLBalanced s' = Some True"
proof -
  have h: "Nd (Nd Tip 1 Tip) 0 (Nd Tip 2 Tip) \<noteq> Tip" by simp
  from perfectlyBalance_round_trip[OF bst_inv_tree_213 h] show ?thesis .
qed

end
